(* ===== verification/Kernel_Prelude.thy ===== *)
theory Kernel_Prelude
  imports Main "HOL-Library.Word"
begin

text \<open>
  The vocabulary the components share: machine words and pointers, the outcome of a kernel
  call (a value, a transfer of control to another context, an endless loop, a fault), decimal
  printing, and the generic lemmas on words and lists that the component proofs use.
\<close>

unbundle bit_operations_syntax

section \<open>Machine types\<close>

text \<open>The fixed-width types of \<open>stdint.h\<close>; \<open>int\<close> and \<open>pid_t\<close> are 32-bit words read
  with \<^const>\<open>sint\<close>. A pointer is its 64-bit address; address 0 is \<open>NULL\<close>.\<close>

type_synonym u8 = "8 word"
type_synonym u16 = "16 word"
type_synonym u32 = "32 word"
type_synonym u64 = "64 word"
type_synonym s32 = "32 word"
type_synonym ptr = "64 word"

abbreviation NULL :: ptr where
  "NULL \<equiv> 0"

section \<open>Outcomes of kernel calls\<close>

text \<open>
  A kernel call returns a value, or hands the processor to another context
  (\<open>context_switch\<close>, \<open>context_restore\<close>), or never comes back because it loops, or faults
  on a bad pointer. Code after a transfer is not executed.
\<close>

datatype fault = NullDeref | BadPtr | OutOfBounds

datatype transfer = Context_switch ptr ptr | Context_restore ptr

datatype ('a, 's) exec = Ret 'a 's | Xfer transfer 's | Spin 's | Crash fault

fun and_then :: "('a, 's) exec \<Rightarrow> ('a \<Rightarrow> 's \<Rightarrow> ('b, 's) exec) \<Rightarrow> ('b, 's) exec" where
  "and_then (Ret v s) k = k v s"
| "and_then (Xfer t s) k = Xfer t s"
| "and_then (Spin s) k = Spin s"
| "and_then (Crash f) k = Crash f"

fun exec_state :: "('a, 's) exec \<Rightarrow> 's option" where
  "exec_state (Ret v s) = Some s"
| "exec_state (Xfer t s) = Some s"
| "exec_state (Spin s) = Some s"
| "exec_state (Crash f) = None"

named_theorems exec_simps \<open>rewrite rules that run a kernel call\<close>

lemma and_then_assoc [exec_simps]:
  "and_then (and_then r f) g = and_then r (\<lambda>v s. and_then (f v s) g)"
  by (cases r) simp_all

lemma and_then_Ret_iff:
  "and_then r k = Ret v s \<longleftrightarrow> (\<exists>w t. r = Ret w t \<and> k w t = Ret v s)"
  by (cases r) auto

lemma map_exec_and_then:
  assumes "\<And>v s. map_exec f g (k v s) = k' v (g s)"
  shows "and_then (map_exec id g r) k' = map_exec f g (and_then r k)"
  using assms by (cases r) simp_all

section \<open>Decimal numerals, as C prints them\<close>

definition digit_char :: "nat \<Rightarrow> char" where
  "digit_char d = char_of (48 + d)"

fun dec_nat :: "nat \<Rightarrow> string" where
  "dec_nat n = (if n < 10 then [digit_char n] else dec_nat (n div 10) @ [digit_char (n mod 10)])"

declare dec_nat.simps [simp del]

definition dec_int :: "int \<Rightarrow> string" where
  "dec_int i = (if i < 0 then CHR ''-'' # dec_nat (nat (- i)) else dec_nat (nat i))"

section \<open>Words\<close>

lemma unat_add_no_wrap:
  fixes x y :: "'a::len word"
  assumes "unat x + unat y < 2 ^ LENGTH('a)"
  shows "unat (x + y) = unat x + unat y"
  using assms by (simp add: unat_word_ariths)

lemma unat_and_not_mask:
  fixes x :: "'a::len word"
  shows "unat (x AND NOT (mask n)) = unat x div 2 ^ n * 2 ^ n"
proof -
  have "uint (x AND NOT (mask n)) = push_bit n (drop_bit n (uint x))"
    by (rule bit_eqI) (auto simp: bit_simps dest: bit_imp_le_length)
  then have "int (unat (x AND NOT (mask n))) = int (unat x div 2 ^ n * 2 ^ n)"
    by (simp add: push_bit_eq_mult drop_bit_eq_div zdiv_int)
  then show ?thesis by (simp only: of_nat_eq_iff)
qed

text \<open>Rounding a size up to a multiple of 4 or 16, as the allocators do.\<close>

lemma unat_align4:
  fixes x :: u64
  assumes "unat x + 3 < 2 ^ 64"
  shows "unat ((x + 3) AND NOT 3) = (unat x + 3) div 4 * 4"
proof -
  have "unat (x + 3) = unat x + 3"
    using assms unat_add_no_wrap [of x 3] by simp
  then show ?thesis
    using unat_and_not_mask [of "x + 3" 2] by (simp add: mask_eq_exp_minus_1)
qed

lemma unat_align16:
  fixes x :: u64
  assumes "unat x + 15 < 2 ^ 64"
  shows "unat ((x + 15) AND NOT 15) = (unat x + 15) div 16 * 16"
proof -
  have "unat (x + 15) = unat x + 15"
    using assms unat_add_no_wrap [of x 15] by simp
  then show ?thesis
    using unat_and_not_mask [of "x + 15" 4] by (simp add: mask_eq_exp_minus_1)
qed

lemma unat_and_mask4: "unat (x AND 15 :: u64) = unat x mod 16"
proof -
  have "unat (x AND mask 4) = take_bit 4 (unat x)"
    by (simp only: take_bit_eq_mask [symmetric] unsigned_take_bit_eq)
  also have "\<dots> = unat x mod 2 ^ 4" by (rule take_bit_eq_mod)
  finally show ?thesis by (simp add: mask_eq_exp_minus_1)
qed

lemma unat_zero_iff [simp]: "unat x = 0 \<longleftrightarrow> x = 0"
  by (simp add: unat_eq_0)

lemma unat_nonzero [simp]: "0 < unat x \<longleftrightarrow> x \<noteq> 0"
  by (simp add: unat_gt_0)

lemma unat_u32_less: "unat (x :: u32) < 2 ^ 32"
  using unsigned_less [of x, where ?'a = nat] by simp

lemma unat_u64_less: "unat (x :: u64) < 2 ^ 64"
  using unsigned_less [of x, where ?'a = nat] by simp

lemma unat_ucast_up [simp]: "unat (ucast (x :: u32) :: u64) = unat x"
  using unat_u32_less [of x] by (simp add: unsigned_ucast_eq take_bit_nat_eq_self)

lemma unat_ucast_down:
  fixes x :: u64
  assumes "unat x < 2 ^ 32"
  shows "unat (ucast x :: u32) = unat x"
  using assms by (simp add: unsigned_ucast_eq take_bit_nat_eq_self)

lemma unat_sub_le:
  fixes x y :: "'a::len word"
  assumes "unat y \<le> unat x"
  shows "unat (x - y) = unat x - unat y"
  using assms by (simp add: unat_sub word_le_nat_alt)

lemma word_le_1:
  fixes x :: u32
  shows "x \<le> 1 \<longleftrightarrow> x = 0 \<or> x = 1"
proof -
  have "x \<le> 1 \<longleftrightarrow> unat x \<le> 1" by (simp add: word_le_nat_alt)
  also have "\<dots> \<longleftrightarrow> unat x = unat (0 :: u32) \<or> unat x = unat (1 :: u32)"
    unfolding unat_0 unat_1 by linarith
  finally show ?thesis by (simp only: word_unat_eq_iff)
qed

lemma sint_unat_small:
  fixes x :: "32 word"
  assumes "unat x < 2 ^ 31"
  shows "sint x = int (unat x)"
proof -
  have "nat (uint x) < 2 ^ 31" using assms by (simp only: unat_eq_nat_uint)
  then have u: "uint x < 2 ^ 31" by (simp only: nat_less_iff uint_ge_0) simp
  have "- (2 ^ 31) \<le> uint x" by (rule order_trans [OF _ uint_ge_0]) simp
  then have "signed_take_bit 31 (uint x) = uint x" using u by (rule signed_take_bit_int_eq_self)
  then show ?thesis by (simp add: sint_uint)
qed

lemma sint_pos_small:
  fixes x :: "32 word"
  assumes "unat x < 2 ^ 31"
  shows "0 < sint x \<longleftrightarrow> x \<noteq> 0"
  unfolding sint_unat_small [OF assms] by (simp only: of_nat_0_less_iff unat_nonzero)

section \<open>Pointer tables\<close>

text \<open>
  Fixed arrays of pointers in which \<open>NULL\<close> marks a free slot (the task table, the block cache):
  the index of the first free slot, one past the last used slot, clearing the first slot that
  holds a pointer.
\<close>

fun first_null :: "ptr list \<Rightarrow> nat option" where
  "first_null [] = None"
| "first_null (p # ps) = (if p = NULL then Some 0 else map_option Suc (first_null ps))"

fun count_used :: "nat \<Rightarrow> nat \<Rightarrow> ptr list \<Rightarrow> nat" where
  "count_used i n [] = n"
| "count_used i n (p # ps) = count_used (Suc i) (if p \<noteq> NULL then Suc i else n) ps"

fun clear_first :: "ptr \<Rightarrow> ptr list \<Rightarrow> ptr list" where
  "clear_first x [] = []"
| "clear_first x (p # ps) = (if p = x then NULL # ps else p # clear_first x ps)"

definition used_slots :: "ptr list \<Rightarrow> ptr list" where
  "used_slots ps = filter (\<lambda>p. p \<noteq> NULL) ps"

lemma first_null_Some:
  "first_null ps = Some i \<longleftrightarrow> i < length ps \<and> ps ! i = NULL \<and> (\<forall>j < i. ps ! j \<noteq> NULL)"
proof (induction ps arbitrary: i)
  case (Cons p ps)
  then show ?case by (cases i) (auto simp: nth_Cons All_less_Suc2 split: nat.splits)
qed simp

lemma first_null_None: "first_null ps = None \<longleftrightarrow> NULL \<notin> set ps"
  by (induction ps) auto

lemma first_null_le:
  assumes "i < length ps" "ps ! i = NULL"
  obtains j where "first_null ps = Some j" "j \<le> i"
proof -
  obtain j where j: "first_null ps = Some j"
    using assms nth_mem [OF assms(1)] first_null_None [of ps] by (cases "first_null ps") auto
  then have "j \<le> i" using assms by (auto simp: first_null_Some not_less [symmetric])
  with j that show thesis by blast
qed

lemma used_slots_update:
  assumes "first_null ps = Some i" "p \<noteq> NULL"
  shows "\<exists>as bs. used_slots ps = as @ bs \<and> used_slots (ps[i := p]) = as @ p # bs"
  using assms
proof (induction ps arbitrary: i)
  case (Cons x xs)
  show ?case
  proof (cases "x = NULL")
    case True
    then show ?thesis using Cons.prems by (auto simp: used_slots_def)
  next
    case False
    then obtain j where j: "first_null xs = Some j" "i = Suc j" using Cons.prems by auto
    obtain as bs where "used_slots xs = as @ bs" "used_slots (xs[j := p]) = as @ p # bs"
      using Cons.IH [OF j(1) Cons.prems(2)] by blast
    then have "used_slots (x # xs) = (x # as) @ bs \<and> used_slots ((x # xs)[i := p]) = (x # as) @ p # bs"
      using False j by (simp add: used_slots_def)
    then show ?thesis by blast
  qed
qed simp

lemma length_clear_first [simp]: "length (clear_first x ps) = length ps"
  by (induction ps) auto

lemma used_slots_clear: "x \<noteq> NULL \<Longrightarrow> used_slots (clear_first x ps) = remove1 x (used_slots ps)"
  by (induction ps) (auto simp: used_slots_def)

lemma clear_first_append:
  "clear_first x (ps @ qs) = (if x \<in> set ps then clear_first x ps @ qs else ps @ clear_first x qs)"
  by (induction ps) auto

lemma nth_clear_first: "i < length ps \<Longrightarrow> clear_first x ps ! i = NULL \<or> clear_first x ps ! i = ps ! i"
  by (induction ps arbitrary: i) (auto simp: nth_Cons split: nat.splits)

lemma nth_clear_first_other: "i < length ps \<Longrightarrow> ps ! i \<noteq> x \<Longrightarrow> clear_first x ps ! i = ps ! i"
  by (induction ps arbitrary: i) (auto simp: nth_Cons split: nat.splits)

lemma count_used_le: "n \<le> i \<Longrightarrow> count_used i n ps \<le> i + length ps"
proof (induction ps arbitrary: i n)
  case (Cons p ps)
  then show ?case using Cons.IH [of "Suc i" "Suc i"] Cons.IH [of n "Suc i"] by auto
qed simp

lemma count_used_ge: "n \<le> i \<Longrightarrow> n \<le> count_used i n ps"
proof (induction ps arbitrary: i n)
  case (Cons p ps)
  have "Suc i \<le> count_used (Suc i) (Suc i) ps" by (rule Cons.IH) simp
  moreover have "n \<le> count_used (Suc i) n ps" using Cons.prems by (intro Cons.IH) simp
  ultimately show ?case using Cons.prems by simp
qed simp

lemma count_used_covers:
  assumes "n \<le> i" "j < length ps" "ps ! j \<noteq> NULL"
  shows "i + j < count_used i n ps"
  using assms
proof (induction ps arbitrary: i n j)
  case (Cons p ps)
  show ?case
  proof (cases j)
    case 0
    then show ?thesis using Cons.prems count_used_ge [of "Suc i" "Suc i" ps] by simp
  next
    case (Suc k)
    then show ?thesis using Cons.IH [of _ "Suc i" k] Cons.prems by simp
  qed
qed simp


end
