(* ===== verification/Allocator_Spec.thy ===== *)
theory Allocator_Spec
  imports Kernel_Prelude
begin

text \<open>
  What a kernel component relies on when it calls \<open>kmalloc\<close>: a successful request returns a
  region no earlier request owns, a failed one changes nothing. The three \<open>kmalloc\<close>s of the
  repository (\<open>kernel/process/memory.c\<close>, \<open>kernel/mm/process_mm.c\<close>, \<open>kernel/mm/heap.c\<close>)
  interpret this interface in their own theories. The laws are stated for requests below
  \<open>2^63\<close> bytes: near \<open>2^64\<close> the size arithmetic of all three wraps around.
\<close>

definition region :: "ptr \<Rightarrow> u64 \<Rightarrow> nat set" where
  "region p n = {unat p ..< unat p + unat n}"

definition request_ok :: "u64 \<Rightarrow> bool" where
  "request_ok n \<longleftrightarrow> unat n < 2 ^ 63"

text \<open>A client that allocates a list of sizes, one after the other.\<close>

fun alloc_seq :: "(u64 \<Rightarrow> 'm \<Rightarrow> ptr \<times> 'm) \<Rightarrow> u64 list \<Rightarrow> 'm \<Rightarrow> (ptr \<times> u64) list \<times> 'm" where
  "alloc_seq alloc [] m = ([], m)"
| "alloc_seq alloc (n # ns) m =
     (case alloc n m of (p, m1) \<Rightarrow>
      case alloc_seq alloc ns m1 of (bs, m2) \<Rightarrow> ((p, n) # bs, m2))"

text \<open>No two successful allocations of a history overlap.\<close>

fun disjoint_blocks :: "(ptr \<times> u64) list \<Rightarrow> bool" where
  "disjoint_blocks [] = True"
| "disjoint_blocks ((p, n) # bs) =
     ((\<forall>(q, k) \<in> set bs. p = NULL \<or> q = NULL \<or> region p n \<inter> region q k = {}) \<and>
      disjoint_blocks bs)"

locale allocator =
  fixes alloc :: "u64 \<Rightarrow> 'm \<Rightarrow> ptr \<times> 'm"
    and inv :: "'m \<Rightarrow> bool"
    and owned :: "'m \<Rightarrow> nat set"
  assumes alloc_inv: "inv m \<Longrightarrow> request_ok n \<Longrightarrow> alloc n m = (p, m') \<Longrightarrow> inv m'"
    and alloc_fail: "inv m \<Longrightarrow> request_ok n \<Longrightarrow> alloc n m = (NULL, m') \<Longrightarrow> m' = m"
    and alloc_fresh: "inv m \<Longrightarrow> request_ok n \<Longrightarrow> alloc n m = (p, m') \<Longrightarrow> p \<noteq> NULL \<Longrightarrow>
      region p n \<inter> owned m = {}"
    and alloc_owned: "inv m \<Longrightarrow> request_ok n \<Longrightarrow> alloc n m = (p, m') \<Longrightarrow> p \<noteq> NULL \<Longrightarrow>
      owned m \<union> region p n \<subseteq> owned m'"
begin

lemma alloc_owned_mono:
  assumes "inv m" "request_ok n" "alloc n m = (p, m')"
  shows "owned m \<subseteq> owned m'"
  using assms alloc_fail alloc_owned by (cases "p = NULL") blast+

lemma alloc_seq_inv:
  assumes "inv m" "\<forall>n \<in> set ns. request_ok n" "alloc_seq alloc ns m = (bs, m')"
  shows "inv m'"
  using assms
  by (induction ns arbitrary: m bs) (auto split: prod.splits dest: alloc_inv)

lemma alloc_seq_fresh:
  assumes "inv m" "\<forall>n \<in> set ns. request_ok n" "alloc_seq alloc ns m = (bs, m')"
    and "(q, k) \<in> set bs" "q \<noteq> NULL"
  shows "region q k \<inter> owned m = {}"
  using assms
proof (induction ns arbitrary: m bs)
  case Nil
  then show ?case by simp
next
  case (Cons n ns)
  obtain p m1 where a: "alloc n m = (p, m1)" by fastforce
  obtain cs m2 where r: "alloc_seq alloc ns m1 = (cs, m2)" by fastforce
  have bs: "bs = (p, n) # cs" "m' = m2" using Cons.prems(3) a r by auto
  show ?case
  proof (cases "(q, k) = (p, n)")
    case True
    then show ?thesis using alloc_fresh a Cons.prems by auto
  next
    case False
    then have "region q k \<inter> owned m1 = {}"
      using Cons.IH [of m1 cs] Cons.prems a r bs alloc_inv by auto
    moreover have "owned m \<subseteq> owned m1"
      using alloc_owned_mono [OF _ _ a] Cons.prems by simp
    ultimately show ?thesis by blast
  qed
qed

lemma alloc_seq_disjoint:
  assumes "inv m" "\<forall>n \<in> set ns. request_ok n" "alloc_seq alloc ns m = (bs, m')"
  shows "disjoint_blocks bs"
  using assms
proof (induction ns arbitrary: m bs)
  case Nil
  then show ?case by simp
next
  case (Cons n ns)
  obtain p m1 where a: "alloc n m = (p, m1)" by fastforce
  obtain cs where r: "alloc_seq alloc ns m1 = (cs, m')"
    using Cons.prems(3) a by (auto split: prod.splits)
  have bs: "bs = (p, n) # cs" using Cons.prems(3) a r by auto
  have i1: "inv m1" using alloc_inv a Cons.prems by auto
  have "disjoint_blocks cs" using Cons.IH [OF i1 _ r] Cons.prems by auto
  moreover have "region p n \<inter> region q k = {}"
    if "(q, k) \<in> set cs" "p \<noteq> NULL" "q \<noteq> NULL" for q k
  proof -
    have "region q k \<inter> owned m1 = {}"
      using alloc_seq_fresh [OF i1 _ r that(1)] Cons.prems that by auto
    moreover have "region p n \<subseteq> owned m1"
      using alloc_owned [OF _ _ a that(2)] Cons.prems by auto
    ultimately show ?thesis by blast
  qed
  ultimately show ?case using bs by auto
qed

end

text \<open>
  An allocator that takes memory back: it knows the blocks that are in use, \<open>live\<close>, each with the
  bytes set aside for it. Allocating adds a block, freeing a live pointer takes exactly its block
  away.
\<close>

locale reclaiming_allocator = allocator alloc inv owned
  for alloc :: "u64 \<Rightarrow> 'm \<Rightarrow> ptr \<times> 'm" and inv :: "'m \<Rightarrow> bool" and owned :: "'m \<Rightarrow> nat set" +
  fixes free :: "ptr \<Rightarrow> 'm \<Rightarrow> 'm"
    and live :: "'m \<Rightarrow> ptr \<Rightarrow> nat set option"
  assumes live_owned: "inv m \<Longrightarrow> live m p = Some D \<Longrightarrow> D \<subseteq> owned m"
    and live_apart: "inv m \<Longrightarrow> live m p = Some D \<Longrightarrow> live m q = Some E \<Longrightarrow> p \<noteq> q \<Longrightarrow> D \<inter> E = {}"
    and alloc_live: "inv m \<Longrightarrow> request_ok n \<Longrightarrow> alloc n m = (p, m') \<Longrightarrow> p \<noteq> NULL \<Longrightarrow>
      live m p = None \<and> (\<exists>D. region p n \<subseteq> D \<and> live m' = (live m)(p \<mapsto> D))"
    and free_inv: "inv m \<Longrightarrow> live m p = Some D \<Longrightarrow> inv (free p m)"
    and free_live: "inv m \<Longrightarrow> live m p = Some D \<Longrightarrow> live (free p m) = (live m)(p := None)"

end
