(* ===== verification/Kmem.thy ===== *)
theory Kmem
  imports Allocator_Spec
begin

text \<open>
  The kernel memory of the process subsystem, \<open>kernel/process/memory.c\<close>: a bump allocator
  over a static 1 MB array, and the memory descriptors of \<open>include/memory.h\<close>.
  A \<open>kfree\<close> frees nothing and only prints the pointer; \<open>free_log\<close> is that printed trace.
\<close>

section \<open>Data\<close>

record vm_area_struct =
  vm_start :: u32
  vm_end :: u32
  vm_flags :: u32
  vm_next :: ptr

record mm_struct =
  mm_mmap :: ptr
  mm_start_code :: u32
  mm_end_code :: u32
  mm_start_data :: u32
  mm_end_data :: u32
  mm_start_heap :: u32
  mm_end_heap :: u32
  mm_start_stack :: u32

text \<open>
  \<open>heap_addr\<close> is the address of the static array \<open>heap\<close>. The descriptors that live in the
  array are kept in typed stores, indexed by their address.
\<close>

record kmem =
  heap_addr :: ptr
  heap_used :: u64
  free_log :: "ptr list"
  mms :: "ptr \<Rightarrow> mm_struct option"
  vmas :: "ptr \<Rightarrow> vm_area_struct option"

definition HEAP_SIZE :: u64 where
  "HEAP_SIZE = 1024 * 1024"

definition zero_mm :: mm_struct where
  "zero_mm = \<lparr>mm_mmap = NULL, mm_start_code = 0, mm_end_code = 0, mm_start_data = 0,
     mm_end_data = 0, mm_start_heap = 0, mm_end_heap = 0, mm_start_stack = 0\<rparr>"

text \<open>\<open>sizeof(mm_struct_t)\<close>: one pointer, seven 32-bit words, padded to 8.\<close>

definition sizeof_mm_struct :: u64 where
  "sizeof_mm_struct = 40"

section \<open>Operations\<close>

definition kmalloc :: "u64 \<Rightarrow> 'a kmem_scheme \<Rightarrow> ptr \<times> 'a kmem_scheme" where
  "kmalloc sz s =
     (if heap_used s + sz > HEAP_SIZE then (NULL, s)
      else let ptr = heap_addr s + heap_used s;
               used = heap_used s + sz;
               used = (used + 3) AND NOT 3
           in (ptr, s\<lparr>heap_used := used\<rparr>))"

definition kfree :: "ptr \<Rightarrow> 'a kmem_scheme \<Rightarrow> 'a kmem_scheme" where
  "kfree p s = s\<lparr>free_log := free_log s @ [p]\<rparr>"

definition mm_create :: "'a kmem_scheme \<Rightarrow> ptr \<times> 'a kmem_scheme" where
  "mm_create s =
     (case kmalloc sizeof_mm_struct s of (mm, s) \<Rightarrow>
      if mm = NULL then (NULL, s)
      else (mm, s\<lparr>mms := (mms s)(mm \<mapsto> zero_mm)\<rparr>))"

text \<open>The loop of \<open>mm_destroy\<close>; on a cyclic list it does not end.\<close>

partial_function (option) mm_destroy_loop ::
  "ptr \<Rightarrow> 'a kmem_scheme \<Rightarrow> (unit, 'a kmem_scheme) exec option" where
  "mm_destroy_loop vma s =
     (if vma = NULL then Some (Ret () s)
      else case vmas s vma of
        None \<Rightarrow> Some (Crash BadPtr)
      | Some v \<Rightarrow> mm_destroy_loop (vm_next v) (kfree vma s))"

definition mm_destroy :: "ptr \<Rightarrow> 'a kmem_scheme \<Rightarrow> (unit, 'a kmem_scheme) exec" where
  "mm_destroy mm s =
     (if mm = NULL then Ret () s
      else case mms s mm of
        None \<Rightarrow> Crash BadPtr
      | Some m \<Rightarrow>
          (case mm_destroy_loop (mm_mmap m) s of
             None \<Rightarrow> Spin s
           | Some r \<Rightarrow> and_then r (\<lambda>_ s. Ret () (kfree mm s))))"

definition allocate_kernel_stack :: "u64 \<Rightarrow> 'a kmem_scheme \<Rightarrow> ptr \<times> 'a kmem_scheme" where
  "allocate_kernel_stack sz s = kmalloc sz s"

definition free_kernel_stack :: "ptr \<Rightarrow> 'a kmem_scheme \<Rightarrow> 'a kmem_scheme" where
  "free_kernel_stack stack s = kfree stack s"

section \<open>The allocator's invariant\<close>

text \<open>
  The array is a C object: not at address 0, and its end does not wrap around. The cursor
  stays inside it and on a 4-byte boundary.
\<close>

definition kmem_inv :: "'a kmem_scheme \<Rightarrow> bool" where
  "kmem_inv s \<longleftrightarrow>
     heap_addr s \<noteq> NULL \<and> unat (heap_addr s) + unat HEAP_SIZE < 2 ^ 64 \<and>
     unat (heap_used s) \<le> unat HEAP_SIZE \<and> 4 dvd unat (heap_used s)"

definition kmem_owned :: "'a kmem_scheme \<Rightarrow> nat set" where
  "kmem_owned s = {unat (heap_addr s) ..< unat (heap_addr s) + unat (heap_used s)}"

lemma unat_HEAP_SIZE [simp]: "unat HEAP_SIZE = 1048576"
  by (simp add: HEAP_SIZE_def)

text \<open>Both branches of \<open>kmalloc\<close>, for every request below \<open>2^63\<close>.\<close>

lemma kmalloc_cases:
  assumes inv: "kmem_inv s" and ok: "request_ok n"
  obtains (fail) "unat (heap_used s) + unat n > unat HEAP_SIZE" "kmalloc n s = (NULL, s)"
  | (alloc) u where "unat (heap_used s) + unat n \<le> unat HEAP_SIZE"
      "kmalloc n s = (heap_addr s + heap_used s, s\<lparr>heap_used := u\<rparr>)"
      "unat u = (unat (heap_used s) + unat n + 3) div 4 * 4"
proof -
  have b: "unat (heap_used s) \<le> 1048576" "unat n < 2 ^ 63"
    using inv ok by (auto simp: kmem_inv_def request_ok_def)
  have sum: "unat (heap_used s + n) = unat (heap_used s) + unat n"
    using b by (intro unat_add_no_wrap) simp
  have gt: "HEAP_SIZE < heap_used s + n \<longleftrightarrow> unat HEAP_SIZE < unat (heap_used s) + unat n"
    by (simp add: word_less_nat_alt sum)
  show thesis
  proof (cases "unat HEAP_SIZE < unat (heap_used s) + unat n")
    case True
    with gt fail show ?thesis by (simp add: kmalloc_def)
  next
    case False
    let ?u = "(heap_used s + n + 3) AND NOT 3"
    have "unat ?u = (unat (heap_used s) + unat n + 3) div 4 * 4"
      using unat_align4 [of "heap_used s + n"] sum False by simp
    with False gt show ?thesis
      by (intro alloc [of ?u]) (simp_all add: kmalloc_def Let_def)
  qed
qed

lemma kmem_ptr_unat:
  assumes "kmem_inv s"
  shows "unat (heap_addr s + heap_used s) = unat (heap_addr s) + unat (heap_used s)"
  using assms by (intro unat_add_no_wrap) (auto simp: kmem_inv_def)

lemma kmem_ptr_nonnull:
  assumes "kmem_inv s"
  shows "heap_addr s + heap_used s \<noteq> NULL"
proof
  assume "heap_addr s + heap_used s = NULL"
  then have "unat (heap_addr s) + unat (heap_used s) = 0"
    using kmem_ptr_unat [OF assms] by simp
  then show False using assms by (simp add: kmem_inv_def)
qed

lemma kmalloc_inv:
  assumes "kmem_inv s" "request_ok n"
  shows "kmem_inv (snd (kmalloc n s))"
  using assms
proof (cases rule: kmalloc_cases)
  case (alloc u)
  have "unat (heap_used s) + unat n \<le> 1048576" using alloc(1) by simp
  then have "unat u \<le> 1048576" unfolding alloc(3) by presburger
  then show ?thesis using assms(1) alloc by (simp add: kmem_inv_def)
qed (use assms in simp)

lemma kmalloc_aligned:
  assumes i: "kmem_inv s" and n: "4 dvd unat n" "unat n < 2 ^ 63"
  shows "kmalloc n s =
    (if unat (heap_used s) + unat n > 1048576 then (NULL, s)
     else (heap_addr s + heap_used s, s\<lparr>heap_used := heap_used s + n\<rparr>))"
proof -
  have "request_ok n" using n(2) by (simp add: request_ok_def)
  with i show ?thesis
  proof (cases rule: kmalloc_cases)
    case (alloc u)
    have "4 dvd unat (heap_used s) + unat n" using i n by (auto simp: kmem_inv_def)
    then have "unat u = unat (heap_used s) + unat n" unfolding alloc(3) by presburger
    also have "\<dots> = unat (heap_used s + n)"
      using alloc(1) by (intro unat_add_no_wrap [symmetric]) simp
    finally have "u = heap_used s + n" by (simp only: word_unat_eq_iff)
    then show ?thesis using alloc by simp
  qed simp
qed

lemma kmalloc_null_iff:
  assumes "kmem_inv s" "request_ok n"
  shows "fst (kmalloc n s) = NULL \<longleftrightarrow> unat (heap_used s) + unat n > 1048576"
  using assms by (cases rule: kmalloc_cases) (use kmem_ptr_nonnull [OF assms(1)] in auto)

interpretation bump: allocator kmalloc kmem_inv kmem_owned
proof
  fix m m' :: "'a kmem_scheme" and n p
  assume i: "kmem_inv m" and ok: "request_ok n" and k: "kmalloc n m = (p, m')"
  show "kmem_inv m'" using kmalloc_inv [OF i ok] k by simp
next
  fix m m' :: "'a kmem_scheme" and n
  assume i: "kmem_inv m" and ok: "request_ok n" and k: "kmalloc n m = (NULL, m')"
  show "m' = m"
    using i ok by (cases rule: kmalloc_cases) (use k kmem_ptr_nonnull [OF i] in auto)
next
  fix m m' :: "'a kmem_scheme" and n p
  assume i: "kmem_inv m" and ok: "request_ok n" and k: "kmalloc n m = (p, m')" and p: "p \<noteq> NULL"
  show "region p n \<inter> kmem_owned m = {}"
    using i ok
    by (cases rule: kmalloc_cases)
       (use k p kmem_ptr_unat [OF i] in \<open>auto simp: region_def kmem_owned_def\<close>)
  show "kmem_owned m \<union> region p n \<subseteq> kmem_owned m'"
    using i ok
  proof (cases rule: kmalloc_cases)
    case (alloc u)
    have "unat (heap_used m) + unat n \<le> unat u" unfolding alloc(3) by presburger
    then show ?thesis
      using k alloc kmem_ptr_unat [OF i] by (auto simp: region_def kmem_owned_def)
  qed (use k p in simp)
qed

section \<open>Properties of the allocator\<close>

text \<open>\<open>kmalloc\<close> either fails and changes nothing, exactly when the request does not fit in
  what is left of the array, or returns a non-null pointer on a 4-byte boundary of the array to a
  region that lies inside the array and above everything handed out before, and keeps the
  allocator's invariant.\<close>

theorem kmalloc_correct:
  assumes "kmem_inv s" "request_ok n" "kmalloc n s = (p, s')"
  shows "if unat (heap_used s) + unat n > unat HEAP_SIZE then p = NULL \<and> s' = s
    else p \<noteq> NULL \<and> kmem_inv s' \<and> 4 dvd (unat p - unat (heap_addr s)) \<and>
      kmem_owned s \<inter> region p n = {} \<and>
      region p n \<subseteq> {unat (heap_addr s) ..< unat (heap_addr s) + unat HEAP_SIZE}"
  using assms(1,2)
proof (cases rule: kmalloc_cases)
  case fail
  then show ?thesis using assms(3) by simp
next
  case (alloc u)
  have p: "p = heap_addr s + heap_used s" using alloc assms(3) by simp
  then have np: "p \<noteq> NULL" and up: "unat p = unat (heap_addr s) + unat (heap_used s)"
    using kmem_ptr_nonnull [OF assms(1)] kmem_ptr_unat [OF assms(1)] by simp_all
  have "kmem_inv s'" using kmalloc_inv [OF assms(1,2)] assms(3) by simp
  moreover have "kmem_owned s \<inter> region p n = {}"
    using bump.alloc_fresh [OF assms(1,2,3) np] by blast
  moreover have "4 dvd (unat p - unat (heap_addr s))"
    using up assms(1) by (simp add: kmem_inv_def)
  ultimately show ?thesis
    using alloc(1) np up by (auto simp: region_def)
qed

definition kmem0 :: kmem where
  "kmem0 = \<lparr>heap_addr = 0x100000, heap_used = 0, free_log = [], mms = Map.empty, vmas = Map.empty\<rparr>"

lemma kmem0_inv [simp]: "kmem_inv kmem0"
  by (simp add: kmem_inv_def kmem0_def)

theorem kmalloc_correct_witness:
  "kmalloc 10 kmem0 = (0x100000, kmem0\<lparr>heap_used := 12\<rparr>) \<and> kmem_inv (kmem0\<lparr>heap_used := 12\<rparr>)"
proof -
  have k: "kmalloc 10 kmem0 = (0x100000, kmem0\<lparr>heap_used := 12\<rparr>)"
    by (simp add: kmalloc_def kmem0_def HEAP_SIZE_def Let_def)
  have r: "request_ok 10" by (simp add: request_ok_def)
  show ?thesis using kmalloc_correct [OF kmem0_inv r k] k by (simp add: kmem0_def)
qed

text \<open>Over any sequence of requests (each below \<open>2^63\<close> bytes), no two regions that
  \<open>kmalloc\<close> hands out overlap.\<close>

theorem kmalloc_seq_disjoint:
  assumes "kmem_inv s" "\<forall>n \<in> set ns. request_ok n" "alloc_seq kmalloc ns s = (bs, s')"
  shows "disjoint_blocks bs"
  using assms by (rule bump.alloc_seq_disjoint)

theorem kmalloc_seq_disjoint_witness:
  "disjoint_blocks [(0x100000, 10), (0x10000C, 100), (0x100070, 4)]"
proof -
  have k: "alloc_seq kmalloc [10, 100, 4] kmem0 =
      ([(0x100000, 10), (0x10000C, 100), (0x100070, 4)], kmem0\<lparr>heap_used := 116\<rparr>)"
    by (simp add: kmalloc_def kmem0_def HEAP_SIZE_def Let_def)
  show ?thesis by (rule kmalloc_seq_disjoint [OF kmem0_inv _ k]) (simp add: request_ok_def)
qed

text \<open>The bound check of \<open>kmalloc\<close> wraps around: a request of \<open>2^64 - heap_used\<close> bytes is
  granted although nothing of that size exists, and it resets the cursor, so that the next
  request is given memory that is already in use.\<close>

theorem kmalloc_wraps:
  assumes "kmem_inv s" "heap_used s \<noteq> 0" "n \<le> HEAP_SIZE"
  shows "kmalloc (- heap_used s) s = (heap_addr s + heap_used s, s\<lparr>heap_used := 0\<rparr>) \<and>
    fst (kmalloc n (s\<lparr>heap_used := 0\<rparr>)) = heap_addr s"
  using assms by (auto simp: kmalloc_def Let_def)

theorem kmalloc_wraps_witness:
  "kmalloc (- 8) (kmem0\<lparr>heap_used := 8\<rparr>) = (0x100008, kmem0)"
proof -
  have "kmem_inv (kmem0\<lparr>heap_used := 8\<rparr>)" by (simp add: kmem_inv_def kmem0_def)
  then show ?thesis
    using kmalloc_wraps [of "kmem0\<lparr>heap_used := 8\<rparr>" 1] by (simp add: kmem0_def HEAP_SIZE_def)
qed

section \<open>Memory descriptors\<close>

text \<open>The list of areas that hangs off \<open>mm->mmap\<close>, as a predicate on the store.\<close>

fun vma_chain :: "(ptr \<Rightarrow> vm_area_struct option) \<Rightarrow> ptr \<Rightarrow> ptr list \<Rightarrow> bool" where
  "vma_chain h p [] = (p = NULL)"
| "vma_chain h p (a # as) =
     (p = a \<and> a \<noteq> NULL \<and>
      (case h a of None \<Rightarrow> False | Some v \<Rightarrow> vma_chain h (vm_next v) as))"

lemma mm_destroy_loop_chain:
  assumes "vma_chain (vmas s) p as"
  shows "mm_destroy_loop p s = Some (Ret () (s\<lparr>free_log := free_log s @ as\<rparr>))"
  using assms
proof (induction as arbitrary: p s)
  case Nil
  then show ?case by (simp add: mm_destroy_loop.simps)
next
  case (Cons a as)
  then obtain v where v: "vmas s p = Some v" "vma_chain (vmas s) (vm_next v) as" "p = a" "p \<noteq> NULL"
    by (auto split: option.splits)
  have "mm_destroy_loop p s = mm_destroy_loop (vm_next v) (kfree p s)"
    using v by (subst mm_destroy_loop.simps) simp
  then show ?case
    using Cons.IH [of "kfree p s" "vm_next v"] v by (simp add: kfree_def)
qed

text \<open>\<open>mm_destroy\<close> of a descriptor whose area list is well linked ends, hands every area of
  the list to \<open>kfree\<close> exactly once and in list order, then the descriptor itself, and touches
  nothing else.\<close>

theorem mm_destroy_frees:
  assumes "mm \<noteq> NULL" "mms s mm = Some m" "vma_chain (vmas s) (mm_mmap m) as"
  shows "mm_destroy mm s = Ret () (s\<lparr>free_log := free_log s @ as @ [mm]\<rparr>)"
  using assms mm_destroy_loop_chain [OF assms(3)] by (simp add: mm_destroy_def kfree_def)

definition kmem_mm :: kmem where
  "kmem_mm = kmem0\<lparr>mms := [16 \<mapsto> zero_mm\<lparr>mm_mmap := 64\<rparr>],
     vmas := [64 \<mapsto> \<lparr>vm_start = 0, vm_end = 4096, vm_flags = 1, vm_next = 96\<rparr>,
              96 \<mapsto> \<lparr>vm_start = 4096, vm_end = 8192, vm_flags = 3, vm_next = NULL\<rparr>]\<rparr>"

theorem mm_destroy_frees_witness:
  "mm_destroy 16 kmem_mm = Ret () (kmem_mm\<lparr>free_log := [64, 96, 16]\<rparr>)"
  using mm_destroy_frees [of 16 kmem_mm "zero_mm\<lparr>mm_mmap := 64\<rparr>" "[64, 96]"]
  by (simp add: kmem_mm_def kmem0_def)

text \<open>\<open>mm_create\<close> on a heap with room returns a zeroed descriptor (no areas), and destroying
  it again hands back exactly that pointer.\<close>

theorem mm_create_destroy:
  assumes "kmem_inv s" "unat (heap_used s) + unat sizeof_mm_struct \<le> unat HEAP_SIZE"
    and "mm_create s = (mm, s')"
  shows "mm \<noteq> NULL \<and> mms s' mm = Some zero_mm \<and> kmem_inv s' \<and>
    mm_destroy mm s' = Ret () (s'\<lparr>free_log := free_log s' @ [mm]\<rparr>)"
proof -
  have ok: "request_ok sizeof_mm_struct" by (simp add: request_ok_def sizeof_mm_struct_def)
  obtain p s1 where k: "kmalloc sizeof_mm_struct s = (p, s1)" by fastforce
  have i: "kmem_inv s1" using kmalloc_inv [OF assms(1) ok] k by simp
  have p: "p \<noteq> NULL"
    using assms(1) ok
    by (cases rule: kmalloc_cases) (use assms(2) k kmem_ptr_nonnull [OF assms(1)] in auto)
  have s': "mm = p" "s' = s1\<lparr>mms := (mms s1)(p \<mapsto> zero_mm)\<rparr>"
    using assms(3) k p by (auto simp: mm_create_def)
  have d: "mm_destroy_loop NULL s' = Some (Ret () s')" by (simp add: mm_destroy_loop.simps)
  then show ?thesis
    using p i s' by (simp add: mm_destroy_def kfree_def zero_mm_def kmem_inv_def)
qed

theorem mm_create_destroy_witness:
  "mm_destroy 0x100000 (kmem0\<lparr>heap_used := 40, mms := [0x100000 \<mapsto> zero_mm]\<rparr>) =
     Ret () (kmem0\<lparr>heap_used := 40, mms := [0x100000 \<mapsto> zero_mm], free_log := [0x100000]\<rparr>)"
proof -
  have c: "mm_create kmem0 = (0x100000, kmem0\<lparr>heap_used := 40, mms := [0x100000 \<mapsto> zero_mm]\<rparr>)"
    by (simp add: mm_create_def kmalloc_def kmem0_def HEAP_SIZE_def sizeof_mm_struct_def Let_def)
  show ?thesis
    using mm_create_destroy [OF kmem0_inv _ c]
    by (simp add: kmem0_def sizeof_mm_struct_def)
qed

end
