(* ===== verification/Process_MM.thy ===== *)
theory Process_MM
  imports Kmem
begin

text \<open>
  \<open>kernel/mm/process_mm.c\<close>, the memory module's own copy of the bump allocator and of the
  memory descriptors, with a silent \<open>kfree\<close>. It is shown to compute what
  \<open>kernel/process/memory.c\<close> computes, once the printed trace of frees is forgotten.
\<close>

section \<open>State and operations\<close>

record pmem =
  pm_heap_addr :: ptr
  pm_heap_used :: u64
  pm_mms :: "ptr \<Rightarrow> mm_struct option"
  pm_vmas :: "ptr \<Rightarrow> vm_area_struct option"

definition PM_HEAP_SIZE :: u64 where
  "PM_HEAP_SIZE = 1024 * 1024"

definition pmm_kmalloc :: "u64 \<Rightarrow> pmem \<Rightarrow> ptr \<times> pmem" where
  "pmm_kmalloc sz s =
     (if pm_heap_used s + sz > PM_HEAP_SIZE then (NULL, s)
      else let p = pm_heap_addr s + pm_heap_used s;
               s = s\<lparr>pm_heap_used := pm_heap_used s + sz\<rparr>;
               s = s\<lparr>pm_heap_used := (pm_heap_used s + 3) AND NOT 3\<rparr>
           in (p, s))"

definition pmm_kfree :: "ptr \<Rightarrow> pmem \<Rightarrow> pmem" where
  "pmm_kfree p s = s"

definition pmm_mm_create :: "pmem \<Rightarrow> ptr \<times> pmem" where
  "pmm_mm_create s =
     (case pmm_kmalloc sizeof_mm_struct s of (mm, s) \<Rightarrow>
      if mm = NULL then (NULL, s)
      else (mm, s\<lparr>pm_mms := (pm_mms s)(mm \<mapsto> zero_mm)\<rparr>))"

partial_function (option) pmm_mm_destroy_loop :: "ptr \<Rightarrow> pmem \<Rightarrow> (unit, pmem) exec option" where
  "pmm_mm_destroy_loop vma s =
     (if vma = NULL then Some (Ret () s)
      else case pm_vmas s vma of
        None \<Rightarrow> Some (Crash BadPtr)
      | Some v \<Rightarrow> pmm_mm_destroy_loop (vm_next v) (pmm_kfree vma s))"

definition pmm_mm_destroy :: "ptr \<Rightarrow> pmem \<Rightarrow> (unit, pmem) exec" where
  "pmm_mm_destroy mm s =
     (if mm = NULL then Ret () s
      else case pm_mms s mm of
        None \<Rightarrow> Crash BadPtr
      | Some m \<Rightarrow>
          (case pmm_mm_destroy_loop (mm_mmap m) s of
             None \<Rightarrow> Spin s
           | Some r \<Rightarrow> and_then r (\<lambda>_ s. Ret () (pmm_kfree mm s))))"

definition pmm_allocate_kernel_stack :: "u64 \<Rightarrow> pmem \<Rightarrow> ptr \<times> pmem" where
  "pmm_allocate_kernel_stack sz s = pmm_kmalloc sz s"

definition pmm_free_kernel_stack :: "ptr \<Rightarrow> pmem \<Rightarrow> pmem" where
  "pmm_free_kernel_stack stack s = pmm_kfree stack s"

section \<open>Equivalence with \<open>kernel/process/memory.c\<close>\<close>

definition pmem_of :: "kmem \<Rightarrow> pmem" where
  "pmem_of s = \<lparr>pm_heap_addr = heap_addr s, pm_heap_used = heap_used s,
     pm_mms = mms s, pm_vmas = vmas s\<rparr>"

lemma pmem_of_sel [simp]:
  "pm_heap_addr (pmem_of s) = heap_addr s" "pm_heap_used (pmem_of s) = heap_used s"
  "pm_mms (pmem_of s) = mms s" "pm_vmas (pmem_of s) = vmas s"
  "pmem_of (kfree p s) = pmem_of s"
  by (simp_all add: pmem_of_def kfree_def)

lemma pmm_kmalloc_sim: "pmm_kmalloc n (pmem_of s) = apsnd pmem_of (kmalloc n s)"
  by (simp add: pmm_kmalloc_def kmalloc_def PM_HEAP_SIZE_def HEAP_SIZE_def Let_def pmem_of_def)

lemma pmm_mm_create_sim: "pmm_mm_create (pmem_of s) = apsnd pmem_of (mm_create s)"
  unfolding pmm_mm_create_def mm_create_def pmm_kmalloc_sim
  by (auto simp: pmem_of_def split: prod.splits)

lemma pmm_loop_forward:
  assumes "mm_destroy_loop p s = Some r"
  shows "pmm_mm_destroy_loop p (pmem_of s) = Some (map_exec id pmem_of r)"
proof (rule mm_destroy_loop.raw_induct
    [where P = "\<lambda>p s r. pmm_mm_destroy_loop p (pmem_of s) = Some (map_exec id pmem_of r)", OF _ assms])
  fix f vma s r
  assume "\<And>p s r. f p s = Some r \<Longrightarrow>
      pmm_mm_destroy_loop p (pmem_of s) = Some (map_exec id pmem_of r)"
    and "(if vma = NULL then Some (Ret () s)
      else case vmas s vma of None \<Rightarrow> Some (Crash BadPtr)
        | Some v \<Rightarrow> f (vm_next v) (kfree vma s)) = Some r"
  then show "pmm_mm_destroy_loop vma (pmem_of s) = Some (map_exec id pmem_of r)"
    by (subst pmm_mm_destroy_loop.simps)
       (fastforce simp: pmm_kfree_def split: if_splits option.splits)
qed

lemma pmm_loop_backward:
  assumes "pmm_mm_destroy_loop p t = Some r" "t = pmem_of s"
  shows "\<exists>r'. mm_destroy_loop p s = Some r'"
proof -
  have "\<forall>s. t = pmem_of s \<longrightarrow> (\<exists>r'. mm_destroy_loop p s = Some r')"
  proof (rule pmm_mm_destroy_loop.raw_induct
      [where P = "\<lambda>p t r. \<forall>s. t = pmem_of s \<longrightarrow> (\<exists>r'. mm_destroy_loop p s = Some r')",
        OF _ assms(1)], intro allI impI)
    fix f vma t r s
    assume IH: "\<And>p t r. f p t = Some r \<Longrightarrow> \<forall>s. t = pmem_of s \<longrightarrow> (\<exists>r'. mm_destroy_loop p s = Some r')"
      and eq: "(if vma = NULL then Some (Ret () t)
        else case pm_vmas t vma of None \<Rightarrow> Some (Crash BadPtr)
          | Some v \<Rightarrow> f (vm_next v) (pmm_kfree vma t)) = Some r"
      and t: "t = pmem_of s"
    show "\<exists>r'. mm_destroy_loop vma s = Some r'"
    proof (cases "vma = NULL \<or> vmas s vma = None")
      case True
      then show ?thesis by (subst mm_destroy_loop.simps) auto
    next
      case False
      then obtain v where v: "vmas s vma = Some v" "vma \<noteq> NULL" by auto
      then have "f (vm_next v) t = Some r" using eq t by (simp add: pmm_kfree_def)
      then have "\<exists>r'. mm_destroy_loop (vm_next v) (kfree vma s) = Some r'"
        using IH t by fastforce
      with v show ?thesis by (subst mm_destroy_loop.simps) simp
    qed
  qed
  then show ?thesis using assms(2) by blast
qed

lemma pmm_loop_sim:
  "pmm_mm_destroy_loop p (pmem_of s) = map_option (map_exec id pmem_of) (mm_destroy_loop p s)"
proof (cases "mm_destroy_loop p s")
  case None
  then show ?thesis using pmm_loop_backward [OF _ refl, of p s] by (cases "pmm_mm_destroy_loop p (pmem_of s)") auto
next
  case (Some r)
  then show ?thesis using pmm_loop_forward by simp
qed

text \<open>The two bump allocators agree: on the same array and descriptors, \<open>kmalloc\<close>,
  \<open>mm_create\<close> and \<open>mm_destroy\<close> of \<open>kernel/mm/process_mm.c\<close> return what those of
  \<open>kernel/process/memory.c\<close> return (a fault and an endless loop on a cyclic area list
  included) and leave the same memory.\<close>

theorem process_mm_agrees:
  "pmm_kmalloc n (pmem_of s) = apsnd pmem_of (kmalloc n s) \<and>
   pmm_mm_create (pmem_of s) = apsnd pmem_of (mm_create s) \<and>
   pmm_mm_destroy mm (pmem_of s) = map_exec id pmem_of (mm_destroy mm s)"
proof (intro conjI)
  show "pmm_mm_destroy mm (pmem_of s) = map_exec id pmem_of (mm_destroy mm s)"
    by (auto simp: pmm_mm_destroy_def mm_destroy_def pmm_loop_sim pmm_kfree_def
        intro!: map_exec_and_then split: option.splits)
qed (rule pmm_kmalloc_sim pmm_mm_create_sim)+

section \<open>The allocator interface\<close>

definition kmem_of :: "pmem \<Rightarrow> kmem" where
  "kmem_of t = \<lparr>heap_addr = pm_heap_addr t, heap_used = pm_heap_used t, free_log = [],
     mms = pm_mms t, vmas = pm_vmas t\<rparr>"

lemma pmem_of_kmem_of [simp]: "pmem_of (kmem_of t) = t"
  by (simp add: pmem_of_def kmem_of_def)

lemma pmm_kmalloc_via_kmem:
  assumes "pmm_kmalloc n t = (p, t')"
  shows "kmalloc n (kmem_of t) = (p, kmem_of t')"
proof -
  obtain q s' where k: "kmalloc n (kmem_of t) = (q, s')" by fastforce
  then have "pmm_kmalloc n t = (q, pmem_of s')"
    using pmm_kmalloc_sim [of n "kmem_of t"] by simp
  moreover have "free_log s' = []"
    using k by (auto simp: kmalloc_def kmem_of_def Let_def split: if_splits)
  then have "kmem_of (pmem_of s') = s'" by (simp add: kmem_of_def)
  ultimately show ?thesis using k assms by simp
qed

interpretation pmm: allocator pmm_kmalloc "\<lambda>t. kmem_inv (kmem_of t)" "\<lambda>t. kmem_owned (kmem_of t)"
proof
  fix m m' n p
  assume "kmem_inv (kmem_of m)" "request_ok n" "pmm_kmalloc n m = (p, m')"
  then show "kmem_inv (kmem_of m')"
    using bump.alloc_inv pmm_kmalloc_via_kmem by blast
next
  fix m m' n
  assume "kmem_inv (kmem_of m)" "request_ok n" "pmm_kmalloc n m = (NULL, m')"
  then have "kmem_of m' = kmem_of m"
    using bump.alloc_fail pmm_kmalloc_via_kmem by blast
  then show "m' = m" by (metis pmem_of_kmem_of)
next
  fix m m' n p
  assume a: "kmem_inv (kmem_of m)" "request_ok n" "pmm_kmalloc n m = (p, m')" "p \<noteq> NULL"
  show "region p n \<inter> kmem_owned (kmem_of m) = {}"
    using a bump.alloc_fresh pmm_kmalloc_via_kmem by blast
  show "kmem_owned (kmem_of m) \<union> region p n \<subseteq> kmem_owned (kmem_of m')"
    using a bump.alloc_owned pmm_kmalloc_via_kmem by blast
qed

end
