(* ===== verification/Context.thy ===== *)
theory Context
  imports Kernel_Prelude "HOL-Library.Monad_Syntax"
begin

text \<open>
  CPU contexts, \<open>include/context.h\<close> and \<open>kernel/process/context.c\<close>: the saved register set
  of a process, its initialisation, and the inline assembly that saves and restores it, one
  instruction at a time. The register the compiler picks for the operand of an assembly statement,
  and the place where it keeps a C variable between two statements, are parameters. Memory is
  addressed by bytes; an access to an address that is not mapped faults.
\<close>

section \<open>Data\<close>

datatype gpr = RAX | RBX | RCX | RDX | RSI | RDI | RBP | RSP
  | R8 | R9 | R10 | R11 | R12 | R13 | R14 | R15

text \<open>The sixteen general registers of \<open>struct context\<close> are its first sixteen fields; they are
  kept as one function, with the byte offset of each field.\<close>

record context_t =
  c_gpr :: "gpr \<Rightarrow> u64"
  c_cs :: u16
  c_ds :: u16
  c_es :: u16
  c_fs :: u16
  c_gs :: u16
  c_ss :: u16
  c_rip :: u64
  c_rflags :: u64

fun gpr_offset :: "gpr \<Rightarrow> u64" where
  "gpr_offset RAX = 0"
| "gpr_offset RBX = 8"
| "gpr_offset RCX = 16"
| "gpr_offset RDX = 24"
| "gpr_offset RSI = 32"
| "gpr_offset RDI = 40"
| "gpr_offset RBP = 48"
| "gpr_offset RSP = 56"
| "gpr_offset R8 = 64"
| "gpr_offset R9 = 72"
| "gpr_offset R10 = 80"
| "gpr_offset R11 = 88"
| "gpr_offset R12 = 96"
| "gpr_offset R13 = 104"
| "gpr_offset R14 = 112"
| "gpr_offset R15 = 120"

definition all_gprs :: "gpr list" where
  "all_gprs = [RAX, RBX, RCX, RDX, RSI, RDI, RBP, RSP, R8, R9, R10, R11, R12, R13, R14, R15]"

text \<open>The processor: registers, segment registers, program counter, flags, and the bytes of the
  memory.\<close>

record cpu =
  regs :: "gpr \<Rightarrow> u64"
  seg_cs :: u16
  seg_ds :: u16
  seg_es :: u16
  seg_fs :: u16
  seg_gs :: u16
  seg_ss :: u16
  rip :: u64
  rflags :: u64
  mem :: "u64 \<Rightarrow> u8"

text \<open>Where the code keeps a variable of \<open>context_restore\<close>: in a register, or in memory at an offset
  from a base register (the frame pointer when the code is not optimised). Then the choices for the
  whole function: the places of the argument \<open>context\<close> and of the variables \<open>ctx_ptr\<close> and
  \<open>stack_ptr\<close>, and the operand registers of the five statements that follow.\<close>

datatype place = In_reg gpr | In_frame gpr u64

record restore_ops =
  context_at :: place
  ctx_ptr_at :: place
  stack_ptr_at :: place
  op_load :: gpr
  op_rbp :: gpr
  op_rsp :: gpr
  op_flags :: gpr
  op_jmp :: gpr

section \<open>Memory\<close>

text \<open>Little-endian 64-bit words.\<close>

definition byte_of :: "u64 \<Rightarrow> nat \<Rightarrow> u8" where
  "byte_of v i = ucast (drop_bit (8 * i) v)"

definition ld64 :: "(u64 \<Rightarrow> u8) \<Rightarrow> u64 \<Rightarrow> u64" where
  "ld64 m a = word_rcat (map (\<lambda>i. m (a + of_nat i)) (rev [0..<8]))"

definition st64 :: "(u64 \<Rightarrow> u8) \<Rightarrow> u64 \<Rightarrow> u64 \<Rightarrow> (u64 \<Rightarrow> u8)" where
  "st64 m a v = (\<lambda>x. if x - a < 8 then byte_of v (unat (x - a)) else m x)"

lemma byte_of_bit: "bit (byte_of v i) n \<longleftrightarrow> n < 8 \<and> bit v (8 * i + n)"
  by (auto simp: byte_of_def bit_ucast_iff bit_drop_bit_eq add.commute)

lemma bit_ld64: "bit (ld64 m a) n \<longleftrightarrow> n < 64 \<and> bit (m (a + of_nat (n div 8))) (n mod 8)"
proof (cases "n < 64")
  case True
  then have d: "n div 8 < 8" by simp
  show ?thesis
    using True d
    using bit_horner_sum_uint_exp_iff [of "map (\<lambda>i. m (a + of_nat i)) [0..<8]" n]
    by (simp add: ld64_def word_rcat_def rev_map bit_word_of_int_iff del: upt.simps)
next
  case False
  then show ?thesis by (auto dest: bit_imp_le_length)
qed

lemma ld64_cong: "(\<And>i. i < 8 \<Longrightarrow> m (a + of_nat i) = m' (a' + of_nat i)) \<Longrightarrow> ld64 m a = ld64 m' a'"
  unfolding ld64_def by (rule arg_cong [where f = word_rcat]) (auto intro: map_cong)

lemma of_nat_less_8: "i < 8 \<Longrightarrow> (of_nat i :: u64) < 8"
  by (simp add: word_less_nat_alt unat_of_nat)

lemma less_8_of_nat: "(x :: u64) < 8 \<Longrightarrow> \<exists>i < 8. x = of_nat i"
  by (intro exI [of _ "unat x"]) (simp add: word_less_nat_alt)

lemma ld64_bytes:
  assumes "\<And>i. i < 8 \<Longrightarrow> m (a + of_nat i) = byte_of v i"
  shows "ld64 m a = v"
proof (rule bit_word_eqI)
  fix n assume n: "n < LENGTH(64)"
  then have "n div 8 < 8" by simp
  then show "bit (ld64 m a) n = bit v n"
    using n assms by (simp add: bit_ld64 byte_of_bit)
qed

lemma ld64_st64 [simp]: "ld64 (st64 m a v) a = v"
proof (rule ld64_bytes)
  fix i :: nat assume "i < 8"
  then show "st64 m a v (a + of_nat i) = byte_of v i"
    by (simp add: st64_def of_nat_less_8 unat_of_nat)
qed

text \<open>Two words do not overlap.\<close>

definition sep :: "u64 \<Rightarrow> u64 \<Rightarrow> bool" where
  "sep a b \<longleftrightarrow> 8 \<le> b - a \<and> 8 \<le> a - b"

lemma sep_sym: "sep a b \<longleftrightarrow> sep b a"
  by (auto simp: sep_def)

lemma sep_byte:
  assumes "sep a b" "i < 8"
  shows "\<not> b + of_nat i - a < 8"
proof
  assume "b + of_nat i - a < 8"
  then obtain j where j: "j < 8" "b + of_nat i - a = of_nat j" using less_8_of_nat by blast
  show False
  proof (cases "i \<le> j")
    case True
    have "b - a = of_nat (j - i)" using j(2) True by (simp add: of_nat_diff algebra_simps)
    then have "b - a < 8" using j(1) of_nat_less_8 [of "j - i"] by simp
    then show False using assms(1) unfolding sep_def by (meson leD)
  next
    case False
    then have "a - b = of_nat (i - j)" using j(2) by (simp add: of_nat_diff algebra_simps)
    then have "a - b < 8" using assms(2) of_nat_less_8 [of "i - j"] by simp
    then show False using assms(1) unfolding sep_def by (meson leD)
  qed
qed

lemma ld64_st64_other [simp]: "sep a b \<Longrightarrow> ld64 (st64 m a v) b = ld64 m b"
  by (rule ld64_cong) (simp add: st64_def sep_byte)

section \<open>Operations\<close>

definition zero_context :: context_t where
  "zero_context = \<lparr>c_gpr = (\<lambda>_. 0), c_cs = 0, c_ds = 0, c_es = 0, c_fs = 0, c_gs = 0, c_ss = 0,
     c_rip = 0, c_rflags = 0\<rparr>"

definition context_init :: "ptr \<Rightarrow> ptr \<Rightarrow> ptr \<Rightarrow> context_t" where
  "context_init entry arg stack_top =
     (let c = zero_context;
          c = c\<lparr>c_rip := entry\<rparr>;
          c = c\<lparr>c_gpr := (c_gpr c)(RSP := stack_top)\<rparr>;
          c = c\<lparr>c_gpr := (c_gpr c)(RDI := arg)\<rparr>;
          c = c\<lparr>c_cs := 0x08, c_ds := 0x10, c_es := 0x10, c_fs := 0x10, c_gs := 0x10,
                c_ss := 0x10\<rparr>
      in c\<lparr>c_rflags := 0x202\<rparr>)"

text \<open>The flags as the processor takes them from the stack (\<open>popfq\<close> in 64-bit mode at privilege
  level 0: the status, control and system flags it can change, \<open>RF\<close>, \<open>VIF\<close> and \<open>VIP\<close> cleared, bit 1
  always set), and as \<open>pushfq\<close> puts them there (\<open>VM\<close> and \<open>RF\<close> cleared).\<close>

definition popfq_flags :: "u64 \<Rightarrow> u64" where
  "popfq_flags v = (v AND 0x247FD5) OR 2"

definition pushfq_flags :: "u64 \<Rightarrow> u64" where
  "pushfq_flags f = f AND 0xFCFFFF"

text \<open>\<open>context_save\<close>, on the context \<open>c\<close> at address \<open>b\<close>. The stores go through the operand register
  \<open>op\<close>, so this register is saved with the address of the context. \<open>pushfq\<close> uses the word below the
  stack pointer.\<close>

definition context_save :: "gpr \<Rightarrow> ptr \<Rightarrow> cpu \<Rightarrow> context_t \<Rightarrow> cpu \<times> context_t" where
  "context_save op b cpu c =
     (let cpu = cpu\<lparr>regs := (regs cpu)(op := b)\<rparr>;
          c = c\<lparr>c_gpr := fold (\<lambda>r g. g(r := regs cpu r)) all_gprs (c_gpr c)\<rparr>;
          c = c\<lparr>c_cs := seg_cs cpu, c_ds := seg_ds cpu, c_es := seg_es cpu,
                c_fs := seg_fs cpu, c_gs := seg_gs cpu, c_ss := seg_ss cpu\<rparr>;
          slot = regs cpu RSP - 8;
          cpu = cpu\<lparr>mem := st64 (mem cpu) slot (pushfq_flags (rflags cpu))\<rparr>;
          c = c\<lparr>c_rflags := ld64 (mem cpu) slot\<rparr>
      in (cpu, c))"

text \<open>The bytes of a context in memory: sixteen registers, six segment registers and padding, \<open>rip\<close>,
  \<open>rflags\<close>.\<close>

definition ctx_byte :: "context_t \<Rightarrow> nat \<Rightarrow> u8" where
  "ctx_byte c k =
     (if k < 128 then byte_of (c_gpr c (all_gprs ! (k div 8))) (k mod 8)
      else if k < 144 then
        ucast (drop_bit (8 * (k mod 2)) ([c_cs c, c_ds c, c_es c, c_fs c, c_gs c, c_ss c, 0, 0] ! ((k - 128) div 2)))
      else if k < 152 then byte_of (c_rip c) (k - 144)
      else byte_of (c_rflags c) (k - 152))"

definition with_context :: "ptr \<Rightarrow> context_t \<Rightarrow> (u64 \<Rightarrow> u8) \<Rightarrow> (u64 \<Rightarrow> u8)" where
  "with_context b c m = (\<lambda>x. if x - b < 160 then ctx_byte c (unat (x - b)) else m x)"

text \<open>Checked accesses (\<open>mapped a\<close>: an access at address \<open>a\<close> does not fault), and variables in their
  places.\<close>

definition load64 :: "(u64 \<Rightarrow> bool) \<Rightarrow> u64 \<Rightarrow> cpu \<Rightarrow> u64 option" where
  "load64 mapped a cpu = (if mapped a then Some (ld64 (mem cpu) a) else None)"

definition load16 :: "(u64 \<Rightarrow> bool) \<Rightarrow> u64 \<Rightarrow> cpu \<Rightarrow> u16 option" where
  "load16 mapped a cpu =
     (if mapped a then Some (ucast (mem cpu a) OR push_bit 8 (ucast (mem cpu (a + 1)))) else None)"

definition store64 :: "(u64 \<Rightarrow> bool) \<Rightarrow> u64 \<Rightarrow> u64 \<Rightarrow> cpu \<Rightarrow> cpu option" where
  "store64 mapped a v cpu = (if mapped a then Some (cpu\<lparr>mem := st64 (mem cpu) a v\<rparr>) else None)"

definition set_reg :: "gpr \<Rightarrow> u64 \<Rightarrow> cpu \<Rightarrow> cpu" where
  "set_reg r v cpu = cpu\<lparr>regs := (regs cpu)(r := v)\<rparr>"

fun fetch :: "(u64 \<Rightarrow> bool) \<Rightarrow> place \<Rightarrow> cpu \<Rightarrow> u64 option" where
  "fetch mapped (In_reg r) cpu = Some (regs cpu r)"
| "fetch mapped (In_frame base k) cpu = load64 mapped (regs cpu base + k) cpu"

fun assign :: "(u64 \<Rightarrow> bool) \<Rightarrow> place \<Rightarrow> u64 \<Rightarrow> cpu \<Rightarrow> cpu option" where
  "assign mapped (In_reg r) v cpu = Some (set_reg r v cpu)"
| "assign mapped (In_frame base k) v cpu = store64 mapped (regs cpu base + k) v cpu"

text \<open>The block of loads \<open>movq off(%0), %reg\<close>: each reads through whatever the operand
  register holds at that moment.\<close>

fun load_gprs :: "(u64 \<Rightarrow> bool) \<Rightarrow> gpr \<Rightarrow> gpr list \<Rightarrow> cpu \<Rightarrow> cpu option" where
  "load_gprs mapped op [] cpu = Some cpu"
| "load_gprs mapped op (d # ds) cpu =
     (case load64 mapped (regs cpu op + gpr_offset d) cpu of
        None \<Rightarrow> None
      | Some v \<Rightarrow> load_gprs mapped op ds (set_reg d v cpu))"

definition restored_gprs :: "gpr list" where
  "restored_gprs = [RAX, RBX, RCX, RDX, RSI, RDI, R8, R9, R10, R11, R12, R13, R14, R15]"

text \<open>\<open>context_restore\<close>, with the context \<open>c\<close> at address \<open>b\<close>, statement by statement. Before each
  statement the code fetches the operand from the place of its variable; the assembly does not
  declare the registers it overwrites, so the code fetches from there whatever they hold by then.
  \<open>None\<close> is a page fault.\<close>

definition restore_segments :: "(u64 \<Rightarrow> bool) \<Rightarrow> restore_ops \<Rightarrow> cpu \<Rightarrow> cpu option" where
  "restore_segments mapped ro cpu =
     do { context \<leftarrow> fetch mapped (context_at ro) cpu;
          ds \<leftarrow> load16 mapped (context + 0x82) cpu;
          Some (cpu\<lparr>seg_ds := ds, seg_es := ds, seg_fs := ds, seg_gs := ds\<rparr>) }"

definition restore_locals :: "(u64 \<Rightarrow> bool) \<Rightarrow> restore_ops \<Rightarrow> cpu \<Rightarrow> cpu option" where
  "restore_locals mapped ro cpu =
     do { context \<leftarrow> fetch mapped (context_at ro) cpu;
          sp \<leftarrow> load64 mapped (context + gpr_offset RSP) cpu;
          cpu \<leftarrow> assign mapped (stack_ptr_at ro) sp cpu;
          context \<leftarrow> fetch mapped (context_at ro) cpu;
          assign mapped (ctx_ptr_at ro) context cpu }"

definition restore_gprs :: "(u64 \<Rightarrow> bool) \<Rightarrow> restore_ops \<Rightarrow> cpu \<Rightarrow> cpu option" where
  "restore_gprs mapped ro cpu =
     do { ctx_ptr \<leftarrow> fetch mapped (ctx_ptr_at ro) cpu;
          load_gprs mapped (op_load ro) restored_gprs (set_reg (op_load ro) ctx_ptr cpu) }"

definition restore_rbp :: "(u64 \<Rightarrow> bool) \<Rightarrow> restore_ops \<Rightarrow> cpu \<Rightarrow> cpu option" where
  "restore_rbp mapped ro cpu =
     do { ctx_ptr \<leftarrow> fetch mapped (ctx_ptr_at ro) cpu;
          let cpu = set_reg (op_rbp ro) ctx_ptr cpu;
          v \<leftarrow> load64 mapped (regs cpu (op_rbp ro) + 48) cpu;
          let cpu = set_reg RAX v cpu;
          Some (set_reg RBP (regs cpu RAX) cpu) }"

definition restore_rsp :: "(u64 \<Rightarrow> bool) \<Rightarrow> restore_ops \<Rightarrow> cpu \<Rightarrow> cpu option" where
  "restore_rsp mapped ro cpu =
     do { stack_ptr \<leftarrow> fetch mapped (stack_ptr_at ro) cpu;
          let cpu = set_reg (op_rsp ro) stack_ptr cpu;
          Some (set_reg RSP (regs cpu (op_rsp ro)) cpu) }"

definition restore_flags :: "(u64 \<Rightarrow> bool) \<Rightarrow> restore_ops \<Rightarrow> cpu \<Rightarrow> cpu option" where
  "restore_flags mapped ro cpu =
     do { context \<leftarrow> fetch mapped (context_at ro) cpu;
          let cpu = set_reg (op_flags ro) context cpu;
          v \<leftarrow> load64 mapped (regs cpu (op_flags ro) + 0x98) cpu;
          cpu \<leftarrow> store64 mapped (regs cpu RSP - 8) v cpu;
          Some (cpu\<lparr>rflags := popfq_flags v\<rparr>) }"

definition restore_jump :: "(u64 \<Rightarrow> bool) \<Rightarrow> restore_ops \<Rightarrow> cpu \<Rightarrow> cpu option" where
  "restore_jump mapped ro cpu =
     do { context \<leftarrow> fetch mapped (context_at ro) cpu;
          v \<leftarrow> load64 mapped (context + 0x90) cpu;
          let cpu = set_reg (op_jmp ro) v cpu;
          Some (cpu\<lparr>rip := regs cpu (op_jmp ro)\<rparr>) }"

definition context_restore ::
  "(u64 \<Rightarrow> bool) \<Rightarrow> restore_ops \<Rightarrow> ptr \<Rightarrow> context_t \<Rightarrow> cpu \<Rightarrow> cpu option" where
  "context_restore mapped ro b c cpu =
     do { cpu \<leftarrow> assign mapped (context_at ro) b (cpu\<lparr>mem := with_context b c (mem cpu)\<rparr>);
          cpu \<leftarrow> restore_segments mapped ro cpu;
          cpu \<leftarrow> restore_locals mapped ro cpu;
          cpu \<leftarrow> restore_gprs mapped ro cpu;
          cpu \<leftarrow> restore_rbp mapped ro cpu;
          cpu \<leftarrow> restore_rsp mapped ro cpu;
          cpu \<leftarrow> restore_flags mapped ro cpu;
          restore_jump mapped ro cpu }"

text \<open>\<open>context_switch\<close> over the store of contexts; a bad pointer faults. Its first half ends at the
  call of \<open>context_restore\<close>, with the context that call is handed.\<close>

type_synonym ctx_store = "ptr \<Rightarrow> context_t option"

definition context_hand_over ::
  "gpr \<Rightarrow> ptr \<Rightarrow> ptr \<Rightarrow> cpu \<Rightarrow> ctx_store \<Rightarrow> fault + (cpu \<times> context_t \<times> ctx_store)" where
  "context_hand_over op from to cpu h =
     (case h from of
        None \<Rightarrow> Inl BadPtr
      | Some cf \<Rightarrow>
          (case context_save op from cpu cf of (cpu, cf) \<Rightarrow>
           let h = h(from \<mapsto> cf) in
           case h to of
             None \<Rightarrow> Inl BadPtr
           | Some ct \<Rightarrow> Inr (cpu, ct, h)))"

definition context_switch ::
  "(u64 \<Rightarrow> bool) \<Rightarrow> gpr \<Rightarrow> restore_ops \<Rightarrow> ptr \<Rightarrow> ptr \<Rightarrow> cpu \<Rightarrow> ctx_store \<Rightarrow> fault + (cpu \<times> ctx_store)" where
  "context_switch mapped op ro from to cpu h =
     (case context_hand_over op from to cpu h of
        Inl f \<Rightarrow> Inl f
      | Inr (cpu, ct, h) \<Rightarrow>
          (case context_restore mapped ro to ct cpu of None \<Rightarrow> Inl BadPtr | Some cpu \<Rightarrow> Inr (cpu, h)))"

section \<open>Contexts in memory\<close>

lemma set_all_gprs [simp]: "r \<in> set all_gprs"
  by (cases r) (simp_all add: all_gprs_def)

lemma gpr_place: "\<exists>k < 16. gpr_offset r = of_nat (8 * k) \<and> all_gprs ! k = r"
proof -
  have "\<forall>k < 16. gpr_offset (all_gprs ! k) = of_nat (8 * k)"
    by (simp add: all_gprs_def numeral_eq_Suc All_less_Suc)
  moreover obtain k where "k < length all_gprs" "all_gprs ! k = r"
    using set_all_gprs [of r] by (auto simp: in_set_conv_nth)
  moreover have "length all_gprs = 16" by (simp add: all_gprs_def)
  ultimately show ?thesis by auto
qed

lemma ld64_with_context [simp]: "ld64 (with_context b c m) (b + gpr_offset r) = c_gpr c r"
proof (rule ld64_bytes)
  fix i :: nat assume i: "i < 8"
  obtain k where k: "k < 16" "gpr_offset r = of_nat (8 * k)" "all_gprs ! k = r" using gpr_place by blast
  have e: "b + gpr_offset r + of_nat i - b = of_nat (8 * k + i)" by (simp add: k(2))
  have u: "unat (of_nat (8 * k + i) :: u64) = 8 * k + i"
    using k(1) i by (simp add: unat_of_nat del: of_nat_add of_nat_mult)
  have "(of_nat (8 * k + i) :: u64) < 160" using k(1) i u by (simp add: word_less_nat_alt)
  then show "with_context b c m (b + gpr_offset r + of_nat i) = byte_of (c_gpr c r) i"
    using k i u unfolding with_context_def e by (simp add: ctx_byte_def del: of_nat_add of_nat_mult)
qed

lemma fold_copy [simp]:
  "fold (\<lambda>r g. g(r := f r)) rs g r = (if r \<in> set rs then f r else g r)"
  by (induction rs arbitrary: g) auto

lemma context_save_ctx:
  "snd (context_save op b cpu c) =
    c\<lparr>c_gpr := (regs cpu)(op := b), c_cs := seg_cs cpu, c_ds := seg_ds cpu,
      c_es := seg_es cpu, c_fs := seg_fs cpu, c_gs := seg_gs cpu, c_ss := seg_ss cpu,
      c_rflags := pushfq_flags (rflags cpu)\<rparr>"
  by (simp add: context_save_def Let_def fun_eq_iff)

text \<open>The context at \<open>b\<close> does not overlap the word at \<open>a\<close>.\<close>

definition outside :: "ptr \<Rightarrow> u64 \<Rightarrow> bool" where
  "outside b a \<longleftrightarrow> 160 \<le> a - b \<and> 8 \<le> b - a"

lemma outside_rbp:
  assumes "outside b a"
  shows "sep a (b + 48)"
proof -
  let ?x = "a - b"
  have "160 \<le> ?x" "8 \<le> - ?x" using assms by (simp_all add: outside_def)
  moreover have "b + 48 - a = - ?x + 48" "a - (b + 48) = ?x - 48" by simp_all
  ultimately show ?thesis unfolding sep_def by (simp only: ) uint_arith
qed

lemma set_reg_sel [simp]:
  "regs (set_reg r v cpu) = (regs cpu)(r := v)" "mem (set_reg r v cpu) = mem cpu"
  "rflags (set_reg r v cpu) = rflags cpu" "rip (set_reg r v cpu) = rip cpu"
  by (simp_all add: set_reg_def)

lemma load_gprs_frame:
  assumes "load_gprs mapped op ds cpu = Some cpu'" "RBP \<notin> set ds"
  shows "mem cpu' = mem cpu" "regs cpu' RBP = regs cpu RBP"
  using assms by (induction ds arbitrary: cpu) (auto split: option.splits)

lemma restored_gprs_iff [simp]: "r \<in> set restored_gprs \<longleftrightarrow> r \<noteq> RBP \<and> r \<noteq> RSP"
  by (cases r) (simp_all add: restored_gprs_def)


section \<open>Code that keeps its variables in the frame\<close>

text \<open>The variables of \<open>context_restore\<close> live at offsets from the frame pointer, as in code compiled
  without optimisation: the argument at \<open>i\<close>, \<open>ctx_ptr\<close> at \<open>j\<close>, \<open>stack_ptr\<close> at \<open>k\<close>.\<close>

definition in_frame :: "restore_ops \<Rightarrow> u64 \<Rightarrow> u64 \<Rightarrow> u64 \<Rightarrow> bool" where
  "in_frame ro i j k \<longleftrightarrow> context_at ro = In_frame RBP i \<and> ctx_ptr_at ro = In_frame RBP j \<and>
     stack_ptr_at ro = In_frame RBP k \<and> op_load ro \<noteq> RBP \<and> sep i k"

lemma sep_offset [simp]: "sep (a + x) (a + y) \<longleftrightarrow> sep x y"
  by (simp add: sep_def)

lemma load64_SomeD: "load64 mapped a cpu = Some v \<Longrightarrow> mapped a \<and> v = ld64 (mem cpu) a"
  by (simp add: load64_def split: if_splits)

lemma store64_SomeD: "store64 mapped a v cpu = Some cpu' \<Longrightarrow> mapped a \<and> cpu' = cpu\<lparr>mem := st64 (mem cpu) a v\<rparr>"
  by (simp add: store64_def split: if_splits)

lemmas access_SomeD = load64_SomeD store64_SomeD

lemma restore_locals_frame:
  assumes f: "in_frame ro i j k" and r: "restore_locals mapped ro cpu = Some cpu'"
    and c: "ld64 (mem cpu) (regs cpu RBP + i) = b" and x: "ld64 (mem cpu) (b + 48) = v"
    and out: "outside b (regs cpu RBP + j)" "outside b (regs cpu RBP + k)"
  shows "regs cpu' = regs cpu" "ld64 (mem cpu') (regs cpu RBP + j) = b" "ld64 (mem cpu') (b + 48) = v"
  using f r c x out [THEN outside_rbp] sep_sym [of k i]
  by (auto simp: in_frame_def restore_locals_def bind_eq_Some_conv dest!: access_SomeD)

text \<open>Up to the statement that restores \<open>rbp\<close> the variables are found; this statement loads the frame
  pointer of the process that comes in.\<close>

lemma restore_rbp_frame:
  assumes f: "in_frame ro i j k" and out: "\<forall>x \<in> {i, j, k}. outside b (regs cpu RBP + x)"
    and r: "assign mapped (context_at ro) b (cpu\<lparr>mem := with_context b c (mem cpu)\<rparr>) = Some cpu1"
      "restore_segments mapped ro cpu1 = Some cpu2" "restore_locals mapped ro cpu2 = Some cpu3"
      "restore_gprs mapped ro cpu3 = Some cpu4" "restore_rbp mapped ro cpu4 = Some cpu5"
  shows "regs cpu5 RBP = c_gpr c RBP"
proof -
  let ?R = "regs cpu RBP"
  have "ld64 (with_context b c (mem cpu)) (b + 48) = c_gpr c RBP"
    using ld64_with_context [of b c "mem cpu" RBP] by simp
  then have c1: "regs cpu1 = regs cpu" "ld64 (mem cpu1) (?R + i) = b" "ld64 (mem cpu1) (b + 48) = c_gpr c RBP"
    using f r(1) out outside_rbp [of b "?R + i"] by (auto simp: in_frame_def dest!: access_SomeD)
  have c2: "regs cpu2 = regs cpu1" "mem cpu2 = mem cpu1"
    using r(2) by (auto simp: restore_segments_def bind_eq_Some_conv)
  have "ld64 (mem cpu2) (regs cpu2 RBP + i) = b" "ld64 (mem cpu2) (b + 48) = c_gpr c RBP"
    using c1 c2 by simp_all
  note c3 = restore_locals_frame [OF f r(3) this]
  have "outside b (regs cpu2 RBP + j)" "outside b (regs cpu2 RBP + k)" using out c1(1) c2(1) by simp_all
  note c3 = c3 [OF this]
  have "mem cpu4 = mem cpu3" "regs cpu4 RBP = regs cpu3 RBP"
    using r(4) f load_gprs_frame [of mapped "op_load ro" restored_gprs]
    by (fastforce simp: restore_gprs_def in_frame_def bind_eq_Some_conv)+
  then show ?thesis
    using r(5) f c3 by (auto simp: restore_rbp_def in_frame_def Let_def bind_eq_Some_conv dest!: access_SomeD)
qed

lemma restore_frame_faults:
  assumes "in_frame ro i j k" "\<forall>x \<in> {i, j, k}. outside b (regs cpu RBP + x)" "\<not> mapped (c_gpr c RBP + k)"
  shows "context_restore mapped ro b c cpu = None"
proof (rule ccontr)
  assume "context_restore mapped ro b c cpu \<noteq> None"
  then obtain cpu1 cpu2 cpu3 cpu4 cpu5 cpu6 where
    "assign mapped (context_at ro) b (cpu\<lparr>mem := with_context b c (mem cpu)\<rparr>) = Some cpu1"
    "restore_segments mapped ro cpu1 = Some cpu2" "restore_locals mapped ro cpu2 = Some cpu3"
    "restore_gprs mapped ro cpu3 = Some cpu4" "restore_rbp mapped ro cpu4 = Some cpu5"
    and sp: "restore_rsp mapped ro cpu5 = Some cpu6"
    by (auto simp: context_restore_def bind_eq_Some_conv simp del: assign.simps)
  from restore_rbp_frame [OF assms(1,2) this(1-5)] have "regs cpu5 RBP = c_gpr c RBP" .
  then show False
    using sp assms(1,3) by (auto simp: restore_rsp_def in_frame_def bind_eq_Some_conv dest!: access_SomeD)
qed

text \<open>C38. Code of \<open>context_restore\<close> that keeps its variables in the \<open>rbp\<close> frame, as unoptimised code does,
  outside the context it restores, cannot start a new process: once it has loaded \<open>rbp\<close>, which
  \<open>context_init\<close> leaves 0, it looks for \<open>stack_ptr\<close> in the frame of that \<open>rbp\<close>, at the offset of the
  variable itself (a small negative number), and faults, there or earlier, when the very end of the
  address space is not mapped.\<close>

theorem restore_new_process_faults:
  assumes "in_frame ro i j k" "\<forall>x \<in> {i, j, k}. outside b (regs cpu RBP + x)" "\<not> mapped k"
  shows "context_restore mapped ro b (context_init entry arg stack_top) cpu = None"
  by (rule restore_frame_faults [OF assms(1,2)]) (use assms(3) in \<open>simp add: context_init_def zero_context_def Let_def\<close>)

definition cpu0 :: cpu where
  "cpu0 = \<lparr>regs = (\<lambda>r. if r = RBP then 0x8000 else gpr_offset r), seg_cs = 8, seg_ds = 16, seg_es = 16, seg_fs = 16,
     seg_gs = 16, seg_ss = 16, rip = 0x5555, rflags = 2, mem = (\<lambda>_. 0)\<rparr>"

text \<open>The choices in the object file that the repository holds, \<open>build/kernel/process/context.o\<close>: the
  argument at \<open>0x10\<close>, \<open>ctx_ptr\<close> at \<open>-0x10\<close>, \<open>stack_ptr\<close> at \<open>-8\<close>; the operand that restores \<open>rbp\<close> in
  \<open>rdx\<close>, the others in \<open>rax\<close>.\<close>

definition plain_ops :: restore_ops where
  "plain_ops = \<lparr>context_at = In_frame RBP 0x10, ctx_ptr_at = In_frame RBP (- 0x10),
     stack_ptr_at = In_frame RBP (- 8), op_load = RAX, op_rbp = RDX, op_rsp = RAX, op_flags = RAX, op_jmp = RAX\<rparr>"

theorem restore_new_process_faults_witness:
  "context_restore (\<lambda>a. a < 0x100000) plain_ops 0x2000 (context_init 0x400 7 0x9000) cpu0 = None"
  by (rule restore_new_process_faults [where i = "0x10" and j = "- 0x10" and k = "- 8"])
     (simp_all add: in_frame_def plain_ops_def sep_def outside_def cpu0_def)

text \<open>It does start a process whose saved \<open>rbp\<close> and \<open>rax\<close> happen to be the frame pointer of
  \<open>context_restore\<close> itself and the address of the context.\<close>

lemma restore_lucky:
  "map_option rip (context_restore (\<lambda>_. True) plain_ops 0x2000
     ((context_init 0x400 7 0x9000)\<lparr>c_gpr := (\<lambda>_. 0)(RBP := 0x8000, RAX := 0x2000, RSP := 0x9000)\<rparr>) cpu0) = Some 0x400"
  by code_simp

end
