(* ===== verification/Process_Types.thy ===== *)
theory Process_Types
  imports Kmem Context
begin

text \<open>
  The data of the process subsystem (\<open>include/types.h\<close>, \<open>include/process.h\<close> and the file-level
  variables of \<open>process.c\<close> and \<open>scheduler.c\<close>): process control blocks, the task table, the ready
  queue. Control blocks, contexts and register areas live in the kernel heap of \<open>Kmem\<close> and are
  kept in typed stores indexed by address. Console output is not part of the state; the pointers
  a \<open>printf\<close> dereferences are checked like any other access.
\<close>

section \<open>Data\<close>

datatype process_state_t =
  PROCESS_CREATED | PROCESS_READY | PROCESS_RUNNING | PROCESS_BLOCKED | PROCESS_TERMINATED

record pt_regs_t =
  r_gpr :: "gpr \<Rightarrow> u64"
  r_rip :: u64
  r_rflags :: u64
  r_cs :: u16
  r_ds :: u16
  r_es :: u16
  r_fs :: u16
  r_gs :: u16
  r_ss :: u16

record process_t =
  p_pid :: s32
  p_state :: process_state_t
  p_priority :: u32
  p_counter :: u32
  p_stack :: ptr
  p_stack_size :: u64
  p_context :: ptr
  p_mm :: ptr
  p_user_stack :: ptr
  p_user_stack_top :: u64
  p_sscratch :: u64
  p_pt_regs :: ptr
  p_parent :: ptr
  p_next :: ptr
  p_creation_time :: u32
  p_cpu_time :: u64
  p_exit_code :: s32
  p_name :: string
  p_kernel_stack :: ptr
  p_flags :: u32

text \<open>The control block after \<open>memset(proc, 0, sizeof(process_t))\<close>; the enumeration's first
  constant is 0.\<close>

definition zero_process :: process_t where
  "zero_process = \<lparr>p_pid = 0, p_state = PROCESS_CREATED, p_priority = 0, p_counter = 0,
     p_stack = NULL, p_stack_size = 0, p_context = NULL, p_mm = NULL, p_user_stack = NULL,
     p_user_stack_top = 0, p_sscratch = 0, p_pt_regs = NULL, p_parent = NULL, p_next = NULL,
     p_creation_time = 0, p_cpu_time = 0, p_exit_code = 0, p_name = '''', p_kernel_stack = NULL,
     p_flags = 0\<rparr>"

definition zero_pt_regs :: pt_regs_t where
  "zero_pt_regs = \<lparr>r_gpr = (\<lambda>_. 0), r_rip = 0, r_rflags = 0, r_cs = 0, r_ds = 0, r_es = 0,
     r_fs = 0, r_gs = 0, r_ss = 0\<rparr>"

text \<open>Object sizes on x86-64.\<close>

definition sizeof_process :: u64 where
  "sizeof_process = 168"

definition sizeof_context :: u64 where
  "sizeof_context = 160"

definition sizeof_pt_regs :: u64 where
  "sizeof_pt_regs = 160"

text \<open>The static variables: the ends of the ready queue, then those of \<open>process.c\<close> and the objects in the
  heap.\<close>

record ready_queue = kmem +
  rq_head :: ptr
  rq_tail :: ptr

record kstate = ready_queue +
  next_pid :: s32
  current :: ptr
  task :: "ptr list"
  task_count :: nat
  procs :: "ptr \<Rightarrow> process_t option"
  ctxs :: ctx_store
  ptregs :: "ptr \<Rightarrow> pt_regs_t option"

text \<open>The state before \<open>process_init\<close>: static variables, the array \<open>heap\<close> placed at \<open>a\<close>.\<close>

definition boot_state :: "ptr \<Rightarrow> kstate" where
  "boot_state a = \<lparr>heap_addr = a, heap_used = 0, free_log = [], mms = Map.empty, vmas = Map.empty,
     rq_head = NULL, rq_tail = NULL, next_pid = 1, current = NULL, task = replicate 64 NULL, task_count = 0,
     procs = Map.empty, ctxs = Map.empty, ptregs = Map.empty\<rparr>"

section \<open>Access through pointers\<close>

definition deref :: "kstate \<Rightarrow> ptr \<Rightarrow> (process_t \<Rightarrow> ('a, kstate) exec) \<Rightarrow> ('a, kstate) exec" where
  "deref s p k =
     (if p = NULL then Crash NullDeref
      else case procs s p of None \<Rightarrow> Crash BadPtr | Some pr \<Rightarrow> k pr)"

definition upd_proc :: "ptr \<Rightarrow> (process_t \<Rightarrow> process_t) \<Rightarrow> kstate \<Rightarrow> kstate" where
  "upd_proc p f s = s\<lparr>procs := (procs s)(p := map_option f (procs s p))\<rparr>"

lemma deref_Some [exec_simps]: "procs s p = Some pr \<Longrightarrow> p \<noteq> NULL \<Longrightarrow> deref s p k = k pr"
  by (simp add: deref_def)

lemma deref_NULL [exec_simps]: "deref s NULL k = Crash NullDeref"
  by (simp add: deref_def)

lemma upd_proc_sel [simp]:
  "heap_addr (upd_proc p f s) = heap_addr s" "heap_used (upd_proc p f s) = heap_used s"
  "free_log (upd_proc p f s) = free_log s" "mms (upd_proc p f s) = mms s"
  "vmas (upd_proc p f s) = vmas s" "next_pid (upd_proc p f s) = next_pid s"
  "current (upd_proc p f s) = current s" "task (upd_proc p f s) = task s"
  "task_count (upd_proc p f s) = task_count s" "rq_head (upd_proc p f s) = rq_head s"
  "rq_tail (upd_proc p f s) = rq_tail s" "ctxs (upd_proc p f s) = ctxs s"
  "ptregs (upd_proc p f s) = ptregs s"
  "procs (upd_proc p f s) = (procs s)(p := map_option f (procs s p))"
  by (simp_all add: upd_proc_def)

section \<open>Views of a state\<close>

text \<open>
  The scheduler's list operations change only the links \<open>p_next\<close> and the queue's ends. The
  view of a state hides the links; its core hides the stores the scheduler writes. A call that
  keeps both, and \<open>current\<close>, has only relinked the queue.
\<close>

definition unlinked :: "process_t \<Rightarrow> process_t" where
  "unlinked pr = pr\<lparr>p_next := NULL\<rparr>"

definition view :: "kstate \<Rightarrow> ptr \<Rightarrow> process_t option" where
  "view s p = map_option unlinked (procs s p)"

definition st :: "kstate \<Rightarrow> ptr \<Rightarrow> process_state_t option" where
  "st s p = map_option p_state (procs s p)"

definition core :: "kstate \<Rightarrow> kstate" where
  "core s = s\<lparr>procs := Map.empty, rq_head := NULL, rq_tail := NULL, current := NULL\<rparr>"

definition relinked :: "kstate \<Rightarrow> kstate \<Rightarrow> bool" where
  "relinked s s' \<longleftrightarrow> view s' = view s \<and> core s' = core s \<and> current s' = current s"

lemma unlinked_sel [simp]:
  "p_pid (unlinked pr) = p_pid pr" "p_state (unlinked pr) = p_state pr"
  "p_priority (unlinked pr) = p_priority pr" "p_counter (unlinked pr) = p_counter pr"
  "p_context (unlinked pr) = p_context pr" "p_mm (unlinked pr) = p_mm pr"
  "p_pt_regs (unlinked pr) = p_pt_regs pr" "p_parent (unlinked pr) = p_parent pr"
  "p_cpu_time (unlinked pr) = p_cpu_time pr" "p_exit_code (unlinked pr) = p_exit_code pr"
  "p_name (unlinked pr) = p_name pr" "p_kernel_stack (unlinked pr) = p_kernel_stack pr"
  by (simp_all add: unlinked_def)

lemma core_eqD:
  assumes "core s' = core s"
  shows "heap_addr s' = heap_addr s" "heap_used s' = heap_used s" "free_log s' = free_log s"
    "mms s' = mms s" "vmas s' = vmas s" "next_pid s' = next_pid s" "task s' = task s"
    "task_count s' = task_count s" "ctxs s' = ctxs s" "ptregs s' = ptregs s"
  using assms by (cases s, cases s', simp add: core_def)+

lemma view_procs: "view s p = Some v \<Longrightarrow> \<exists>pr. procs s p = Some pr \<and> unlinked pr = v"
  by (auto simp: view_def)

lemma view_None [simp]: "view s p = None \<longleftrightarrow> procs s p = None"
  by (simp add: view_def)

lemma st_view: "st s p = map_option p_state (view s p)"
  by (cases "procs s p") (simp_all add: st_def view_def)

lemma core_upd [simp]:
  "core (upd_proc p f s) = core s" "core (s\<lparr>rq_head := x\<rparr>) = core s"
  "core (s\<lparr>rq_tail := x\<rparr>) = core s" "core (s\<lparr>current := x\<rparr>) = core s"
  by (simp_all add: core_def upd_proc_def)

lemma view_upd [simp]:
  "view (s\<lparr>rq_head := x\<rparr>) = view s" "view (s\<lparr>rq_tail := x\<rparr>) = view s"
  "view (s\<lparr>current := x\<rparr>) = view s"
  by (simp_all add: view_def fun_eq_iff)

lemma view_upd_next [simp]: "view (upd_proc p (p_next_update f) s) = view s"
  by (cases "procs s p") (simp_all add: view_def fun_eq_iff unlinked_def)

lemma relinked_refl [simp]: "relinked s s"
  by (simp add: relinked_def)

lemma relinked_trans: "relinked s t \<Longrightarrow> relinked t u \<Longrightarrow> relinked s u"
  by (simp add: relinked_def)

end
