(* ===== verification/Queue_Interface.thy ===== *)
theory Queue_Interface
  imports Kernel_Prelude
begin

text \<open>
  What \<open>schedule\<close> relies on from the ready queue: processes leave in the order they were added,
  an arbitrary process can be taken out, and neither operation disturbs anything the frame
  covers. The laws relate the state to the list of queued processes.
\<close>

text \<open>Clients of the queue: add a list of processes; take the first \<open>n\<close> from the head.\<close>

fun enqueue_all :: "(ptr \<Rightarrow> 's \<Rightarrow> (unit, 's) exec) \<Rightarrow> ptr list \<Rightarrow> 's \<Rightarrow> (unit, 's) exec" where
  "enqueue_all add [] s = Ret () s"
| "enqueue_all add (p # ps) s = and_then (add p s) (\<lambda>_. enqueue_all add ps)"

fun serve :: "('s \<Rightarrow> ptr) \<Rightarrow> (ptr \<Rightarrow> 's \<Rightarrow> (unit, 's) exec) \<Rightarrow> nat \<Rightarrow> 's \<Rightarrow> (ptr list, 's) exec" where
  "serve head remove 0 s = Ret [] s"
| "serve head remove (Suc n) s =
     and_then (remove (head s) s)
       (\<lambda>_ s'. and_then (serve head remove n s') (\<lambda>ps t. Ret (head s # ps) t))"

locale fifo_queue =
  fixes add :: "ptr \<Rightarrow> 's \<Rightarrow> (unit, 's) exec"
    and remove :: "ptr \<Rightarrow> 's \<Rightarrow> (unit, 's) exec"
    and head :: "'s \<Rightarrow> ptr"
    and rel :: "'s \<Rightarrow> ptr list \<Rightarrow> bool"
    and valid :: "'s \<Rightarrow> ptr \<Rightarrow> bool"
    and frame :: "'s \<Rightarrow> 's \<Rightarrow> bool"
  assumes head_rel: "rel s qs \<Longrightarrow> head s = (if qs = [] then NULL else hd qs)"
    and add_rel: "rel s qs \<Longrightarrow> valid s p \<Longrightarrow> p \<notin> set qs \<Longrightarrow>
      \<exists>s'. add p s = Ret () s' \<and> rel s' (qs @ [p]) \<and> frame s s'"
    and remove_rel: "rel s qs \<Longrightarrow> valid s p \<Longrightarrow>
      \<exists>s'. remove p s = Ret () s' \<and> rel s' (remove1 p qs) \<and> frame s s'"
    and rel_valid: "rel s qs \<Longrightarrow> p \<in> set qs \<Longrightarrow> valid s p"
    and rel_distinct: "rel s qs \<Longrightarrow> distinct qs"
    and frame_valid: "frame s s' \<Longrightarrow> valid s' p = valid s p"
    and frame_refl: "frame s s"
    and frame_trans: "frame s t \<Longrightarrow> frame t u \<Longrightarrow> frame s u"
begin

text \<open>The step of a FIFO scheduler: the old process goes to the back, the head leaves.\<close>

lemma add_then_remove:
  assumes "rel s (n # qs)" "valid s c" "c \<notin> set (n # qs)"
  shows "\<exists>t u. add c s = Ret () t \<and> frame s t \<and> rel t ((n # qs) @ [c]) \<and>
    remove n t = Ret () u \<and> rel u (qs @ [c]) \<and> frame s u"
proof -
  obtain t where t: "add c s = Ret () t" "rel t ((n # qs) @ [c])" "frame s t"
    using add_rel [OF assms] by blast
  then have "valid t n" using rel_valid [OF t(2)] by simp
  then obtain u where u: "remove n t = Ret () u" "rel u (qs @ [c])" "frame t u"
    using remove_rel [OF t(2), of n] by auto
  show ?thesis using t u frame_trans by blast
qed

lemma enqueue_all_rel:
  assumes "rel s qs" "distinct (qs @ ps)" "\<forall>p \<in> set ps. valid s p"
  shows "\<exists>s'. enqueue_all add ps s = Ret () s' \<and> rel s' (qs @ ps) \<and> frame s s'"
  using assms
proof (induction ps arbitrary: s qs)
  case Nil
  then show ?case by (auto intro: frame_refl)
next
  case (Cons p ps)
  obtain t where t: "add p s = Ret () t" "rel t (qs @ [p])" "frame s t"
    using add_rel [OF Cons.prems(1), of p] Cons.prems by auto
  have "\<forall>q \<in> set ps. valid t q" using frame_valid [OF t(3)] Cons.prems(3) by simp
  then obtain u where "enqueue_all add ps t = Ret () u" "rel u ((qs @ [p]) @ ps)" "frame t u"
    using Cons.IH [OF t(2)] Cons.prems(2) by auto
  then show ?case using t frame_trans by auto
qed

lemma serve_rel:
  assumes "rel s qs" "n \<le> length qs"
  shows "\<exists>s'. serve head remove n s = Ret (take n qs) s' \<and> rel s' (drop n qs) \<and> frame s s'"
  using assms
proof (induction n arbitrary: s qs)
  case 0
  then show ?case by (auto intro: frame_refl)
next
  case (Suc n)
  then obtain q rest where qs: "qs = q # rest" by (cases qs) auto
  have h: "head s = q" using head_rel [OF Suc.prems(1)] qs by simp
  obtain t where t: "remove q s = Ret () t" "rel t rest" "frame s t"
    using remove_rel [OF Suc.prems(1)] rel_valid [OF Suc.prems(1)] qs by fastforce
  obtain u where "serve head remove n t = Ret (take n rest) u" "rel u (drop n rest)" "frame t u"
    using Suc.IH [OF t(2)] Suc.prems(2) qs by auto
  then show ?case using h t qs frame_trans by auto
qed

lemma fifo_order:
  assumes "rel s []" "distinct ps" "\<forall>p \<in> set ps. valid s p"
  shows "\<exists>s'. and_then (enqueue_all add ps s) (\<lambda>_. serve head remove (length ps)) = Ret ps s' \<and>
    rel s' [] \<and> frame s s'"
proof -
  obtain t where t: "enqueue_all add ps s = Ret () t" "rel t ps" "frame s t"
    using enqueue_all_rel [OF assms(1)] assms(2,3) by auto
  then show ?thesis using serve_rel [OF t(2), of "length ps"] frame_trans by auto
qed

end

end
