(* ===== verification/Scheduler.thy ===== *)
theory Scheduler
  imports Process_Types Queue_Interface
begin

text \<open>
  The FIFO scheduler, \<open>kernel/process/scheduler.c\<close>: a singly linked ready queue threaded through
  the \<open>next\<close> fields of the control blocks, and \<open>schedule\<close> on top of it. The queue operations are
  shown to implement a list; \<open>schedule\<close> then rotates that list.
\<close>

section \<open>Operations\<close>

definition process_get_current :: "kstate \<Rightarrow> ptr" where
  "process_get_current s = current s"

definition process_set_current :: "ptr \<Rightarrow> kstate \<Rightarrow> kstate" where
  "process_set_current p s = s\<lparr>current := p\<rparr>"

definition scheduler_init :: "kstate \<Rightarrow> kstate" where
  "scheduler_init s = s\<lparr>rq_head := NULL, rq_tail := NULL\<rparr>"

definition scheduler_add :: "ptr \<Rightarrow> kstate \<Rightarrow> (unit, kstate) exec" where
  "scheduler_add proc s =
     (if proc = NULL then Ret () s
      else deref s proc (\<lambda>_.
        let s = upd_proc proc (p_next_update (\<lambda>_. NULL)) s in
        if rq_head s = NULL then Ret () (s\<lparr>rq_head := proc, rq_tail := proc\<rparr>)
        else deref s (rq_tail s) (\<lambda>_.
          let s = upd_proc (rq_tail s) (p_next_update (\<lambda>_. proc)) s
          in Ret () (s\<lparr>rq_tail := proc\<rparr>))))"

text \<open>The search loop of \<open>scheduler_remove\<close>; on a cyclic queue it may not end.\<close>

partial_function (option) scheduler_remove_loop ::
  "ptr \<Rightarrow> ptr \<Rightarrow> kstate \<Rightarrow> (unit, kstate) exec option" where
  "scheduler_remove_loop proc cur s =
     (case procs s cur of
        None \<Rightarrow> Some (Crash BadPtr)
      | Some c \<Rightarrow>
          if p_next c = NULL then Some (Ret () s)
          else if p_next c = proc then
            Some (deref s proc (\<lambda>pr.
              let s = upd_proc cur (p_next_update (\<lambda>_. p_next pr)) s
              in Ret () (if rq_tail s = proc then s\<lparr>rq_tail := cur\<rparr> else s)))
          else scheduler_remove_loop proc (p_next c) s)"

definition scheduler_remove :: "ptr \<Rightarrow> kstate \<Rightarrow> (unit, kstate) exec" where
  "scheduler_remove proc s =
     (if proc = NULL \<or> rq_head s = NULL then Ret () s
      else if rq_head s = proc then
        deref s proc (\<lambda>pr.
          let s = s\<lparr>rq_head := p_next pr\<rparr>
          in Ret () (if rq_head s = NULL then s\<lparr>rq_tail := NULL\<rparr> else s))
      else case scheduler_remove_loop proc (rq_head s) s of
             None \<Rightarrow> Spin s
           | Some r \<Rightarrow> r)"

definition scheduler_next :: "kstate \<Rightarrow> (ptr, kstate) exec" where
  "scheduler_next s =
     (let n = if rq_head s \<noteq> NULL then rq_head s else process_get_current s
      in if n \<noteq> NULL then deref s n (\<lambda>_. Ret n s) else Ret n s)"

definition schedule :: "kstate \<Rightarrow> (unit, kstate) exec" where
  "schedule s =
     (let cur = process_get_current s in
      and_then (scheduler_next s) (\<lambda>n s.
      if cur = n then Ret () s
      else
        and_then
          (if cur \<noteq> NULL then
             deref s cur (\<lambda>c.
               if p_state c = PROCESS_RUNNING
               then scheduler_add cur (upd_proc cur (p_state_update (\<lambda>_. PROCESS_READY)) s)
               else Ret () s)
           else Ret () s)
          (\<lambda>_ s.
            if n \<noteq> NULL then
              deref s n (\<lambda>_.
                let s = upd_proc n (p_state_update (\<lambda>_. PROCESS_RUNNING)) s;
                    s = process_set_current n s
                in and_then (scheduler_remove n s) (\<lambda>_ s.
                   deref s cur (\<lambda>c. deref s n (\<lambda>nx.
                     if p_context c \<noteq> NULL
                     then Xfer (Context_switch (p_context c) (p_context nx)) s
                     else Xfer (Context_restore (p_context nx)) s))))
            else Ret () s)))"

definition scheduler_tick :: "kstate \<Rightarrow> kstate" where
  "scheduler_tick s = s"

definition scheduler_block :: "kstate \<Rightarrow> (unit, kstate) exec" where
  "scheduler_block s =
     (let cur = process_get_current s in
      if cur \<noteq> NULL then
        deref s cur (\<lambda>_. schedule (upd_proc cur (p_state_update (\<lambda>_. PROCESS_BLOCKED)) s))
      else Ret () s)"

definition scheduler_wake :: "ptr \<Rightarrow> kstate \<Rightarrow> (unit, kstate) exec" where
  "scheduler_wake proc s =
     (if proc \<noteq> NULL then
        deref s proc (\<lambda>pr.
          if p_state pr = PROCESS_BLOCKED
          then scheduler_add proc (upd_proc proc (p_state_update (\<lambda>_. PROCESS_READY)) s)
          else Ret () s)
      else Ret () s)"

section \<open>The queue as a list\<close>

text \<open>A linked segment from \<open>p\<close> through the blocks \<open>as\<close> to \<open>q\<close>.\<close>

fun rq_seg :: "(ptr \<Rightarrow> process_t option) \<Rightarrow> ptr \<Rightarrow> ptr list \<Rightarrow> ptr \<Rightarrow> bool" where
  "rq_seg h p [] q = (p = q)"
| "rq_seg h p (a # as) q =
     (p = a \<and> a \<noteq> NULL \<and>
      (case h a of None \<Rightarrow> False | Some pr \<Rightarrow> rq_seg h (p_next pr) as q))"

definition queue_ok :: "kstate \<Rightarrow> ptr list \<Rightarrow> bool" where
  "queue_ok s qs \<longleftrightarrow> rq_seg (procs s) (rq_head s) qs NULL \<and> distinct qs \<and>
     rq_tail s = (if qs = [] then NULL else last qs)"

definition valid_proc :: "kstate \<Rightarrow> ptr \<Rightarrow> bool" where
  "valid_proc s p \<longleftrightarrow> p \<noteq> NULL \<and> procs s p \<noteq> None"

lemma rq_seg_append: "rq_seg h p (as @ bs) q \<longleftrightarrow> (\<exists>r. rq_seg h p as r \<and> rq_seg h r bs q)"
  by (induction as arbitrary: p) (auto split: option.splits)

lemma rq_seg_cong:
  assumes "\<And>a. a \<in> set as \<Longrightarrow> map_option p_next (h' a) = map_option p_next (h a)"
  shows "rq_seg h' p as q = rq_seg h p as q"
  using assms
proof (induction as arbitrary: p)
  case (Cons a as)
  have "map_option p_next (h' a) = map_option p_next (h a)" using Cons.prems by simp
  then show ?case using Cons by (cases "h a"; cases "h' a") auto
qed simp

lemma rq_seg_upd [simp]: "a \<notin> set as \<Longrightarrow> rq_seg (h(a := v)) p as q = rq_seg h p as q"
  by (rule rq_seg_cong) auto

lemma rq_seg_valid: "rq_seg h p as q \<Longrightarrow> a \<in> set as \<Longrightarrow> a \<noteq> NULL \<and> h a \<noteq> None"
  by (induction as arbitrary: p) (auto split: option.splits)

lemma rq_seg_head:
  "rq_seg h p as NULL \<Longrightarrow> p = (if as = [] then NULL else hd as)"
  by (cases as) auto

lemma queue_ok_cong:
  assumes "queue_ok s qs" "rq_head s' = rq_head s" "rq_tail s' = rq_tail s"
    and "\<And>a. a \<in> set qs \<Longrightarrow> map_option p_next (procs s' a) = map_option p_next (procs s a)"
  shows "queue_ok s' qs"
  using assms rq_seg_cong [of qs "procs s'" "procs s" "rq_head s" NULL] by (simp add: queue_ok_def)

lemma queue_ok_upd_state [simp]:
  assumes "\<And>pr. p_next (f pr) = p_next pr"
  shows "queue_ok (upd_proc p f s) qs = queue_ok s qs"
  using assms rq_seg_cong [of qs "procs (upd_proc p f s)" "procs s"]
  by (auto simp: queue_ok_def option.map_comp comp_def)

lemma queue_ok_current [simp]: "queue_ok (s\<lparr>current := p\<rparr>) qs = queue_ok s qs"
  by (simp add: queue_ok_def)

lemma queue_ok_head:
  "queue_ok s qs \<Longrightarrow> rq_head s = (if qs = [] then NULL else hd qs)"
  unfolding queue_ok_def by (blast dest: rq_seg_head)

lemma queue_ok_head_null [simp]: "queue_ok s qs \<Longrightarrow> rq_head s = NULL \<longleftrightarrow> qs = []"
  by (cases qs) (auto simp: queue_ok_def)

lemma queue_ok_valid: "queue_ok s qs \<Longrightarrow> p \<in> set qs \<Longrightarrow> valid_proc s p"
  using rq_seg_valid by (fastforce simp: queue_ok_def valid_proc_def)

text \<open>Adding at the tail.\<close>

lemma scheduler_add_ok:
  assumes q: "queue_ok s qs" and v: "valid_proc s p" and n: "p \<notin> set qs"
  shows "\<exists>s'. scheduler_add p s = Ret () s' \<and> queue_ok s' (qs @ [p]) \<and> relinked s s'"
proof (cases qs rule: rev_cases)
  case Nil
  then have "rq_head s = NULL" using queue_ok_head [OF q] by simp
  then show ?thesis
    using v Nil q
    by (auto simp: scheduler_add_def valid_proc_def exec_simps Let_def queue_ok_def relinked_def)
next
  case (snoc ys t)
  obtain pr where pr: "procs s p = Some pr" "p \<noteq> NULL" using v by (auto simp: valid_proc_def)
  have t: "t \<noteq> p" "t \<notin> set ys" "rq_tail s = t"
    using n q snoc by (auto simp: queue_ok_def)
  obtain tr where tr: "procs s t = Some tr" "t \<noteq> NULL"
    using queue_ok_valid [OF q, of t] snoc by (auto simp: valid_proc_def)
  have hd: "rq_head s \<noteq> NULL" using q snoc by simp
  let ?s' = "(upd_proc t (p_next_update (\<lambda>_. p)) (upd_proc p (p_next_update (\<lambda>_. NULL)) s))
               \<lparr>rq_tail := p\<rparr>"
  have "scheduler_add p s = Ret () ?s'"
    using pr tr t hd by (simp add: scheduler_add_def exec_simps Let_def)
  moreover have "queue_ok ?s' (qs @ [p])"
    using q n snoc t pr tr by (auto simp: queue_ok_def rq_seg_append)
  moreover have "relinked s ?s'" by (simp add: relinked_def)
  ultimately show ?thesis by blast
qed

text \<open>Removing, from the front or from inside.\<close>

lemma remove_loop_found:
  assumes "rq_seg (procs s) cur (xs @ y # p # zs) NULL" "p \<notin> set (xs @ [y])"
    and "procs s p = Some pr"
  shows "scheduler_remove_loop p cur s =
    Some (Ret () (let s = upd_proc y (p_next_update (\<lambda>_. p_next pr)) s
                  in if rq_tail s = p then s\<lparr>rq_tail := y\<rparr> else s))"
  using assms(1,2)
proof (induction xs arbitrary: cur)
  case Nil
  then obtain yr where "procs s y = Some yr" "p_next yr = p" "cur = y" "p \<noteq> NULL"
    by (auto split: option.splits)
  then show ?case
    using assms(3) by (subst scheduler_remove_loop.simps) (simp add: exec_simps Let_def)
next
  case (Cons x xs)
  then obtain xr where x: "procs s x = Some xr" "cur = x"
    "rq_seg (procs s) (p_next xr) (xs @ y # p # zs) NULL"
    by (auto split: option.splits)
  then have "p_next xr \<noteq> NULL" "p_next xr \<noteq> p"
    using rq_seg_valid [OF x(3)] rq_seg_head [OF x(3)] Cons.prems(2) by (cases xs; auto)+
  then show ?case
    using x Cons.IH [OF x(3)] Cons.prems(2) by (subst scheduler_remove_loop.simps) simp
qed

lemma remove_loop_absent:
  assumes "rq_seg (procs s) cur (x # xs) NULL" "p \<notin> set xs" "p \<noteq> NULL"
  shows "scheduler_remove_loop p cur s = Some (Ret () s)"
  using assms
proof (induction xs arbitrary: cur x)
  case Nil
  then show ?case by (subst scheduler_remove_loop.simps) (auto split: option.splits)
next
  case (Cons y ys)
  then obtain xr where "procs s x = Some xr" "cur = x" "p_next xr = y" "y \<noteq> NULL"
    "rq_seg (procs s) (p_next xr) (y # ys) NULL"
    by (auto split: option.splits)
  then show ?case
    using Cons.IH [of "p_next xr" y] Cons.prems
    by (subst scheduler_remove_loop.simps) auto
qed

lemma scheduler_remove_absent:
  assumes "queue_ok s qs" "p \<notin> set qs"
  shows "scheduler_remove p s = Ret () s"
proof (cases "p = NULL \<or> qs = []")
  case True
  then show ?thesis using assms by (auto simp: scheduler_remove_def)
next
  case False
  then obtain x xs where qs: "qs = x # xs" by (cases qs) auto
  then have "rq_head s = x" "rq_seg (procs s) (rq_head s) (x # xs) NULL"
    using assms(1) queue_ok_head [OF assms(1)] by (auto simp: queue_ok_def)
  then show ?thesis
    using remove_loop_absent [of s "rq_head s" x xs p] False assms qs
    by (auto simp: scheduler_remove_def)
qed

lemma scheduler_remove_head:
  assumes "queue_ok s (p # qs)"
  shows "\<exists>s'. scheduler_remove p s = Ret () s' \<and> queue_ok s' qs \<and> relinked s s'"
proof -
  obtain pr where pr: "procs s p = Some pr" "p \<noteq> NULL" "rq_head s = p"
    "rq_seg (procs s) (p_next pr) qs NULL"
    using assms by (auto simp: queue_ok_def split: option.splits)
  have "p_next pr = NULL \<longleftrightarrow> qs = []" using pr(4) by (cases qs) auto
  then show ?thesis
    using pr assms
    by (auto simp: scheduler_remove_def exec_simps Let_def queue_ok_def relinked_def)
qed

lemma scheduler_remove_inner:
  assumes q: "queue_ok s (xs @ y # p # zs)"
  shows "\<exists>s'. scheduler_remove p s = Ret () s' \<and> queue_ok s' (xs @ y # zs) \<and> relinked s s'"
proof -
  obtain pr where pr: "procs s p = Some pr" "p \<noteq> NULL"
    using queue_ok_valid [OF q, of p] by (auto simp: valid_proc_def)
  let ?t = "upd_proc y (p_next_update (\<lambda>_. p_next pr)) s"
  let ?s' = "if rq_tail ?t = p then ?t\<lparr>rq_tail := y\<rparr> else ?t"
  have d: "p \<notin> set (xs @ [y])" "distinct (xs @ y # p # zs)" using q by (auto simp: queue_ok_def)
  have seg: "rq_seg (procs s) (rq_head s) (xs @ y # p # zs) NULL" using q by (simp add: queue_ok_def)
  have "rq_head s \<noteq> p" "rq_head s \<noteq> NULL"
    using q queue_ok_head [OF q] d by (cases xs; auto)+
  then have "scheduler_remove p s = Ret () ?s'"
    using remove_loop_found [OF seg d(1) pr(1)] pr(2) by (simp add: scheduler_remove_def Let_def)
  moreover have "zs \<noteq> [] \<Longrightarrow> last zs \<noteq> p" using d(2) by (cases zs rule: rev_cases) auto
  then have "queue_ok ?s' (xs @ y # zs)"
    using q pr d
    by (auto simp: queue_ok_def rq_seg_append split: option.splits)
  moreover have "relinked s ?s'" by (simp add: relinked_def)
  ultimately show ?thesis by blast
qed

lemma scheduler_remove_ok:
  assumes "queue_ok s qs"
  shows "\<exists>s'. scheduler_remove p s = Ret () s' \<and> queue_ok s' (remove1 p qs) \<and> relinked s s'"
proof (cases "p \<in> set qs")
  case False
  then show ?thesis using scheduler_remove_absent [OF assms] assms by (auto simp: remove1_idem)
next
  case True
  then obtain as bs where qs: "qs = as @ p # bs" "p \<notin> set as" by (meson split_list_first)
  show ?thesis
  proof (cases as rule: rev_cases)
    case Nil
    then show ?thesis using scheduler_remove_head assms qs by simp
  next
    case (snoc xs y)
    then show ?thesis using scheduler_remove_inner [of s xs y p bs] assms qs by (simp add: remove1_append)
  qed
qed

interpretation rq: fifo_queue scheduler_add scheduler_remove rq_head queue_ok valid_proc relinked
proof
  fix s s' :: kstate and p
  assume "relinked s s'"
  then show "valid_proc s' p = valid_proc s p"
    by (metis relinked_def valid_proc_def view_None)
qed (auto simp: queue_ok_head queue_ok_valid relinked_trans scheduler_add_ok scheduler_remove_ok,
     auto simp: queue_ok_def)

section \<open>What \<open>schedule\<close> does\<close>

definition set_st :: "ptr \<Rightarrow> process_state_t \<Rightarrow> (ptr \<Rightarrow> process_t option) \<Rightarrow> ptr \<Rightarrow> process_t option" where
  "set_st p x v = v(p := map_option (p_state_update (\<lambda>_. x)) (v p))"

definition ctx_of :: "kstate \<Rightarrow> ptr \<Rightarrow> ptr" where
  "ctx_of s p = (case view s p of None \<Rightarrow> NULL | Some pr \<Rightarrow> p_context pr)"

text \<open>The transfer that ends \<open>schedule\<close> when it leaves \<open>c\<close> for \<open>n\<close>.\<close>

definition switch_between :: "kstate \<Rightarrow> ptr \<Rightarrow> ptr \<Rightarrow> transfer" where
  "switch_between s c n =
     (if ctx_of s c \<noteq> NULL then Context_switch (ctx_of s c) (ctx_of s n)
      else Context_restore (ctx_of s n))"

lemma view_upd_state [simp]:
  "view (upd_proc p (p_state_update (\<lambda>_. x)) s) = set_st p x (view s)"
  by (cases "procs s p") (simp_all add: view_def set_st_def fun_eq_iff unlinked_def)

lemma set_st_other [simp]: "q \<noteq> p \<Longrightarrow> set_st p x v q = v q"
  by (simp add: set_st_def)

lemma set_st_None [simp]: "set_st p x v q = None \<longleftrightarrow> v q = None"
  by (simp add: set_st_def)

lemma p_state_set_st [simp]:
  "map_option p_state (set_st p x v q) =
     (if q = p \<and> v q \<noteq> None then Some x else map_option p_state (v q))"
  by (cases "v q") (auto simp: set_st_def)

lemma ctx_set_st:
  "(case set_st p x v q of None \<Rightarrow> NULL | Some pr \<Rightarrow> p_context pr) =
   (case v q of None \<Rightarrow> NULL | Some pr \<Rightarrow> p_context pr)"
  by (cases "v q") (auto simp: set_st_def)

lemma relinked_ctx: "relinked s s' \<Longrightarrow> ctx_of s' p = ctx_of s p"
  by (simp add: relinked_def ctx_of_def)

lemma ctx_of_procs: "procs s p = Some pr \<Longrightarrow> p_context pr = ctx_of s p"
  by (simp add: ctx_of_def view_def)

lemma valid_proc_view: "valid_proc s p \<longleftrightarrow> p \<noteq> NULL \<and> view s p \<noteq> None"
  by (simp add: valid_proc_def)

text \<open>The tail of \<open>schedule\<close>, from a state in which \<open>n\<close> heads the queue.\<close>

lemma schedule_tail:
  assumes q: "queue_ok s (n # qs)" and c: "valid_proc s c" and cn: "c \<noteq> n"
  shows "\<exists>s'. deref s n (\<lambda>_.
      let s = upd_proc n (p_state_update (\<lambda>_. PROCESS_RUNNING)) s;
          s = process_set_current n s
      in and_then (scheduler_remove n s) (\<lambda>_ s.
         deref s c (\<lambda>c. deref s n (\<lambda>nx.
           if p_context c \<noteq> NULL
           then Xfer (Context_switch (p_context c) (p_context nx)) s
           else Xfer (Context_restore (p_context nx)) s)))) = Xfer (switch_between s c n) s' \<and>
    queue_ok s' qs \<and> current s' = n \<and> core s' = core s \<and>
    view s' = set_st n PROCESS_RUNNING (view s)"
proof -
  let ?t = "process_set_current n (upd_proc n (p_state_update (\<lambda>_. PROCESS_RUNNING)) s)"
  have n: "valid_proc s n" using queue_ok_valid [OF q] by simp
  have "queue_ok ?t (n # qs)" using q by (simp add: process_set_current_def)
  then obtain s' where s': "scheduler_remove n ?t = Ret () s'" "queue_ok s' qs" "relinked ?t s'"
    using scheduler_remove_head by blast
  have v: "view s' = set_st n PROCESS_RUNNING (view s)" "core s' = core s" "current s' = n"
    using s'(3) by (simp_all add: relinked_def process_set_current_def)
  obtain cr nr where cr: "procs s' c = Some cr" and nr: "procs s' n = Some nr"
    using c n v by (metis not_None_eq set_st_None valid_proc_def view_None)
  have "ctx_of s' x = ctx_of s x" for x using v(1) by (simp add: ctx_of_def ctx_set_st)
  then have "p_context cr = ctx_of s c" "p_context nr = ctx_of s n"
    using ctx_of_procs [OF cr] ctx_of_procs [OF nr] by simp_all
  then show ?thesis
    using s' v cr nr c n by (auto simp: valid_proc_def exec_simps switch_between_def)
qed

lemma schedule_empty:
  assumes "queue_ok s []" "valid_proc s (current s)"
  shows "schedule s = Ret () s"
  using assms by (auto simp: schedule_def scheduler_next_def process_get_current_def Let_def
      valid_proc_def exec_simps)

lemma scheduler_next_head:
  assumes "queue_ok s (n # qs)"
  shows "scheduler_next s = Ret n s"
  using queue_ok_valid [OF assms, of n] queue_ok_head [OF assms]
  by (auto simp: scheduler_next_def Let_def valid_proc_def exec_simps)

text \<open>A running process goes to the back of the queue, the head runs.\<close>

lemma schedule_rotates:
  assumes q: "queue_ok s (n # qs)" and c: "st s (current s) = Some PROCESS_RUNNING"
    and cv: "current s \<noteq> NULL" "current s \<notin> set (n # qs)"
  shows "\<exists>s'. schedule s = Xfer (switch_between s (current s) n) s' \<and>
    queue_ok s' (qs @ [current s]) \<and> current s' = n \<and> core s' = core s \<and>
    view s' = set_st n PROCESS_RUNNING (set_st (current s) PROCESS_READY (view s))"
proof -
  obtain cr where cr: "procs s (current s) = Some cr" "p_state cr = PROCESS_RUNNING"
    using c by (auto simp: st_def)
  let ?c = "current s"
  let ?s = "upd_proc ?c (p_state_update (\<lambda>_. PROCESS_READY)) s"
  have q1: "queue_ok ?s (n # qs)" using q by simp
  have "valid_proc ?s ?c" using cr cv by (simp add: valid_proc_def)
  then obtain t where t: "scheduler_add ?c ?s = Ret () t" "queue_ok t ((n # qs) @ [?c])" "relinked ?s t"
    using scheduler_add_ok [OF q1 _ cv(2)] by blast
  have tv: "view t = set_st ?c PROCESS_READY (view s)" "core t = core s"
    using t(3) by (simp_all add: relinked_def)
  have cn: "?c \<noteq> n" and ct: "valid_proc t ?c"
    using cv queue_ok_valid [OF t(2), of ?c] by auto
  have "switch_between t ?c n = switch_between s ?c n"
    by (simp add: switch_between_def ctx_of_def tv ctx_set_st)
  then show ?thesis
    using schedule_tail [of t n "qs @ [?c]" ?c] t ct cn cr cv tv queue_ok_valid [OF q, of n]
    by (auto simp: schedule_def process_get_current_def scheduler_next_head [OF q] exec_simps
        valid_proc_def)
qed

text \<open>A process that is no longer running leaves without being queued.\<close>

lemma schedule_leaves:
  assumes q: "queue_ok s (n # qs)" and c: "valid_proc s (current s)"
    and "st s (current s) \<noteq> Some PROCESS_RUNNING" "current s \<noteq> n"
  shows "\<exists>s'. schedule s = Xfer (switch_between s (current s) n) s' \<and>
    queue_ok s' qs \<and> current s' = n \<and> core s' = core s \<and>
    view s' = set_st n PROCESS_RUNNING (view s)"
proof -
  obtain cr where cr: "procs s (current s) = Some cr" "p_state cr \<noteq> PROCESS_RUNNING" "current s \<noteq> NULL"
    using c assms(3) by (auto simp: st_def valid_proc_def)
  then show ?thesis
    using schedule_tail [OF q c assms(4)] assms(4) queue_ok_valid [OF q, of n]
    by (auto simp: schedule_def process_get_current_def scheduler_next_head [OF q] exec_simps
        valid_proc_def)
qed

section \<open>Properties\<close>

text \<open>The ready queue is first in, first out: from an empty queue, adding any distinct
  processes and then taking as many from the head gives them back in the order they were added,
  and leaves the queue empty and every control block as it was but for its link.\<close>

theorem ready_queue_fifo:
  assumes "queue_ok s []" "distinct ps" "\<forall>p \<in> set ps. valid_proc s p"
  shows "\<exists>s'. and_then (enqueue_all scheduler_add ps s)
      (\<lambda>_. serve rq_head scheduler_remove (length ps)) = Ret ps s' \<and>
    queue_ok s' [] \<and> relinked s s'"
  using assms by (rule rq.fifo_order)

definition three_procs :: kstate where
  "three_procs = (boot_state 0x100000)\<lparr>current := 8,
     procs := [8 \<mapsto> zero_process\<lparr>p_state := PROCESS_RUNNING, p_context := 1008\<rparr>,
               16 \<mapsto> zero_process\<lparr>p_pid := 1, p_state := PROCESS_READY, p_context := 1016\<rparr>,
               24 \<mapsto> zero_process\<lparr>p_pid := 2, p_state := PROCESS_READY, p_context := 1024\<rparr>]\<rparr>"

theorem ready_queue_fifo_witness:
  "\<exists>s'. and_then (enqueue_all scheduler_add [24, 16] three_procs)
      (\<lambda>_. serve rq_head scheduler_remove (length [24 :: ptr, 16])) = Ret [24, 16] s'"
proof -
  have "queue_ok three_procs []" by (simp add: queue_ok_def three_procs_def boot_state_def)
  moreover have "\<forall>p \<in> set [24, 16]. valid_proc three_procs p"
    by (simp add: valid_proc_def three_procs_def)
  moreover have "distinct [24 :: ptr, 16]" by simp
  ultimately show ?thesis using ready_queue_fifo by blast
qed

text \<open>\<open>scheduler_remove\<close> always ends on a well-formed queue and takes out exactly the given
  process, keeping the order of the others; the tail pointer follows. A process that is not
  queued is not touched.\<close>

theorem scheduler_remove_correct:
  assumes "queue_ok s qs"
  shows "\<exists>s'. scheduler_remove p s = Ret () s' \<and> queue_ok s' (remove1 p qs) \<and> relinked s s' \<and>
    (p \<notin> set qs \<longrightarrow> s' = s)"
  using scheduler_remove_ok [OF assms, of p] scheduler_remove_absent [OF assms, of p] by auto

definition queued_procs :: kstate where
  "queued_procs = three_procs\<lparr>rq_head := 16, rq_tail := 24,
     procs := (procs three_procs)
       (16 \<mapsto> zero_process\<lparr>p_pid := 1, p_state := PROCESS_READY, p_context := 1016, p_next := 24\<rparr>)\<rparr>"

lemma queued_procs_ok: "queue_ok queued_procs [16, 24]"
  by (simp add: queue_ok_def queued_procs_def three_procs_def boot_state_def zero_process_def)

theorem scheduler_remove_correct_witness:
  "\<exists>s'. scheduler_remove 24 queued_procs = Ret () s' \<and> queue_ok s' [16] \<and> rq_tail s' = 16"
  using scheduler_remove_correct [OF queued_procs_ok, of 24] by (auto simp: queue_ok_def)

text \<open>The order in which processes run: the current one, then the queue.\<close>

definition sched_ok :: "kstate \<Rightarrow> ptr list \<Rightarrow> bool" where
  "sched_ok s L \<longleftrightarrow> (\<exists>qs. L = current s # qs \<and> queue_ok s qs \<and> distinct L \<and> current s \<noteq> NULL \<and>
     st s (current s) = Some PROCESS_RUNNING \<and> (\<forall>q \<in> set qs. st s q = Some PROCESS_READY))"

fun schedule_n :: "nat \<Rightarrow> kstate \<Rightarrow> kstate option" where
  "schedule_n 0 s = Some s"
| "schedule_n (Suc n) s =
     (case exec_state (schedule s) of None \<Rightarrow> None | Some s' \<Rightarrow> schedule_n n s')"

lemma sched_ok_step:
  assumes "sched_ok s L"
  shows "\<exists>s'. exec_state (schedule s) = Some s' \<and> sched_ok s' (rotate1 L) \<and> core s' = core s"
proof -
  obtain qs where L: "L = current s # qs" "queue_ok s qs" "distinct L" "current s \<noteq> NULL"
    "st s (current s) = Some PROCESS_RUNNING" "\<forall>q \<in> set qs. st s q = Some PROCESS_READY"
    using assms by (auto simp: sched_ok_def)
  show ?thesis
  proof (cases qs)
    case Nil
    then have "valid_proc s (current s)" using L by (auto simp: valid_proc_def st_def)
    then show ?thesis using schedule_empty [of s] L assms Nil by auto
  next
    case (Cons n ns)
    obtain s' where s': "schedule s = Xfer (switch_between s (current s) n) s'"
      "queue_ok s' (ns @ [current s])" "current s' = n" "core s' = core s"
      "view s' = set_st n PROCESS_RUNNING (set_st (current s) PROCESS_READY (view s))"
      using schedule_rotates [of s n ns] L Cons by auto
    have "st s' n = Some PROCESS_RUNNING" "st s' (current s) = Some PROCESS_READY"
      "\<forall>q \<in> set ns. st s' q = Some PROCESS_READY"
      using L Cons by (auto simp: st_view s'(5) set_st_def)
    moreover have "n \<noteq> NULL" using L Cons queue_ok_valid [of s qs n] by (simp add: valid_proc_def)
    ultimately show ?thesis using s' L Cons by (auto simp: sched_ok_def)
  qed
qed

text \<open>C5. The FIFO scheduler is a round robin: when every queued process is ready and the current
  one is running, \<open>k\<close> calls of \<open>schedule\<close> rotate the running order \<open>k\<close> times, whatever \<open>k\<close>. So
  every queued process runs, at the latest after as many calls as there are processes, and no
  process is lost or run twice in between.\<close>

theorem schedule_round_robin:
  assumes "sched_ok s L"
  shows "\<exists>s'. schedule_n k s = Some s' \<and> sched_ok s' (rotate k L)"
  using assms
proof (induction k arbitrary: s L)
  case 0
  then show ?case by simp
next
  case (Suc k)
  obtain s1 where s1: "exec_state (schedule s) = Some s1" "sched_ok s1 (rotate1 L)"
    using sched_ok_step [OF Suc.prems] by blast
  then show ?case using Suc.IH [OF s1(2)] by (simp add: rotate1_rotate_swap)
qed

lemma queued_procs_sched: "sched_ok queued_procs [8, 16, 24]"
  using queued_procs_ok
  by (auto simp: sched_ok_def queued_procs_def three_procs_def boot_state_def st_def zero_process_def)

theorem schedule_round_robin_witness:
  "\<exists>s'. schedule_n 2 queued_procs = Some s' \<and> current s' = 24"
proof -
  have "rotate 2 [8, 16, 24] = [24, 8, 16 :: ptr]" by code_simp
  then show ?thesis
    using schedule_round_robin [OF queued_procs_sched, of 2] by (auto simp: sched_ok_def)
qed

lemma wake_blocked:
  assumes "queue_ok s qs" "valid_proc s p" "p \<notin> set qs" "st s p = Some PROCESS_BLOCKED"
  shows "\<exists>s'. scheduler_wake p s = Ret () s' \<and> queue_ok s' (qs @ [p]) \<and>
    view s' = set_st p PROCESS_READY (view s) \<and> core s' = core s \<and> current s' = current s"
proof -
  obtain pr where pr: "procs s p = Some pr" "p_state pr = PROCESS_BLOCKED" "p \<noteq> NULL"
    using assms(2,4) by (auto simp: st_def valid_proc_def)
  let ?s = "upd_proc p (p_state_update (\<lambda>_. PROCESS_READY)) s"
  obtain s' where "scheduler_add p ?s = Ret () s'" "queue_ok s' (qs @ [p])" "relinked ?s s'"
    using scheduler_add_ok [of ?s qs p] assms pr by (auto simp: valid_proc_def)
  then show ?thesis using pr by (auto simp: scheduler_wake_def exec_simps relinked_def)
qed

lemma wake_other:
  assumes "valid_proc s p" "st s p \<noteq> Some PROCESS_BLOCKED"
  shows "scheduler_wake p s = Ret () s"
  using assms by (auto simp: scheduler_wake_def st_def valid_proc_def exec_simps)

lemma block_switches:
  assumes "queue_ok s (n # ns)" "valid_proc s (current s)" "current s \<noteq> n"
  shows "\<exists>s'. scheduler_block s = Xfer (switch_between s (current s) n) s' \<and> queue_ok s' ns \<and>
    current s' = n \<and> core s' = core s \<and>
    view s' = set_st n PROCESS_RUNNING (set_st (current s) PROCESS_BLOCKED (view s))"
proof -
  let ?s = "upd_proc (current s) (p_state_update (\<lambda>_. PROCESS_BLOCKED)) s"
  have v: "valid_proc ?s (current ?s)" "st ?s (current ?s) \<noteq> Some PROCESS_RUNNING" "current ?s \<noteq> n"
    using assms by (auto simp: valid_proc_def st_def)
  have "switch_between ?s (current s) n = switch_between s (current s) n"
    by (simp add: switch_between_def ctx_of_def ctx_set_st)
  then show ?thesis
    using schedule_leaves [of ?s n ns, OF _ v] assms
    by (auto simp: scheduler_block_def process_get_current_def deref_def valid_proc_def)
qed

text \<open>A process that blocks itself while another is queued is switched away from: it is marked
  blocked, is not queued, and the head of the queue runs. Waking it later marks it ready and puts
  it at the back of the queue; waking a process that is not blocked does nothing.\<close>

theorem block_and_wake:
  assumes "queue_ok s (n # ns)" "valid_proc s (current s)" "current s \<notin> set (n # ns)"
  shows "\<exists>s'. scheduler_block s = Xfer (switch_between s (current s) n) s' \<and>
    queue_ok s' ns \<and> current s' = n \<and> st s' (current s) = Some PROCESS_BLOCKED \<and>
    scheduler_wake n s' = Ret () s' \<and>
    (\<exists>s''. scheduler_wake (current s) s' = Ret () s'' \<and> queue_ok s'' (ns @ [current s]) \<and>
       current s'' = n \<and> st s'' (current s) = Some PROCESS_READY)"
proof -
  let ?c = "current s"
  obtain s' where s': "scheduler_block s = Xfer (switch_between s ?c n) s'" "queue_ok s' ns"
    "current s' = n" "view s' = set_st n PROCESS_RUNNING (set_st ?c PROCESS_BLOCKED (view s))"
    using block_switches [OF assms(1,2)] assms(3) by auto
  have v: "valid_proc s' ?c" "valid_proc s' n" "?c \<noteq> n" "?c \<notin> set ns"
    using assms queue_ok_valid [OF assms(1), of n] by (auto simp: valid_proc_view s'(4))
  have b: "st s' ?c = Some PROCESS_BLOCKED" "st s' n = Some PROCESS_RUNNING"
    using v assms(2) queue_ok_valid [OF assms(1), of n]
    by (auto simp: st_view s'(4) valid_proc_view)
  obtain s'' where "scheduler_wake ?c s' = Ret () s''" "queue_ok s'' (ns @ [?c])"
    "view s'' = set_st ?c PROCESS_READY (view s')" "current s'' = current s'"
    using wake_blocked [OF s'(2) v(1,4) b(1)] by blast
  moreover have "st s'' ?c = Some PROCESS_READY"
    using calculation(3) v(1) by (simp add: st_view valid_proc_view)
  ultimately show ?thesis using s' b wake_other [OF v(2)] by auto
qed

theorem block_and_wake_witness:
  "\<exists>s' s''. scheduler_block queued_procs = Xfer (Context_switch 1008 1016) s' \<and> current s' = 16 \<and>
     scheduler_wake 8 s' = Ret () s'' \<and> queue_ok s'' [24, 8]"
proof -
  have "switch_between queued_procs 8 16 = Context_switch 1008 1016"
    by (simp add: switch_between_def ctx_of_def view_def queued_procs_def three_procs_def)
  moreover have "current queued_procs = 8" "valid_proc queued_procs 8"
    by (simp_all add: queued_procs_def three_procs_def valid_proc_def)
  ultimately show ?thesis using block_and_wake [OF queued_procs_ok] by auto
qed

text \<open>\<open>schedule\<close> dereferences the previous process without checking it: with no current process
  and a non-empty queue it has already made the head the running process when it faults on the
  null pointer, before the branch that was meant to handle this case.\<close>

theorem schedule_without_current:
  assumes "queue_ok s (n # qs)" "current s = NULL"
  shows "schedule s = Crash NullDeref"
proof -
  have n: "valid_proc s n" using queue_ok_valid [OF assms(1)] by simp
  let ?t = "process_set_current n (upd_proc n (p_state_update (\<lambda>_. PROCESS_RUNNING)) s)"
  have "queue_ok ?t (n # qs)" using assms by (simp add: process_set_current_def)
  then obtain s' where "scheduler_remove n ?t = Ret () s'" using scheduler_remove_head by blast
  then show ?thesis
    using n assms
    by (auto simp: schedule_def process_get_current_def scheduler_next_head [OF assms(1)]
        valid_proc_def exec_simps)
qed

theorem schedule_without_current_witness:
  "schedule (queued_procs\<lparr>current := NULL\<rparr>) = Crash NullDeref"
  using schedule_without_current [of "queued_procs\<lparr>current := NULL\<rparr>" 16 "[24]"] queued_procs_ok
  by simp

end
