(* ===== verification/Process.thy ===== *)
theory Process
  imports Scheduler
begin

text \<open>
  Process management, \<open>kernel/process/process.c\<close>: creating, ending and reaping processes, the
  timer, and the shortest-job-first scheduler. Each function is one definition over \<open>kstate\<close>;
  an early return, a failed allocation and a bad pointer are its branches.
\<close>

section \<open>Tables\<close>

definition COUNTER_INIT_VALUES :: "u32 list" where
  "COUNTER_INIT_VALUES = [0, 4, 3, 2, 1]"

definition KERNEL_STACK_SIZE :: u64 where
  "KERNEL_STACK_SIZE = 4096"

definition put_proc :: "ptr \<Rightarrow> process_t \<Rightarrow> kstate \<Rightarrow> kstate" where
  "put_proc p pr s = s\<lparr>procs := (procs s)(p \<mapsto> pr)\<rparr>"

definition put_ctx :: "ptr \<Rightarrow> context_t \<Rightarrow> kstate \<Rightarrow> kstate" where
  "put_ctx p c s = s\<lparr>ctxs := (ctxs s)(p \<mapsto> c)\<rparr>"

definition put_regs :: "ptr \<Rightarrow> pt_regs_t \<Rightarrow> kstate \<Rightarrow> kstate" where
  "put_regs p r s = s\<lparr>ptregs := (ptregs s)(p \<mapsto> r)\<rparr>"

section \<open>Initialisation and accessors\<close>

definition process_init :: "kstate \<Rightarrow> (unit, kstate) exec" where
  "process_init s =
     (case kmalloc sizeof_process s of (idle, s) \<Rightarrow>
      if idle = NULL then Ret () s
      else
        let s = put_proc idle (zero_process\<lparr>p_pid := 0, p_state := PROCESS_RUNNING\<rparr>) s
        in case kmalloc KERNEL_STACK_SIZE s of (kstack, s) \<Rightarrow>
        if kstack = NULL then Ret () (kfree idle s)
        else
          let s = upd_proc idle (\<lambda>pr. pr\<lparr>p_kernel_stack := kstack, p_flags := 0,
                                          p_name := ''idle''\<rparr>) s
          in case kmalloc sizeof_context s of (ctx, s) \<Rightarrow>
          if ctx = NULL then Ret () (kfree idle (kfree kstack s))
          else
            let s = upd_proc idle (\<lambda>pr. pr\<lparr>p_context := ctx\<rparr>) s;
                s = put_ctx ctx zero_context s;
                s = s\<lparr>current := idle, task := (task s)[0 := idle], task_count := 1\<rparr>
            in Ret () (scheduler_init s))"

definition process_set_state :: "ptr \<Rightarrow> process_state_t \<Rightarrow> kstate \<Rightarrow> (unit, kstate) exec" where
  "process_set_state proc new_state s =
     (if proc \<noteq> NULL
      then deref s proc (\<lambda>_. Ret () (upd_proc proc (p_state_update (\<lambda>_. new_state)) s))
      else Ret () s)"

fun process_state_to_string :: "process_state_t \<Rightarrow> string" where
  "process_state_to_string PROCESS_CREATED = ''CREATED''"
| "process_state_to_string PROCESS_READY = ''READY''"
| "process_state_to_string PROCESS_RUNNING = ''RUNNING''"
| "process_state_to_string PROCESS_BLOCKED = ''BLOCKED''"
| "process_state_to_string PROCESS_TERMINATED = ''TERMINATED''"

definition process_is_alive :: "ptr \<Rightarrow> kstate \<Rightarrow> (bool, kstate) exec" where
  "process_is_alive proc s =
     (if proc = NULL then Ret False s
      else deref s proc (\<lambda>pr. Ret (p_state pr \<noteq> PROCESS_TERMINATED) s))"

section \<open>Creating a process\<close>

text \<open>\<open>snprintf(proc->name, 32, "proc-%d", pid)\<close>: at most 31 characters are kept.\<close>

definition proc_name :: "s32 \<Rightarrow> string" where
  "proc_name pid = take 31 (''proc-'' @ dec_int (sint pid))"

definition task_insert :: "ptr \<Rightarrow> kstate \<Rightarrow> kstate" where
  "task_insert proc s =
     (case first_null (task s) of
        None \<Rightarrow> s
      | Some i \<Rightarrow> s\<lparr>task := (task s)[i := proc],
                   task_count := (if i \<ge> task_count s then i + 1 else task_count s)\<rparr>)"

definition process_create :: "ptr \<Rightarrow> ptr \<Rightarrow> u32 \<Rightarrow> kstate \<Rightarrow> (s32, kstate) exec" where
  "process_create entry arg priority s =
     (if entry = NULL then Ret (- 1) s
      else if task_count s \<ge> 64 then Ret (- 1) s
      else case kmalloc sizeof_process s of (proc, s) \<Rightarrow>
      if proc = NULL then Ret (- 1) s
      else
        let pid = next_pid s;
            s = s\<lparr>next_pid := next_pid s + 1\<rparr>;
            prio = (if priority < 5 then priority else 4);
            s = put_proc proc (zero_process\<lparr>p_pid := pid, p_state := PROCESS_CREATED,
                  p_priority := prio, p_counter := COUNTER_INIT_VALUES ! unat prio\<rparr>) s
        in case kmalloc KERNEL_STACK_SIZE s of (kstack, s) \<Rightarrow>
        if kstack = NULL then Ret (- 1) (kfree proc s)
        else
          let s = upd_proc proc (\<lambda>pr. pr\<lparr>p_kernel_stack := kstack\<rparr>) s
          in case kmalloc sizeof_context s of (ctx, s) \<Rightarrow>
          if ctx = NULL then Ret (- 1) (kfree proc (kfree kstack s))
          else
            let s = upd_proc proc (\<lambda>pr. pr\<lparr>p_context := ctx\<rparr>) s;
                s = put_ctx ctx (context_init entry arg (kstack + KERNEL_STACK_SIZE)) s
            in case kmalloc sizeof_pt_regs s of (rg, s) \<Rightarrow>
            if rg = NULL then Ret (- 1) (kfree proc (kfree kstack (kfree ctx s)))
            else
              let s = put_regs rg zero_pt_regs s;
                  s = upd_proc proc (\<lambda>pr. pr\<lparr>p_pt_regs := rg, p_parent := current s,
                        p_name := proc_name pid, p_creation_time := 0\<rparr>) s
              in and_then (process_set_state proc PROCESS_READY s) (\<lambda>_ s.
                 and_then (scheduler_add proc (task_insert proc s)) (\<lambda>_ s. Ret pid s)))"

section \<open>Ending and reaping a process\<close>

fun wake_blocked_tasks :: "ptr list \<Rightarrow> kstate \<Rightarrow> (unit, kstate) exec" where
  "wake_blocked_tasks [] s = Ret () s"
| "wake_blocked_tasks (p # ps) s =
     (if p = NULL then wake_blocked_tasks ps s
      else deref s p (\<lambda>pr.
        if p_state pr = PROCESS_BLOCKED \<and> 0 < sint (p_pid pr)
        then and_then (scheduler_wake p s) (\<lambda>_ s. wake_blocked_tasks ps s)
        else wake_blocked_tasks ps s))"

definition process_exit :: "s32 \<Rightarrow> kstate \<Rightarrow> (unit, kstate) exec" where
  "process_exit exit_code s =
     (if current s = NULL then Ret () s
      else deref s (current s) (\<lambda>c.
        if p_pid c = 0 then Ret () s
        else
          let cur = current s;
              s = upd_proc cur (p_exit_code_update (\<lambda>_. exit_code)) s
          in
          and_then (process_set_state cur PROCESS_TERMINATED s) (\<lambda>_ s.
          and_then
            (if p_mm c \<noteq> NULL
             then and_then (mm_destroy (p_mm c) s)
                    (\<lambda>_ s. Ret () (upd_proc cur (p_mm_update (\<lambda>_. NULL)) s))
             else Ret () s)
            (\<lambda>_ s.
              let s = (if p_pt_regs c \<noteq> NULL
                       then upd_proc cur (p_pt_regs_update (\<lambda>_. NULL)) (kfree (p_pt_regs c) s)
                       else s)
              in and_then (scheduler_remove cur s) (\<lambda>_ s.
                 and_then (wake_blocked_tasks (take (task_count s) (task s)) s) (\<lambda>_ s.
                 and_then (schedule s) (\<lambda>_ s. Spin s)))))))"

fun find_task :: "ptr list \<Rightarrow> s32 \<Rightarrow> kstate \<Rightarrow> (ptr, kstate) exec" where
  "find_task [] pid s = Ret NULL s"
| "find_task (p # ps) pid s =
     (if p = NULL then find_task ps pid s
      else deref s p (\<lambda>pr. if p_pid pr = pid then Ret p s else find_task ps pid s))"

definition task_remove :: "ptr \<Rightarrow> kstate \<Rightarrow> kstate" where
  "task_remove target s =
     (let n = task_count s
      in s\<lparr>task := clear_first target (take n (task s)) @ drop n (task s)\<rparr>)"

definition task_recount :: "kstate \<Rightarrow> kstate" where
  "task_recount s =
     (let new_count = count_used 0 0 (take (task_count s) (task s))
      in s\<lparr>task_count := (if new_count > 0 then new_count else 1)\<rparr>)"

text \<open>The part of \<open>process_wait\<close> after the target is known to have terminated; the second component
  of the result is what is written through \<open>exit_code\<close>, if that pointer is not null.\<close>

definition process_reap :: "ptr \<Rightarrow> bool \<Rightarrow> kstate \<Rightarrow> (s32 \<times> s32 option, kstate) exec" where
  "process_reap target want_code s =
     deref s target (\<lambda>t.
       let s = (if p_context t \<noteq> NULL then kfree (p_context t) s else s);
           s = (if p_kernel_stack t \<noteq> NULL then free_kernel_stack (p_kernel_stack t) s else s);
           s = task_remove target s;
           s = kfree target s;
           s = task_recount s
       in Ret (0, if want_code then Some (p_exit_code t) else None) s)"

definition process_wait :: "s32 \<Rightarrow> bool \<Rightarrow> kstate \<Rightarrow> (s32 \<times> s32 option, kstate) exec" where
  "process_wait pid want_code s =
     (if current s = NULL then Ret (- 1, None) s
      else deref s (current s) (\<lambda>c.
        if p_pid c = 0 then Ret (- 1, None) s
        else if p_pid c = pid then Ret (- 1, None) s
        else and_then (find_task (take (task_count s) (task s)) pid s) (\<lambda>target s.
        if target = NULL then Ret (- 1, None) s
        else deref s target (\<lambda>t.
          if p_state t \<noteq> PROCESS_TERMINATED then
            and_then (schedule (upd_proc (current s) (p_state_update (\<lambda>_. PROCESS_BLOCKED)) s))
              (\<lambda>_ s. and_then (find_task (take (task_count s) (task s)) pid s) (\<lambda>target s.
                if target = NULL then Ret (- 1, None) s
                else deref s target (\<lambda>t.
                  if p_state t \<noteq> PROCESS_TERMINATED then Ret (- 1, None) s
                  else process_reap target want_code s)))
          else process_reap target want_code s))))"

section \<open>The timer\<close>

definition do_timer :: "kstate \<Rightarrow> (unit, kstate) exec" where
  "do_timer s =
     (if current s = NULL then Ret () s
      else deref s (current s) (\<lambda>c.
        let cur = current s;
            s = upd_proc cur (\<lambda>pr. pr\<lparr>p_cpu_time := p_cpu_time pr + 1\<rparr>) s;
            s = (if p_counter c > 0
                 then upd_proc cur (\<lambda>pr. pr\<lparr>p_counter := p_counter pr - 1\<rparr>) s else s)
        in deref s cur (\<lambda>c. if p_counter c = 0 then schedule s else Ret () s)))"

section \<open>Shortest job first\<close>

definition switch_to :: "ptr \<Rightarrow> kstate \<Rightarrow> (unit, kstate) exec" where
  "switch_to nx s =
     (if nx = NULL then Ret () s
      else if current s = NULL then Ret () s
      else if current s = nx then deref s nx (\<lambda>_. Ret () s)
      else
        let prev = current s;
            s = s\<lparr>current := nx\<rparr>
        in deref s prev (\<lambda>pv.
           let s = (if p_state pv = PROCESS_RUNNING
                    then upd_proc prev (p_state_update (\<lambda>_. PROCESS_READY)) s else s)
           in deref s nx (\<lambda>n.
              let s = upd_proc nx (p_state_update (\<lambda>_. PROCESS_RUNNING)) s
              in if p_context pv = NULL \<or> p_context n = NULL then Ret () s
                 else Xfer (Context_switch (p_context pv) (p_context n)) s)))"

text \<open>The first loop: the index of the ready task with the least positive counter, 0 if none.\<close>

fun sjf_scan :: "nat \<Rightarrow> ptr list \<Rightarrow> nat \<Rightarrow> u32 \<Rightarrow> kstate \<Rightarrow> fault + nat" where
  "sjf_scan i [] nx min_counter s = Inr nx"
| "sjf_scan i (p # ps) nx min_counter s =
     (if p = NULL then sjf_scan (Suc i) ps nx min_counter s
      else case procs s p of
        None \<Rightarrow> Inl BadPtr
      | Some pr \<Rightarrow>
          if p_state pr = PROCESS_READY \<and> p_counter pr > 0 \<and> p_counter pr < min_counter
          then sjf_scan (Suc i) ps i (p_counter pr) s
          else sjf_scan (Suc i) ps nx min_counter s)"

text \<open>The second loop: refresh the time slice of every ready task, counting them.\<close>

fun sjf_refresh :: "ptr list \<Rightarrow> nat \<Rightarrow> kstate \<Rightarrow> fault + (nat \<times> kstate)" where
  "sjf_refresh [] ready_count s = Inr (ready_count, s)"
| "sjf_refresh (p # ps) ready_count s =
     (if p = NULL then sjf_refresh ps ready_count s
      else case procs s p of
        None \<Rightarrow> Inl BadPtr
      | Some pr \<Rightarrow>
          if p_state pr = PROCESS_READY
          then sjf_refresh ps (Suc ready_count)
                 (upd_proc p (\<lambda>pr. pr\<lparr>p_counter := COUNTER_INIT_VALUES ! (unat (p_priority pr) mod 5)\<rparr>) s)
          else sjf_refresh ps ready_count s)"

text \<open>\<open>schedule_sjf\<close> calls itself after a refresh; \<open>None\<close> is a recursion that does not end.\<close>

partial_function (option) schedule_sjf :: "kstate \<Rightarrow> (unit, kstate) exec option" where
  "schedule_sjf s =
     (if current s = NULL then Some (Ret () s)
      else case sjf_scan 1 (drop 1 (take (task_count s) (task s))) 0 0xFFFFFFFF s of
        Inl f \<Rightarrow> Some (Crash f)
      | Inr nx \<Rightarrow>
          if nx = 0 then
            (case sjf_refresh (drop 1 (take (task_count s) (task s))) 0 s of
               Inl f \<Rightarrow> Some (Crash f)
             | Inr (ready_count, s) \<Rightarrow>
                 if ready_count > 0 then schedule_sjf s
                 else Some (deref s (current s) (\<lambda>c.
                        if p_pid c \<noteq> 0 then switch_to (task s ! 0) s else Ret () s)))
          else Some (switch_to (task s ! nx) s))"

end
