(* ===== verification/Process_Inv.thy ===== *)
theory Process_Inv
  imports Process
begin

text \<open>
  The invariant of the process subsystem and its preservation by every operation of
  \<open>process.c\<close> and \<open>scheduler.c\<close> that runs under the FIFO policy. It ties the four places
  that describe a process (its control block, the task table, the ready queue, \<open>current\<close>)
  to each other.
\<close>

section \<open>The invariant\<close>

definition tasks :: "kstate \<Rightarrow> ptr set" where
  "tasks s = set (used_slots (task s))"

definition idle_task :: "kstate \<Rightarrow> ptr" where
  "idle_task s = task s ! 0"

definition pid_of :: "kstate \<Rightarrow> ptr \<Rightarrow> s32" where
  "pid_of s p = (case view s p of None \<Rightarrow> - 1 | Some pr \<Rightarrow> p_pid pr)"

definition in_heap :: "kstate \<Rightarrow> ptr \<Rightarrow> bool" where
  "in_heap s p \<longleftrightarrow> unat p \<in> kmem_owned s"

text \<open>Memory: the allocator's invariant; every object lies in memory handed out; each process
  number ever used has paid for a control block.\<close>

definition mem_ok :: "kstate \<Rightarrow> bool" where
  "mem_ok s \<longleftrightarrow> kmem_inv s \<and> (\<forall>p. view s p \<noteq> None \<longrightarrow> in_heap s p) \<and>
     (\<forall>p. ctxs s p \<noteq> None \<longrightarrow> in_heap s p) \<and>
     next_pid s \<noteq> 0 \<and> 168 * (unat (next_pid s) - 1) \<le> unat (heap_used s)"

text \<open>What the invariant needs to know of a single control block.\<close>

definition proc_ok :: "kstate \<Rightarrow> process_t \<Rightarrow> bool" where
  "proc_ok s pr \<longleftrightarrow> p_context pr \<noteq> NULL \<and> ctxs s (p_context pr) \<noteq> None \<and> p_mm pr = NULL \<and>
     unat (p_pid pr) < unat (next_pid s)"

text \<open>The task table: 64 slots, free from \<open>task_count\<close> on, no process twice, the idle process
  in slot 0 and the only one with process number 0, all process numbers different.\<close>

definition table_ok :: "kstate \<Rightarrow> bool" where
  "table_ok s \<longleftrightarrow> length (task s) = 64 \<and> 0 < task_count s \<and> task_count s \<le> 64 \<and>
     (\<forall>i < 64. task_count s \<le> i \<longrightarrow> task s ! i = NULL) \<and>
     distinct (used_slots (task s)) \<and> idle_task s \<noteq> NULL \<and> pid_of s (idle_task s) = 0 \<and>
     (\<forall>p \<in> tasks s. \<exists>pr. view s p = Some pr \<and> proc_ok s pr) \<and> inj_on (pid_of s) (tasks s)"

text \<open>Scheduling: the queue is a well-linked list of tasks; a task is ready exactly when it is
  queued, and running exactly when it is in \<open>R\<close> (the current process, or no process while the
  current one is being left); the idle process is one of these.\<close>

definition run_ok :: "kstate \<Rightarrow> ptr list \<Rightarrow> ptr set \<Rightarrow> bool" where
  "run_ok s qs R \<longleftrightarrow> queue_ok s qs \<and> set qs \<subseteq> tasks s \<and> current s \<in> tasks s \<and>
     current s \<notin> set qs \<and>
     (\<forall>p \<in> tasks s. (st s p = Some PROCESS_READY \<longleftrightarrow> p \<in> set qs) \<and>
                     (st s p = Some PROCESS_RUNNING \<longleftrightarrow> p \<in> R)) \<and>
     idle_task s \<in> set qs \<union> R"

definition proc_inv :: "kstate \<Rightarrow> ptr list \<Rightarrow> bool" where
  "proc_inv s qs \<longleftrightarrow> mem_ok s \<and> table_ok s \<and> run_ok s qs {current s}"

text \<open>A process is being switched away from: it is neither running nor queued.\<close>

definition leaving :: "kstate \<Rightarrow> ptr list \<Rightarrow> bool" where
  "leaving s qs \<longleftrightarrow> mem_ok s \<and> table_ok s \<and> run_ok s qs {}"

section \<open>Facts that survive a change of the control blocks\<close>

text \<open>Two states agree on what the memory and table parts of the invariant read.\<close>

definition static :: "process_t \<Rightarrow> s32 \<times> ptr \<times> ptr \<times> ptr" where
  "static pr = (p_pid pr, p_context pr, p_mm pr, p_kernel_stack pr)"

text \<open>A control block without its state: what changes of state leave alone.\<close>

definition unstated :: "process_t \<Rightarrow> process_t" where
  "unstated pr = pr\<lparr>p_state := PROCESS_CREATED\<rparr>"

definition same_table :: "kstate \<Rightarrow> kstate \<Rightarrow> bool" where
  "same_table s s' \<longleftrightarrow> heap_addr s' = heap_addr s \<and> heap_used s' = heap_used s \<and>
     next_pid s' = next_pid s \<and> task s' = task s \<and> task_count s' = task_count s \<and>
     ctxs s' = ctxs s \<and>
     (\<forall>p. map_option static (view s' p) = map_option static (view s p))"

lemma static_eq:
  "static a = static b \<longleftrightarrow> p_pid a = p_pid b \<and> p_context a = p_context b \<and> p_mm a = p_mm b \<and>
     p_kernel_stack a = p_kernel_stack b"
  by (simp add: static_def)

lemma same_tableD:
  assumes "same_table s s'"
  shows "heap_addr s' = heap_addr s" "heap_used s' = heap_used s" "next_pid s' = next_pid s"
    "task s' = task s" "task_count s' = task_count s" "ctxs s' = ctxs s"
  using assms unfolding same_table_def by blast+

lemma same_table_view:
  assumes "same_table s s'"
  shows "view s p = None \<Longrightarrow> view s' p = None"
    and "view s p = Some pr \<Longrightarrow> \<exists>pr'. view s' p = Some pr' \<and> static pr' = static pr"
proof -
  have e: "map_option static (view s' p) = map_option static (view s p)"
    using assms by (simp add: same_table_def)
  show "view s p = None \<Longrightarrow> view s' p = None" using e by (metis option.map_disc_iff)
  show "view s p = Some pr \<Longrightarrow> \<exists>pr'. view s' p = Some pr' \<and> static pr' = static pr"
    using e by (metis map_option_eq_Some option.simps(9))
qed

lemma same_table_trans: "same_table s t \<Longrightarrow> same_table t u \<Longrightarrow> same_table s u"
  by (simp add: same_table_def)

lemma same_table_tasks:
  assumes "same_table s s'"
  shows "tasks s' = tasks s" "idle_task s' = idle_task s"
  using assms by (simp_all add: same_table_def tasks_def idle_task_def)

lemma same_table_pid:
  assumes "same_table s s'"
  shows "pid_of s' p = pid_of s p"
proof (cases "view s p")
  case None
  then have "view s' p = None" by (rule same_table_view(1) [OF assms])
  with None show ?thesis unfolding pid_of_def by (simp only: option.case)
next
  case (Some pr)
  then show ?thesis using same_table_view(2) [OF assms Some] by (auto simp: pid_of_def static_eq)
qed

lemma same_table_ctx:
  assumes "same_table s s'"
  shows "ctx_of s' p = ctx_of s p"
proof (cases "view s p")
  case None
  then have "view s' p = None" by (rule same_table_view(1) [OF assms])
  with None show ?thesis unfolding ctx_of_def by (simp only: option.case)
next
  case (Some pr)
  then show ?thesis using same_table_view(2) [OF assms Some] by (auto simp: ctx_of_def static_eq)
qed

lemma same_table_mem:
  assumes t: "same_table s s'" and m: "mem_ok s"
  shows "mem_ok s'"
proof -
  note d = same_tableD [OF t]
  have h: "in_heap s' p = in_heap s p" for p
    unfolding in_heap_def kmem_owned_def d ..
  have k: "kmem_inv s' = kmem_inv s" unfolding kmem_inv_def d ..
  have v: "view s' p \<noteq> None \<Longrightarrow> view s p \<noteq> None" for p
    using same_table_view(1) [OF t, of p] by (cases "view s p = None") simp_all
  show ?thesis using m v unfolding mem_ok_def d h k by simp
qed

lemma table_procD:
  assumes "table_ok s" "p \<in> tasks s"
  obtains pr where "view s p = Some pr" "proc_ok s pr"
proof -
  have "\<exists>pr. view s p = Some pr \<and> proc_ok s pr"
    by (rule bspec [OF _ assms(2)]) (use assms(1) in \<open>simp add: table_ok_def\<close>)
  then show thesis using that by (elim exE conjE)
qed

lemma same_table_table:
  assumes t: "same_table s s'" and ok: "table_ok s"
  shows "table_ok s'"
proof -
  note d = same_tableD [OF t]
  have v: "\<exists>pr. view s' p = Some pr \<and> proc_ok s' pr" if p: "p \<in> tasks s" for p
  proof -
    obtain pr where pr: "view s p = Some pr" "proc_ok s pr"
      by (rule table_procD [OF ok p])
    obtain pr' where p': "view s' p = Some pr'" "static pr' = static pr"
      using same_table_view(2) [OF t pr(1)] by (elim exE conjE)
    have "proc_ok s' pr'" using pr(2) p'(2) unfolding proc_ok_def static_eq d by simp
    with p'(1) show ?thesis by blast
  qed
  have "pid_of s' = pid_of s" using same_table_pid [OF t] by blast
  then show ?thesis
    using ok v unfolding table_ok_def d same_table_tasks [OF t] by simp
qed

lemma same_tableI:
  assumes "core s' = core s"
    and "\<And>p. map_option static (view s' p) = map_option static (view s p)"
  shows "same_table s s'"
  using assms core_eqD [OF assms(1)] by (simp add: same_table_def)

lemma static_set_st [simp]: "map_option static (set_st p x v q) = map_option static (v q)"
  by (cases "v q") (auto simp: set_st_def static_def)

lemma unstated_set_st [simp]: "map_option unstated (set_st p x v q) = map_option unstated (v q)"
  by (cases "v p") (auto simp: set_st_def unstated_def)

lemma tasks_valid:
  assumes "table_ok s" "p \<in> tasks s"
  shows "valid_proc s p"
proof -
  obtain pr where "view s p = Some pr" by (rule table_procD [OF assms])
  moreover have "p \<noteq> NULL" using assms(2) by (simp add: tasks_def used_slots_def)
  ultimately show ?thesis unfolding valid_proc_view by simp
qed

lemma idle_in_tasks:
  assumes "table_ok s"
  shows "idle_task s \<in> tasks s"
  using assms by (auto simp: table_ok_def tasks_def used_slots_def idle_task_def)

lemma pid_zero_idle:
  assumes "table_ok s" "p \<in> tasks s"
  shows "pid_of s p = 0 \<longleftrightarrow> p = idle_task s"
  using assms idle_in_tasks [OF assms(1)] by (auto simp: table_ok_def inj_on_def)

lemma tasks_take:
  assumes "table_ok s"
  shows "used_slots (take (task_count s) (task s)) = used_slots (task s)"
proof -
  have "used_slots (drop (task_count s) (task s)) = []"
    using assms by (auto simp: table_ok_def used_slots_def filter_empty_conv in_set_conv_nth)
  then show ?thesis
    by (metis append_Nil2 append_take_drop_id filter_append used_slots_def)
qed

section \<open>Leaving the current process\<close>

text \<open>A run state after the states of some tasks have changed.\<close>

lemma run_okI:
  assumes "same_table s s'" "queue_ok s' qs'" "set qs' \<subseteq> tasks s"
    and "current s' \<in> tasks s" "current s' \<notin> set qs'" "idle_task s \<in> set qs' \<union> R'"
    and "\<And>p. p \<in> tasks s \<Longrightarrow> (st s' p = Some PROCESS_READY \<longleftrightarrow> p \<in> set qs') \<and>
                             (st s' p = Some PROCESS_RUNNING \<longleftrightarrow> p \<in> R')"
  shows "run_ok s' qs' R'"
  using assms same_table_tasks [OF assms(1)] by (auto simp: run_ok_def)

lemma schedule_leaving:
  assumes "leaving s qs"
  shows "\<exists>n ns s'. qs = n # ns \<and> schedule s = Xfer (switch_between s (current s) n) s' \<and>
    proc_inv s' ns \<and> current s' = n \<and> same_table s s' \<and> core s' = core s \<and>
    view s' = set_st n PROCESS_RUNNING (view s)"
proof -
  have i: "mem_ok s" "table_ok s" "run_ok s qs {}" using assms by (auto simp: leaving_def)
  then obtain n ns where qs: "qs = n # ns" by (cases qs) (auto simp: run_ok_def)
  have c: "current s \<in> tasks s" "current s \<noteq> n" "queue_ok s (n # ns)" "n \<in> tasks s"
    using i(3) qs by (auto simp: run_ok_def)
  have "valid_proc s (current s)" using tasks_valid i(2) c(1) by blast
  moreover have "st s (current s) \<noteq> Some PROCESS_RUNNING" using i(3) c(1) by (auto simp: run_ok_def)
  ultimately obtain s' where s': "schedule s = Xfer (switch_between s (current s) n) s'"
    "queue_ok s' ns" "current s' = n" "core s' = core s"
    "view s' = set_st n PROCESS_RUNNING (view s)"
    using schedule_leaves [OF c(3)] c(2) by blast
  have t: "same_table s s'" by (rule same_tableI [OF s'(4)]) (simp add: s'(5))
  have d: "n \<notin> set ns" using c(3) by (simp add: queue_ok_def)
  have "valid_proc s n" using queue_ok_valid [OF c(3)] by simp
  then have "run_ok s' ns {current s'}"
    using i(3) qs d c s'
    by (intro run_okI [OF t]) (auto simp: run_ok_def st_view valid_proc_view)
  then show ?thesis
    using qs s' t same_table_mem [OF t i(1)] same_table_table [OF t i(2)] by (auto simp: proc_inv_def)
qed

lemma leaving_current:
  assumes "proc_inv s qs" "current s \<noteq> idle_task s" "x \<noteq> PROCESS_READY" "x \<noteq> PROCESS_RUNNING"
    and "queue_ok s' qs" "same_table s s'" "current s' = current s"
    and "\<And>p. st s' p = (if p = current s then Some x else st s p)"
  shows "leaving s' qs"
proof -
  have i: "mem_ok s" "table_ok s" "run_ok s qs {current s}" using assms(1) by (auto simp: proc_inv_def)
  have "run_ok s' qs {}"
    using i(3) assms by (intro run_okI [OF assms(6)]) (auto simp: run_ok_def)
  then show ?thesis
    using same_table_mem [OF assms(6) i(1)] same_table_table [OF assms(6) i(2)]
    by (auto simp: leaving_def)
qed

section \<open>Scheduling, blocking and waking\<close>

lemma proc_invD:
  assumes "proc_inv s qs"
  shows "mem_ok s" "table_ok s" "run_ok s qs {current s}" "queue_ok s qs" "current s \<in> tasks s"
    "current s \<notin> set qs" "st s (current s) = Some PROCESS_RUNNING" "valid_proc s (current s)"
    "set qs \<subseteq> tasks s"
  using assms tasks_valid by (auto simp: proc_inv_def run_ok_def)

lemma schedule_inv:
  assumes "proc_inv s (n # ns)"
  shows "\<exists>s'. schedule s = Xfer (switch_between s (current s) n) s' \<and>
    proc_inv s' (ns @ [current s]) \<and> current s' = n \<and> core s' = core s \<and>
    view s' = set_st n PROCESS_RUNNING (set_st (current s) PROCESS_READY (view s))"
proof -
  note i = proc_invD [OF assms]
  have "current s \<noteq> NULL" using i(8) by (simp add: valid_proc_def)
  then obtain s' where s': "schedule s = Xfer (switch_between s (current s) n) s'"
    "queue_ok s' (ns @ [current s])" "current s' = n" "core s' = core s"
    "view s' = set_st n PROCESS_RUNNING (set_st (current s) PROCESS_READY (view s))"
    using schedule_rotates [OF i(4,7) _ i(6)] by blast
  have t: "same_table s s'" by (rule same_tableI [OF s'(4)]) (simp add: s'(5))
  have v: "view s n \<noteq> None" "view s (current s) \<noteq> None"
    using queue_ok_valid [OF i(4), of n] i(8) by (auto simp: valid_proc_view)
  have n: "n \<notin> set ns" "n \<noteq> current s" using i(4,6) by (auto simp: queue_ok_def)
  have x: "st s p = Some PROCESS_READY \<longleftrightarrow> p \<in> set (n # ns)"
    "st s p = Some PROCESS_RUNNING \<longleftrightarrow> p = current s" if "p \<in> tasks s" for p
    using i(3) that by (auto simp: run_ok_def)
  have "run_ok s' (ns @ [current s]) {current s'}"
  proof (rule run_okI [OF t s'(2)])
    fix p assume "p \<in> tasks s"
    then show "(st s' p = Some PROCESS_READY \<longleftrightarrow> p \<in> set (ns @ [current s])) \<and>
        (st s' p = Some PROCESS_RUNNING \<longleftrightarrow> p \<in> {current s'})"
      using x [of p] v n s'(3) by (auto simp: st_view s'(5))
  qed (use i(3) n s'(3) in \<open>auto simp: run_ok_def\<close>)
  then show ?thesis
    using s' same_table_mem [OF t i(1)] same_table_table [OF t i(2)] by (auto simp: proc_inv_def)
qed

lemma schedule_alone:
  assumes "proc_inv s []"
  shows "schedule s = Ret () s"
  using schedule_empty proc_invD [OF assms] by blast

text \<open>Blocking is for a process other than the idle one; the queue then holds the idle process, so
  there is always somewhere to go.\<close>

lemma block_leaves:
  assumes "proc_inv s qs" "current s \<noteq> idle_task s"
  shows "leaving (upd_proc (current s) (p_state_update (\<lambda>_. PROCESS_BLOCKED)) s) qs"
proof (rule leaving_current [OF assms, of PROCESS_BLOCKED])
  let ?s = "upd_proc (current s) (p_state_update (\<lambda>_. PROCESS_BLOCKED)) s"
  show "queue_ok ?s qs" using proc_invD(4) [OF assms(1)] by simp
  show "same_table s ?s" by (rule same_tableI) simp_all
  show "st ?s p = (if p = current s then Some PROCESS_BLOCKED else st s p)" for p
    using proc_invD(8) [OF assms(1)] by (auto simp: st_view valid_proc_view)
qed simp_all

lemma block_inv:
  assumes "proc_inv s qs" "current s \<noteq> idle_task s"
  shows "\<exists>n ns s'. qs = n # ns \<and> scheduler_block s = Xfer (switch_between s (current s) n) s' \<and>
    proc_inv s' ns \<and> current s' = n \<and> core s' = core s \<and>
    view s' = set_st n PROCESS_RUNNING (set_st (current s) PROCESS_BLOCKED (view s))"
proof -
  note i = proc_invD [OF assms(1)]
  obtain n ns s' where *: "qs = n # ns" "proc_inv s' ns"
    "schedule (upd_proc (current s) (p_state_update (\<lambda>_. PROCESS_BLOCKED)) s) =
       Xfer (switch_between (upd_proc (current s) (p_state_update (\<lambda>_. PROCESS_BLOCKED)) s)
               (current s) n) s'"
    using schedule_leaving [OF block_leaves [OF assms]] by auto
  have "scheduler_block s = schedule (upd_proc (current s) (p_state_update (\<lambda>_. PROCESS_BLOCKED)) s)"
    using i(8) by (auto simp: scheduler_block_def process_get_current_def deref_def valid_proc_def)
  moreover obtain s1 where "scheduler_block s = Xfer (switch_between s (current s) n) s1"
    "current s1 = n" "core s1 = core s"
    "view s1 = set_st n PROCESS_RUNNING (set_st (current s) PROCESS_BLOCKED (view s))"
    using block_switches [of s n ns] i(4,6,8) *(1) by auto
  ultimately show ?thesis using * by auto
qed

text \<open>Waking, for the invariant and while the current process is being left.\<close>

lemma wake_run:
  assumes i: "mem_ok s" "table_ok s" "run_ok s qs R" and p: "p \<in> tasks s" "p \<noteq> current s"
    and b: "st s p = Some PROCESS_BLOCKED"
  shows "\<exists>s'. scheduler_wake p s = Ret () s' \<and> mem_ok s' \<and> table_ok s' \<and> run_ok s' (qs @ [p]) R \<and>
    view s' = set_st p PROCESS_READY (view s) \<and> core s' = core s \<and> current s' = current s"
proof -
  have v: "valid_proc s p" by (rule tasks_valid [OF i(2) p(1)])
  have x: "p \<notin> set qs" "p \<notin> R" "queue_ok s qs" using i(3) p(1) b by (auto simp: run_ok_def)
  obtain s' where s': "scheduler_wake p s = Ret () s'" "queue_ok s' (qs @ [p])"
    "view s' = set_st p PROCESS_READY (view s)" "core s' = core s" "current s' = current s"
    using wake_blocked [OF x(3) v x(1) b] by blast
  have t: "same_table s s'" by (rule same_tableI [OF s'(4)]) (simp add: s'(3))
  have "run_ok s' (qs @ [p]) R"
    by (rule run_okI [OF t s'(2)])
       (use i(3) p x v s'(5) in \<open>auto simp: run_ok_def st_view s'(3) valid_proc_view\<close>)
  then show ?thesis
    using s' same_table_mem [OF t i(1)] same_table_table [OF t i(2)] by blast
qed

lemma wake_inv:
  assumes "proc_inv s qs" "p \<in> tasks s"
  shows "\<exists>s'. scheduler_wake p s = Ret () s' \<and> current s' = current s \<and>
    (if st s p = Some PROCESS_BLOCKED then proc_inv s' (qs @ [p]) else s' = s)"
proof (cases "st s p = Some PROCESS_BLOCKED")
  case True
  then have "p \<noteq> current s" using proc_invD(7) [OF assms(1)] by auto
  then show ?thesis
    using wake_run [OF proc_invD(1-3) [OF assms(1)] assms(2) _ True] True by (auto simp: proc_inv_def)
next
  case False
  then show ?thesis
    using wake_other [OF tasks_valid [OF proc_invD(2) [OF assms(1)] assms(2)]] by simp
qed

section \<open>Ending a process\<close>

text \<open>Process numbers stay far below the sign bit: the heap would be exhausted first.\<close>

lemma pid_bound:
  assumes "mem_ok s" "table_ok s" "p \<in> tasks s"
  shows "unat (pid_of s p) < 6243" "0 < sint (pid_of s p) \<longleftrightarrow> pid_of s p \<noteq> 0"
proof -
  obtain pr where pr: "view s p = Some pr" "proc_ok s pr" by (rule table_procD [OF assms(2,3)])
  have h: "168 * (unat (next_pid s) - 1) \<le> 1048576"
    using assms(1) by (auto simp: mem_ok_def kmem_inv_def)
  have "unat (pid_of s p) < unat (next_pid s)" using pr by (simp add: pid_of_def proc_ok_def)
  then show b: "unat (pid_of s p) < 6243" using h by linarith
  show "0 < sint (pid_of s p) \<longleftrightarrow> pid_of s p \<noteq> 0" using b by (intro sint_pos_small) simp
qed

definition blocked :: "kstate \<Rightarrow> ptr list" where
  "blocked s = filter (\<lambda>p. st s p = Some PROCESS_BLOCKED) (used_slots (task s))"

lemma idle_not_blocked:
  assumes "run_ok s qs R" "table_ok s"
  shows "st s (idle_task s) \<noteq> Some PROCESS_BLOCKED"
  using assms idle_in_tasks [OF assms(2)] by (auto simp: run_ok_def)

text \<open>One round of the loop of \<open>process_exit\<close> on a blocked task.\<close>

lemma wake_one:
  assumes l: "leaving s qs" and p: "p \<in> tasks s" "st s p = Some PROCESS_BLOCKED"
    and c: "st s (current s) \<noteq> Some PROCESS_BLOCKED"
  shows "\<exists>s1. wake_blocked_tasks (p # ps) s = wake_blocked_tasks ps s1 \<and> leaving s1 (qs @ [p]) \<and>
    view s1 = set_st p PROCESS_READY (view s) \<and> core s1 = core s \<and> current s1 = current s \<and>
    (\<forall>q. st s1 q = (if q = p then Some PROCESS_READY else st s q))"
proof -
  note i = l [unfolded leaving_def]
  obtain pr where pr: "procs s p = Some pr" "p \<noteq> NULL"
    using tasks_valid [OF _ p(1)] i by (auto simp: valid_proc_def)
  have pid: "p_pid pr = pid_of s p" using pr by (simp add: pid_of_def view_def)
  have "p \<noteq> idle_task s" using idle_not_blocked p(2) i by auto
  then have pos: "0 < sint (p_pid pr)"
    using pid pid_bound(2) [OF _ _ p(1)] pid_zero_idle [OF _ p(1)] i by auto
  obtain s1 where s1: "scheduler_wake p s = Ret () s1" "leaving s1 (qs @ [p])"
    "view s1 = set_st p PROCESS_READY (view s)" "core s1 = core s" "current s1 = current s"
    using wake_run [OF _ _ _ p(1) _ p(2)] i c p(2) by (auto simp: leaving_def)
  have "st s1 q = (if q = p then Some PROCESS_READY else st s q)" for q
    using pr by (auto simp: st_view s1(3) view_def)
  moreover have "wake_blocked_tasks (p # ps) s = wake_blocked_tasks ps s1"
    using pr p(2) pos s1(1) by (simp add: exec_simps st_def)
  ultimately show ?thesis using s1 by blast
qed

text \<open>The loop of \<open>process_exit\<close> wakes every blocked task, in table order.\<close>

lemma wake_loop:
  assumes "leaving s qs" "st s (current s) \<noteq> Some PROCESS_BLOCKED"
    and "distinct (used_slots ps)" "set (used_slots ps) \<subseteq> tasks s"
  shows "\<exists>s'. wake_blocked_tasks ps s = Ret () s' \<and> core s' = core s \<and> current s' = current s \<and>
    leaving s' (qs @ filter (\<lambda>p. st s p = Some PROCESS_BLOCKED) (used_slots ps)) \<and>
    (\<forall>p. view s' p = (if p \<in> set (used_slots ps) \<and> st s p = Some PROCESS_BLOCKED
                     then set_st p PROCESS_READY (view s) p else view s p))"
  using assms
proof (induction ps arbitrary: s qs)
  case Nil
  then show ?case by (simp add: used_slots_def)
next
  case (Cons p ps)
  note i = Cons.prems(1) [unfolded leaving_def]
  show ?case
  proof (cases "p = NULL")
    case True
    then show ?thesis using Cons by (simp add: used_slots_def)
  next
    case np: False
    then have u: "used_slots (p # ps) = p # used_slots ps" by (simp add: used_slots_def)
    have p: "p \<in> tasks s" "p \<notin> set (used_slots ps)" using Cons.prems u by auto
    obtain pr where pr: "procs s p = Some pr"
      using tasks_valid [OF _ p(1)] i by (auto simp: valid_proc_def)
    show ?thesis
    proof (cases "st s p = Some PROCESS_BLOCKED")
      case False
      then show ?thesis
        using Cons.IH [OF Cons.prems(1,2)] Cons.prems pr np p
        by (auto simp: u exec_simps st_def)
    next
      case True
      obtain s1 where s1: "wake_blocked_tasks (p # ps) s = wake_blocked_tasks ps s1" "leaving s1 (qs @ [p])"
        "view s1 = set_st p PROCESS_READY (view s)" "core s1 = core s" "current s1 = current s"
        and st1: "\<And>q. st s1 q = (if q = p then Some PROCESS_READY else st s q)"
        using wake_one [OF Cons.prems(1) p(1) True Cons.prems(2)] by blast
      have "tasks s1 = tasks s" using core_eqD(7) [OF s1(4)] by (simp add: tasks_def)
      then have "set (used_slots ps) \<subseteq> tasks s1" "distinct (used_slots ps)"
        "st s1 (current s1) \<noteq> Some PROCESS_BLOCKED"
        using Cons.prems u s1(5) st1 by auto
      then obtain s' where s': "wake_blocked_tasks ps s1 = Ret () s'" "core s' = core s1"
        "current s' = current s1"
        "leaving s' ((qs @ [p]) @ filter (\<lambda>p. st s1 p = Some PROCESS_BLOCKED) (used_slots ps))"
        "\<forall>q. view s' q = (if q \<in> set (used_slots ps) \<and> st s1 q = Some PROCESS_BLOCKED
                     then set_st q PROCESS_READY (view s1) q else view s1 q)"
        using Cons.IH [OF s1(2)] by blast
      have f: "filter (\<lambda>p. st s1 p = Some PROCESS_BLOCKED) (used_slots ps) =
          filter (\<lambda>p. st s p = Some PROCESS_BLOCKED) (used_slots ps)"
        by (rule filter_cong) (use st1 p(2) in auto)
      have w: "wake_blocked_tasks (p # ps) s = Ret () s'" using s1(1) s'(1) by simp
      have "view s' q = (if q \<in> set (used_slots (p # ps)) \<and> st s q = Some PROCESS_BLOCKED
                     then set_st q PROCESS_READY (view s) q else view s q)" for q
        using s'(5) p(2) True by (auto simp: u st1 s1(3) set_st_def)
      then show ?thesis using w s' s1 f True by (simp add: u)
    qed
  qed
qed

text \<open>The state in which \<open>process_exit\<close> starts to wake the blocked tasks.\<close>

definition exited :: "s32 \<Rightarrow> process_t \<Rightarrow> process_t" where
  "exited code pr = pr\<lparr>p_exit_code := code, p_state := PROCESS_TERMINATED, p_pt_regs := NULL\<rparr>"

lemma exited_sel [simp]:
  "p_next (exited c pr) = p_next pr" "p_state (exited c pr) = PROCESS_TERMINATED"
  "static (exited c pr) = static pr" "unlinked (exited c pr) = exited c (unlinked pr)"
  "p_exit_code (exited c pr) = c"
  by (simp_all add: exited_def static_def unlinked_def)

lemma view_upd_proc:
  assumes "\<And>pr. unlinked (f pr) = f (unlinked pr)"
  shows "view (upd_proc p f s) = (view s)(p := map_option f (view s p))"
  using assms by (auto simp: view_def fun_eq_iff option.map_comp comp_def)

lemma kfree_sel [simp]:
  "heap_addr (kfree p s) = heap_addr s" "heap_used (kfree p s) = heap_used s"
  "mms (kfree p s) = mms s" "vmas (kfree p s) = vmas s" "free_log (kfree p s) = free_log s @ [p]"
  by (simp_all add: kfree_def)

lemma kfree_kstate [simp]:
  fixes s :: kstate
  shows "procs (kfree p s) = procs s" "ctxs (kfree p s) = ctxs s" "task (kfree p s) = task s"
  "task_count (kfree p s) = task_count s" "current (kfree p s) = current s"
  "next_pid (kfree p s) = next_pid s" "rq_head (kfree p s) = rq_head s"
  "rq_tail (kfree p s) = rq_tail s" "ptregs (kfree p s) = ptregs s"
  "view (kfree p s) = view s" "queue_ok (kfree p s) qs = queue_ok s qs"
  by (auto simp: kfree_def view_def queue_ok_def fun_eq_iff)

definition exit_state :: "s32 \<Rightarrow> kstate \<Rightarrow> kstate" where
  "exit_state code s =
     (case procs s (current s) of None \<Rightarrow> s
      | Some c \<Rightarrow> upd_proc (current s) (exited code)
          (if p_pt_regs c \<noteq> NULL then kfree (p_pt_regs c) s else s))"

lemma process_exit_run:
  assumes i: "proc_inv s qs" and n: "current s \<noteq> idle_task s"
  shows "process_exit code s =
    and_then (wake_blocked_tasks (take (task_count s) (task s)) (exit_state code s))
      (\<lambda>_ s. and_then (schedule s) (\<lambda>_ s. Spin s))"
proof -
  note d = proc_invD [OF i]
  obtain c where c: "procs s (current s) = Some c" "current s \<noteq> NULL"
    using d(8) by (auto simp: valid_proc_def)
  obtain pr where "view s (current s) = Some pr" "proc_ok s pr" by (rule table_procD [OF d(2,5)])
  then have mm: "p_mm c = NULL" using c by (auto simp: view_def proc_ok_def)
  have pid: "p_pid c \<noteq> 0"
    using pid_zero_idle [OF d(2,5)] n c by (simp add: pid_of_def view_def)
  have q: "queue_ok (exit_state code s) qs" using d(4) c by (simp add: exit_state_def)
  have e: "exit_state code s =
      (let s1 = upd_proc (current s) (p_state_update (\<lambda>_. PROCESS_TERMINATED))
                  (upd_proc (current s) (p_exit_code_update (\<lambda>_. code)) s)
       in if p_pt_regs c \<noteq> NULL
          then upd_proc (current s) (p_pt_regs_update (\<lambda>_. NULL)) (kfree (p_pt_regs c) s1) else s1)"
    using c by (cases c) (auto simp: exit_state_def upd_proc_def exited_def kfree_def Let_def)
  have cur: "current (exit_state code s) = current s" "task (exit_state code s) = task s"
    "task_count (exit_state code s) = task_count s"
    using c by (auto simp: exit_state_def)
  have "scheduler_remove (current s) (exit_state code s) = Ret () (exit_state code s)"
    by (rule scheduler_remove_absent [OF q d(6)])
  then show ?thesis
    using c mm pid cur
    by (simp add: process_exit_def exec_simps process_set_state_def Let_def e [unfolded Let_def, symmetric])
qed

lemma exit_state_leaving:
  assumes i: "proc_inv s qs" and n: "current s \<noteq> idle_task s"
  shows "leaving (exit_state code s) qs"
    and "view (exit_state code s) =
      (view s)(current s := map_option (exited code) (view s (current s)))"
    and "same_table s (exit_state code s)"
proof -
  note d = proc_invD [OF i]
  obtain c where c: "procs s (current s) = Some c" using d(8) by (auto simp: valid_proc_def)
  show v: "view (exit_state code s) =
      (view s)(current s := map_option (exited code) (view s (current s)))"
    using c by (simp add: exit_state_def view_upd_proc)
  show t: "same_table s (exit_state code s)"
    unfolding same_table_def v using c by (auto simp: exit_state_def view_def)
  show "leaving (exit_state code s) qs"
  proof (rule leaving_current [OF assms, of PROCESS_TERMINATED])
    show "same_table s (exit_state code s)" by (rule t)
    show "st (exit_state code s) p = (if p = current s then Some PROCESS_TERMINATED else st s p)" for p
      using c by (auto simp: st_view v view_def)
  qed (use d(4) c in \<open>auto simp: exit_state_def\<close>)
qed

end
