(* ===== verification/Process_Ops.thy ===== *)
theory Process_Ops
  imports Process_Inv
begin

text \<open>
  What the operations of \<open>process.c\<close> do under the invariant: ending, waiting for, creating a
  process, the timer, and initialisation.
\<close>

section \<open>Ending a process\<close>

lemma exit_inv:
  assumes i: "proc_inv s qs" and n: "current s \<noteq> idle_task s"
  shows "\<exists>m ms s'. qs @ blocked s = m # ms \<and>
    process_exit code s = Xfer (switch_between s (current s) m) s' \<and> proc_inv s' ms \<and>
    current s' = m \<and> core s' = core (exit_state code s) \<and>
    view s' (current s) = map_option (exited code) (view s (current s)) \<and>
    (\<forall>p \<in> tasks s. p \<noteq> current s \<longrightarrow> p \<noteq> m \<longrightarrow>
       st s' p = (if st s p = Some PROCESS_BLOCKED then Some PROCESS_READY else st s p)) \<and>
    (\<forall>p. pid_of s' p = pid_of s p) \<and> same_table s s' \<and>
    (\<forall>p. p \<noteq> current s \<longrightarrow> map_option unstated (view s' p) = map_option unstated (view s p))"
proof -
  let ?e = "exit_state code s" and ?c = "current s"
  note d = proc_invD [OF i] and l = exit_state_leaving [OF i n, of code]
  have e: "task ?e = task s" "task_count ?e = task_count s" "current ?e = ?c"
    by (auto simp: exit_state_def split: option.splits)
  obtain cv where vc: "view s ?c = Some cv" by (rule table_procD [OF d(2,5)])
  have ste: "st ?e p = (if p = ?c then Some PROCESS_TERMINATED else st s p)" for p
    using vc by (simp add: st_view l(2))
  have u: "used_slots (take (task_count s) (task s)) = used_slots (task s)" by (rule tasks_take [OF d(2)])
  have us: "distinct (used_slots (task s))" "set (used_slots (task s)) \<subseteq> tasks ?e"
    using d(2) by (auto simp: table_ok_def tasks_def e)
  have b: "filter (\<lambda>p. st ?e p = Some PROCESS_BLOCKED) (used_slots (task s)) = blocked s"
    unfolding blocked_def by (rule filter_cong) (use ste d(7) in auto)
  obtain s1 where s1: "wake_blocked_tasks (take (task_count s) (task s)) ?e = Ret () s1"
    "core s1 = core ?e" "current s1 = ?c" "leaving s1 (qs @ blocked s)"
    "\<forall>p. view s1 p = (if p \<in> set (used_slots (task s)) \<and> st ?e p = Some PROCESS_BLOCKED
                     then set_st p PROCESS_READY (view ?e) p else view ?e p)"
    using wake_loop [OF l(1), of "take (task_count s) (task s)"] us ste e b unfolding u by auto
  obtain m ms s' where s': "qs @ blocked s = m # ms" "schedule s1 = Xfer (switch_between s1 ?c m) s'"
    "proc_inv s' ms" "current s' = m" "core s' = core s1" "view s' = set_st m PROCESS_RUNNING (view s1)"
    using schedule_leaving [OF s1(4)] s1(3) by auto
  have "same_table ?e s1" by (rule same_tableI [OF s1(2)]) (use s1(5) in simp)
  then have "ctx_of s1 p = ctx_of s p" for p
    using same_table_ctx l(3) by (metis)
  then have "switch_between s1 ?c m = switch_between s ?c m" by (simp add: switch_between_def)
  moreover have "m \<in> set (qs @ blocked s)" using s'(1) by simp
  then have "?c \<noteq> m" using d(6,7) by (auto simp: blocked_def)
  moreover have "view s1 ?c = map_option (exited code) (view s ?c)" using s1(5) ste l(2) by simp
  moreover have "same_table s1 s'" by (rule same_tableI [OF s'(5)]) (simp add: s'(6))
  then have t: "same_table s s'" using same_table_trans l(3) \<open>same_table ?e s1\<close> by blast
  then have "pid_of s' p = pid_of s p" for p by (rule same_table_pid)
  moreover have "st s' p = (if st s p = Some PROCESS_BLOCKED then Some PROCESS_READY else st s p)"
    if "p \<in> tasks s" "p \<noteq> ?c" "p \<noteq> m" for p
    using that s1(5) tasks_valid [OF d(2) that(1)]
    by (auto simp: st_view s'(6) l(2) tasks_def valid_proc_view)
  moreover have "map_option unstated (view s' p) = map_option unstated (view s p)" if "p \<noteq> ?c" for p
    using that s1(5) by (simp add: s'(6) l(2))
  ultimately show ?thesis using process_exit_run [OF i n, of code] s1 s' t by auto
qed

section \<open>Reaping\<close>

lemma find_task_spec:
  assumes "\<forall>p \<in> set (used_slots ps). valid_proc s p"
  shows "find_task ps pid s =
    Ret (case find (\<lambda>p. pid_of s p = pid) (used_slots ps) of None \<Rightarrow> NULL | Some p \<Rightarrow> p) s"
  using assms
proof (induction ps)
  case (Cons p ps)
  then show ?case
    by (cases "p = NULL") (auto simp: used_slots_def valid_proc_def exec_simps pid_of_def view_def)
qed (simp add: used_slots_def)

lemma find_task_table:
  assumes "table_ok s"
  shows "find_task (take (task_count s) (task s)) pid s =
    Ret (case find (\<lambda>p. pid_of s p = pid) (used_slots (task s)) of None \<Rightarrow> NULL | Some p \<Rightarrow> p) s"
  using find_task_spec [of "take (task_count s) (task s)" s pid] tasks_valid [OF assms]
  by (simp add: tasks_take [OF assms] tasks_def)

lemma find_pid:
  assumes "table_ok s" "p \<in> tasks s"
  shows "find (\<lambda>q. pid_of s q = pid_of s p) (used_slots (task s)) = Some p"
proof -
  obtain q where "find (\<lambda>q. pid_of s q = pid_of s p) (used_slots (task s)) = Some q"
    using assms(2) by (cases "find (\<lambda>q. pid_of s q = pid_of s p) (used_slots (task s))")
      (auto simp: find_None_iff tasks_def)
  moreover from this have "q \<in> tasks s" "pid_of s q = pid_of s p"
    by (auto simp: find_Some_iff tasks_def)
  ultimately show ?thesis using assms by (auto simp: table_ok_def inj_on_def)
qed

text \<open>Taking a task out of the table and recounting.\<close>

lemma task_remove_table:
  assumes t: "table_ok s" and p: "p \<in> tasks s" "p \<noteq> idle_task s"
  shows "table_ok (task_recount (task_remove p s))"
    "used_slots (task (task_recount (task_remove p s))) = remove1 p (used_slots (task s))"
    "idle_task (task_recount (task_remove p s)) = idle_task s"
proof -
  let ?n = "task_count s" and ?T = "clear_first p (task s)"
  have len: "length (task s) = 64" "0 < ?n" "?n \<le> 64" using t by (auto simp: table_ok_def)
  have "p \<in> set (used_slots (take ?n (task s)))" unfolding tasks_take [OF t] using p(1) by (simp add: tasks_def)
  then have pin: "p \<in> set (take ?n (task s))" "p \<noteq> NULL" by (auto simp: used_slots_def)
  have T: "task (task_recount (task_remove p s)) = ?T"
    using clear_first_append [of p "take ?n (task s)" "drop ?n (task s)"] pin
    by (simp add: task_remove_def task_recount_def Let_def)
  show u: "used_slots (task (task_recount (task_remove p s))) = remove1 p (used_slots (task s))"
    unfolding T by (rule used_slots_clear [OF pin(2)])
  show idle: "idle_task (task_recount (task_remove p s)) = idle_task s"
    unfolding idle_task_def T using p(2) len by (intro nth_clear_first_other) (auto simp: idle_task_def)
  let ?s' = "task_recount (task_remove p s)" and ?c = "count_used 0 0 (take ?n ?T)"
  have tk: "take ?n (clear_first p (take ?n (task s)) @ drop ?n (task s)) = take ?n ?T"
    using clear_first_append [of p "take ?n (task s)" "drop ?n (task s)"] pin by simp
  have cnt: "task_count ?s' = (if ?c > 0 then ?c else 1)"
    using tk by (simp add: task_remove_def task_recount_def Let_def)
  have le: "?c \<le> ?n" using count_used_le [of 0 0 "take ?n ?T"] len by simp
  have null: "?T ! i = NULL" if "i < 64" "task_count ?s' \<le> i" for i
  proof (cases "i < ?n")
    case True
    then have "i < ?c \<or> take ?n ?T ! i = NULL"
      using count_used_covers [of 0 0 i "take ?n ?T"] len by auto
    then show ?thesis using True that(2) cnt by (auto split: if_splits)
  next
    case False
    then have "task s ! i = NULL" using t that by (auto simp: table_ok_def)
    then show ?thesis using nth_clear_first [of i "task s" p] that len by auto
  qed
  have sub: "tasks ?s' \<subseteq> tasks s" unfolding tasks_def u by (rule set_remove1_subset)
  have v: "view ?s' = view s" "ctxs ?s' = ctxs s" "next_pid ?s' = next_pid s"
    by (auto simp: task_recount_def task_remove_def Let_def view_def fun_eq_iff)
  then have pid: "pid_of ?s' = pid_of s" by (simp add: pid_of_def fun_eq_iff)
  have "\<exists>pr. view ?s' q = Some pr \<and> proc_ok ?s' pr" if q: "q \<in> tasks ?s'" for q
    using table_procD [OF t subsetD [OF sub q]] v unfolding proc_ok_def by metis
  moreover have "distinct (used_slots (task ?s'))" using t unfolding u by (simp add: table_ok_def)
  moreover have "inj_on (pid_of ?s') (tasks ?s')"
    using t sub unfolding pid by (auto simp: table_ok_def intro: inj_on_subset)
  moreover have "length (task ?s') = 64" "0 < task_count ?s'" "task_count ?s' \<le> 64"
    using len le cnt by (auto simp: T)
  ultimately show "table_ok ?s'"
    using null t unfolding table_ok_def idle pid T by auto
qed

lemma free_log_inv [simp]: "proc_inv (s\<lparr>free_log := l\<rparr>) qs = proc_inv s qs"
proof -
  let ?s = "s\<lparr>free_log := l\<rparr>"
  have v: "view ?s = view s" "st ?s = st s" by (simp_all add: view_def st_def fun_eq_iff)
  have "pid_of ?s = pid_of s" "in_heap ?s = in_heap s" "kmem_inv ?s = kmem_inv s"
    "proc_ok ?s = proc_ok s" "tasks ?s = tasks s" "idle_task ?s = idle_task s" "queue_ok ?s = queue_ok s"
    by (auto simp: pid_of_def v in_heap_def kmem_inv_def kmem_owned_def proc_ok_def tasks_def
        idle_task_def queue_ok_def fun_eq_iff)
  then show ?thesis unfolding proc_inv_def mem_ok_def table_ok_def run_ok_def v by simp
qed

definition reaped :: "ptr \<Rightarrow> process_t \<Rightarrow> kstate \<Rightarrow> kstate" where
  "reaped p pr s = (task_recount (task_remove p s))\<lparr>free_log := free_log s @ [p_context pr] @
     (if p_kernel_stack pr \<noteq> NULL then [p_kernel_stack pr] else []) @ [p]\<rparr>"

lemma reap_inv:
  assumes i: "proc_inv s qs" and p: "p \<in> tasks s" "st s p = Some PROCESS_TERMINATED"
    and pr: "view s p = Some pr"
  shows "process_reap p w s = Ret (0, if w then Some (p_exit_code pr) else None) (reaped p pr s)"
    "proc_inv (reaped p pr s) qs" "used_slots (task (reaped p pr s)) = remove1 p (used_slots (task s))"
proof -
  note d = proc_invD [OF i]
  have "proc_ok s pr" using table_procD [OF d(2) p(1)] pr by (metis option.inject)
  then have c: "p_context pr \<noteq> NULL" by (simp add: proc_ok_def)
  obtain pr0 where v: "procs s p = Some pr0" "pr = unlinked pr0" "p \<noteq> NULL"
    using pr tasks_valid [OF d(2) p(1)] by (auto simp: valid_proc_def view_def)
  show "process_reap p w s = Ret (0, if w then Some (p_exit_code pr) else None) (reaped p pr s)"
    using v c
    by (cases "p_kernel_stack pr = NULL") (simp_all add: process_reap_def exec_simps Let_def reaped_def kfree_def
        free_kernel_stack_def task_remove_def task_recount_def)
  have ni: "p \<noteq> idle_task s" and np: "p \<notin> set qs" "p \<noteq> current s"
    using d(3) p by (auto simp: run_ok_def)
  note t = task_remove_table [OF d(2) p(1) ni]
  show u: "used_slots (task (reaped p pr s)) = remove1 p (used_slots (task s))"
    using t(2) by (simp add: reaped_def)
  let ?s = "task_recount (task_remove p s)"
  have ts: "tasks ?s = tasks s - {p}"
    using t(2) d(2) by (simp add: tasks_def table_ok_def)
  have same: "view ?s = view s" "st ?s = st s" "current ?s = current s" "rq_head ?s = rq_head s"
    "rq_tail ?s = rq_tail s" "procs ?s = procs s" "heap_addr ?s = heap_addr s"
    "heap_used ?s = heap_used s" "next_pid ?s = next_pid s" "ctxs ?s = ctxs s"
    by (auto simp: task_recount_def task_remove_def Let_def view_def st_def fun_eq_iff)
  have "mem_ok ?s"
    using d(1) unfolding mem_ok_def in_heap_def kmem_owned_def kmem_inv_def same .
  moreover have "run_ok ?s qs {current ?s}"
    using d(3) ni np unfolding run_ok_def queue_ok_def same ts t(3) by auto
  ultimately show "proc_inv (reaped p pr s) qs"
    using t(1) by (simp add: reaped_def) (simp add: proc_inv_def)
qed

section \<open>Waiting\<close>

lemma wait_refused:
  assumes "proc_inv s qs" "current s = idle_task s \<or> pid_of s (current s) = pid \<or> pid \<notin> pid_of s ` tasks s"
  shows "process_wait pid w s = Ret (- 1, None) s"
proof -
  note d = proc_invD [OF assms(1)]
  obtain c where c: "procs s (current s) = Some c" "current s \<noteq> NULL" "p_pid c = pid_of s (current s)"
    using d(8) by (auto simp: valid_proc_def pid_of_def view_def)
  have "p_pid c = 0 \<longleftrightarrow> current s = idle_task s" using pid_zero_idle [OF d(2,5)] c(3) by simp
  moreover have "pid \<notin> pid_of s ` tasks s \<Longrightarrow>
      find (\<lambda>p. pid_of s p = pid) (used_slots (task s)) = None"
    by (auto simp: find_None_iff tasks_def)
  ultimately show ?thesis
    using assms(2) c by (auto simp: process_wait_def exec_simps find_task_table [OF d(2)])
qed

lemma wait_target:
  assumes i: "proc_inv s qs" and n: "current s \<noteq> idle_task s" and p: "p \<in> tasks s" "p \<noteq> current s"
  shows "process_wait (pid_of s p) w s =
    (if st s p = Some PROCESS_TERMINATED then process_reap p w s
     else and_then (schedule (upd_proc (current s) (p_state_update (\<lambda>_. PROCESS_BLOCKED)) s))
       (\<lambda>_ s'. and_then (find_task (take (task_count s') (task s')) (pid_of s p) s') (\<lambda>target s.
          if target = NULL then Ret (- 1, None) s
          else deref s target (\<lambda>t. if p_state t \<noteq> PROCESS_TERMINATED then Ret (- 1, None) s
                                  else process_reap target w s))))"
proof -
  note d = proc_invD [OF i]
  obtain c where c: "procs s (current s) = Some c" "current s \<noteq> NULL" "p_pid c = pid_of s (current s)"
    using d(8) by (auto simp: valid_proc_def pid_of_def view_def)
  obtain t where t: "procs s p = Some t" "p \<noteq> NULL"
    using tasks_valid [OF d(2) p(1)] by (auto simp: valid_proc_def)
  have "p_pid c \<noteq> 0" using pid_zero_idle [OF d(2,5)] c(3) n by simp
  moreover have "p_pid c \<noteq> pid_of s p"
    using d(2,5) p c(3) by (auto simp: table_ok_def inj_on_def)
  ultimately show ?thesis
    using c(1,2) t
    by (simp add: process_wait_def exec_simps find_task_table [OF d(2)] find_pid [OF d(2) p(1)] st_def)
qed

lemma wait_blocks:
  assumes i: "proc_inv s qs" and n: "current s \<noteq> idle_task s" and p: "p \<in> tasks s" "p \<noteq> current s"
    and "st s p \<noteq> Some PROCESS_TERMINATED"
  shows "\<exists>m ms s'. qs = m # ms \<and> process_wait (pid_of s p) w s = Xfer (switch_between s (current s) m) s' \<and>
    proc_inv s' ms \<and> current s' = m \<and> core s' = core s \<and>
    view s' = set_st m PROCESS_RUNNING (set_st (current s) PROCESS_BLOCKED (view s))"
proof -
  note d = proc_invD [OF i]
  have "scheduler_block s = schedule (upd_proc (current s) (p_state_update (\<lambda>_. PROCESS_BLOCKED)) s)"
    using d(8) by (auto simp: scheduler_block_def process_get_current_def deref_def valid_proc_def)
  then show ?thesis using block_inv [OF i n] wait_target [OF i n p, of w] assms(5) by auto
qed

end
