(* ===== verification/Process_Create.thy ===== *)
theory Process_Create
  imports Process_Ops
begin

text \<open>
  \<open>process_create\<close> and \<open>process_init\<close> under the invariant. All four requests of
  \<open>process_create\<close> are multiples of 4, so the addresses and the failure points are known
  exactly: control block, stack, context and register area follow each other in the heap.
\<close>

section \<open>Growing the heap\<close>

text \<open>A state that extends another: more memory, more objects, the same tables and queue.\<close>

definition grown :: "kstate \<Rightarrow> kstate \<Rightarrow> bool" where
  "grown s s' \<longleftrightarrow> unat (next_pid s) \<le> unat (next_pid s') \<and> task s' = task s \<and>
     task_count s' = task_count s \<and> current s' = current s \<and> rq_head s' = rq_head s \<and>
     rq_tail s' = rq_tail s \<and> procs s \<subseteq>\<^sub>m procs s' \<and> ctxs s \<subseteq>\<^sub>m ctxs s' \<and>
     heap_addr s' = heap_addr s \<and> unat (heap_used s) \<le> unat (heap_used s')"

lemma grown_view: "grown s s' \<Longrightarrow> valid_proc s p \<Longrightarrow> procs s' p = procs s p"
  by (auto simp: grown_def valid_proc_def map_le_def dom_def)

lemma grown_inv:
  assumes g: "grown s s'" and i: "proc_inv s qs" and m: "mem_ok s'"
  shows "proc_inv s' qs"
proof -
  note d = proc_invD [OF i]
  have v: "procs s' p = procs s p" if "p \<in> tasks s" for p
    using grown_view [OF g tasks_valid [OF d(2) that]] .
  have e: "tasks s' = tasks s" "idle_task s' = idle_task s" "current s' = current s" "task s' = task s"
    "task_count s' = task_count s" "rq_head s' = rq_head s" "rq_tail s' = rq_tail s"
    using g by (simp_all add: grown_def tasks_def idle_task_def)
  have vw: "view s' p = view s p" "st s' p = st s p" "pid_of s' p = pid_of s p" if "p \<in> tasks s" for p
    using v [OF that] by (simp_all add: view_def st_def pid_of_def)
  have idle: "idle_task s \<in> tasks s" by (rule idle_in_tasks [OF d(2)])
  have "\<exists>pr. view s' p = Some pr \<and> proc_ok s' pr" if p: "p \<in> tasks s" for p
  proof -
    obtain pr where pr: "view s p = Some pr" "proc_ok s pr" by (rule table_procD [OF d(2) p])
    then have "proc_ok s' pr"
      using g by (auto simp: proc_ok_def grown_def map_le_def dom_def)
    then show ?thesis using pr(1) vw(1) [OF p] by simp
  qed
  moreover have "inj_on (pid_of s') (tasks s)"
    using d(2) vw(3) by (simp add: table_ok_def inj_on_def)
  ultimately have "table_ok s'"
    using d(2) vw(3) [OF idle] unfolding table_ok_def e by simp
  moreover have "queue_ok s' qs"
    by (rule queue_ok_cong [OF d(4)]) (use e v d(9) in auto)
  then have "run_ok s' qs {current s'}"
    using d(3) vw(2) unfolding run_ok_def e by simp
  ultimately show ?thesis using m by (simp add: proc_inv_def)
qed

lemma next_pid_small:
  assumes "mem_ok s"
  shows "unat (next_pid s) < 6243" "unat (next_pid s + 1) = unat (next_pid s) + 1"
proof -
  show b: "unat (next_pid s) < 6243" using assms by (auto simp: mem_ok_def kmem_inv_def)
  then show "unat (next_pid s + 1) = unat (next_pid s) + 1"
    using unat_add_no_wrap [of "next_pid s" 1] by simp
qed

lemma grown_mem:
  assumes m: "mem_ok s" and h: "heap_addr s' = heap_addr s" "heap_used s' = heap_used s + n"
    "unat (heap_used s) + unat n \<le> 1048576" "4 dvd unat n" "168 \<le> unat n"
    and pid: "next_pid s' = next_pid s + 1"
    and p: "\<And>p. procs s' p \<noteq> None \<Longrightarrow> procs s p \<noteq> None \<or>
              (\<exists>k. unat k < unat n \<and> p = heap_addr s + heap_used s + k)"
    and c: "\<And>p. ctxs s' p \<noteq> None \<Longrightarrow> ctxs s p \<noteq> None \<or>
              (\<exists>k. unat k < unat n \<and> p = heap_addr s + heap_used s + k)"
  shows "mem_ok s'"
proof -
  have k: "kmem_inv s" using m by (simp add: mem_ok_def)
  have u: "unat (heap_used s + n) = unat (heap_used s) + unat n"
    using h(3) by (intro unat_add_no_wrap) simp
  have k': "kmem_inv s'" using k h(3,4) by (simp add: kmem_inv_def h(1,2) u)
  have old: "in_heap s q \<Longrightarrow> in_heap s' q" for q
    by (auto simp: in_heap_def kmem_owned_def h(1,2) u)
  have new: "in_heap s' (heap_addr s + heap_used s + x)" if "unat x < unat n" for x
  proof -
    have "unat (heap_addr s + heap_used s + x) = unat (heap_addr s) + unat (heap_used s) + unat x"
      using kmem_ptr_unat [OF k] k h(3) that
      by (subst unat_add_no_wrap) (auto simp: kmem_inv_def)
    then show ?thesis using that by (simp add: in_heap_def kmem_owned_def h(1,2) u)
  qed
  have pv: "in_heap s' q" if "view s' q \<noteq> None" for q
  proof -
    have "procs s' q \<noteq> None" using that by simp
    from p [OF this] show ?thesis using m old new by (auto simp: mem_ok_def)
  qed
  have cv: "in_heap s' q" if "ctxs s' q \<noteq> None" for q
    using c [OF that] m old new by (auto simp: mem_ok_def)
  have np: "next_pid s \<noteq> 0" using m by (simp add: mem_ok_def)
  then have "0 < unat (next_pid s)" by simp
  have "168 * (unat (next_pid s) - 1) \<le> unat (heap_used s)" using m by (simp add: mem_ok_def)
  then have "168 * (unat (next_pid s') - 1) \<le> unat (heap_used s')"
    using h(5) \<open>0 < unat (next_pid s)\<close>
    by (simp only: h(2) u pid next_pid_small(2) [OF m])
  moreover have "next_pid s' \<noteq> 0" using next_pid_small(2) [OF m] pid by auto
  ultimately show ?thesis using k' pv cv by (simp add: mem_ok_def)
qed

lemma fresh_addr:
  assumes m: "mem_ok s"
  shows "procs s (heap_addr s + heap_used s + k) = None \<or> unat (heap_used s) + unat k > 1048576"
    "ctxs s (heap_addr s + heap_used s + k) = None \<or> unat (heap_used s) + unat k > 1048576"
proof -
  have k: "kmem_inv s" using m by (simp add: mem_ok_def)
  have n: "\<not> in_heap s (heap_addr s + heap_used s + k)" if "unat (heap_used s) + unat k \<le> 1048576"
  proof -
    have "unat (heap_addr s + heap_used s + k) = unat (heap_addr s) + unat (heap_used s) + unat k"
      using kmem_ptr_unat [OF k] k that by (subst unat_add_no_wrap) (auto simp: kmem_inv_def)
    then show ?thesis by (simp add: in_heap_def kmem_owned_def)
  qed
  show "procs s (heap_addr s + heap_used s + k) = None \<or> unat (heap_used s) + unat k > 1048576"
    using n m by (auto simp: mem_ok_def not_less)
  show "ctxs s (heap_addr s + heap_used s + k) = None \<or> unat (heap_used s) + unat k > 1048576"
    using n m by (auto simp: mem_ok_def not_less)
qed

section \<open>Creating a process\<close>

lemmas create_sizes = sizeof_process_def sizeof_context_def sizeof_pt_regs_def KERNEL_STACK_SIZE_def

definition clamp_priority :: "u32 \<Rightarrow> u32" where
  "clamp_priority priority = (if priority < 5 then priority else 4)"

text \<open>The control block and context of a new process, placed from \<open>b = heap + heap_used\<close> on.\<close>

definition new_proc :: "u32 \<Rightarrow> kstate \<Rightarrow> process_t" where
  "new_proc priority s =
     (let b = heap_addr s + heap_used s
      in zero_process\<lparr>p_pid := next_pid s, p_state := PROCESS_READY,
           p_priority := clamp_priority priority,
           p_counter := COUNTER_INIT_VALUES ! unat (clamp_priority priority),
           p_context := b + 4264, p_pt_regs := b + 4424, p_parent := current s,
           p_name := proc_name (next_pid s), p_kernel_stack := b + 168\<rparr>)"

definition created :: "ptr \<Rightarrow> ptr \<Rightarrow> u32 \<Rightarrow> kstate \<Rightarrow> kstate" where
  "created entry arg priority s =
     (let b = heap_addr s + heap_used s
      in s\<lparr>heap_used := heap_used s + 4584, next_pid := next_pid s + 1,
           procs := (procs s)(b \<mapsto> new_proc priority s),
           ctxs := (ctxs s)(b + 4264 \<mapsto> context_init entry arg (b + 4264)),
           ptregs := (ptregs s)(b + 4424 \<mapsto> zero_pt_regs)\<rparr>)"

text \<open>An allocation after \<open>k\<close> bytes have been handed out since \<open>s\<close>.\<close>

lemma heap_offset_nonnull:
  assumes "kmem_inv s" "unat (heap_used s) + unat k \<le> 1048576"
  shows "heap_addr s + heap_used s + k \<noteq> NULL"
proof -
  have "unat (heap_addr s + heap_used s + k) = unat (heap_addr s) + unat (heap_used s) + unat k"
    using kmem_ptr_unat [OF assms(1)] assms by (subst unat_add_no_wrap) (auto simp: kmem_inv_def)
  then show ?thesis using assms(1) by (auto simp: kmem_inv_def)
qed

lemma kmalloc_at:
  fixes s t :: kstate
  assumes i: "kmem_inv s" and k: "unat (heap_used s) + unat k \<le> 1048576" "4 dvd unat k"
    and t: "heap_addr t = heap_addr s" "heap_used t = heap_used s + k"
    and n: "4 dvd unat n" "unat n < 2 ^ 63"
  shows "kmalloc n t = (if unat (heap_used s) + unat k + unat n > 1048576 then (NULL, t)
    else (heap_addr s + heap_used s + k, t\<lparr>heap_used := heap_used s + (k + n)\<rparr>))"
proof -
  have u: "unat (heap_used s + k) = unat (heap_used s) + unat k"
    using k(1) by (intro unat_add_no_wrap) simp
  have "kmem_inv t" using i k by (simp add: kmem_inv_def t u)
  from kmalloc_aligned [OF this n] show ?thesis by (simp add: t u add.assoc)
qed

text \<open>The four places where an allocation can fail, and the full run.\<close>

lemma process_create_ok:
  assumes m: "mem_ok s" and e: "entry \<noteq> NULL" and t: "task_count s < 64"
    and h: "unat (heap_used s) + 4584 \<le> 1048576"
  shows "process_create entry arg priority s =
      and_then (scheduler_add (heap_addr s + heap_used s)
        (task_insert (heap_addr s + heap_used s) (created entry arg priority s)))
        (\<lambda>_ s'. Ret (next_pid s) s')"
proof -
  let ?b = "heap_addr s + heap_used s"
  have i: "kmem_inv s" using m by (simp add: mem_ok_def)
  note K = kmalloc_aligned [OF i, of 168] kmalloc_at [OF i, of 168 _ 4096]
    kmalloc_at [OF i, of 4264 _ 160] kmalloc_at [OF i, of 4424 _ 160]
  have nz: "?b \<noteq> NULL" "?b + 168 \<noteq> NULL" "?b + 4264 \<noteq> NULL" "?b + 4424 \<noteq> NULL"
    using kmem_ptr_nonnull [OF i] heap_offset_nonnull [OF i, of 168]
      heap_offset_nonnull [OF i, of 4264] heap_offset_nonnull [OF i, of 4424] h by simp_all
  show ?thesis
    using e t h nz
    by (simp add: process_create_def clamp_priority_def [symmetric] create_sizes K Let_def put_proc_def
        put_ctx_def put_regs_def process_set_state_def exec_simps upd_proc_def)
       (rule arg_cong [of _ _ "\<lambda>x. and_then (scheduler_add (heap_addr s + heap_used s)
          (task_insert (heap_addr s + heap_used s) x)) _"],
        cases s, simp add: created_def new_proc_def Let_def zero_process_def ac_simps)
qed

text \<open>A control block, and possibly a context, have been placed in \<open>n\<close> new bytes.\<close>

lemma grown_by:
  assumes m: "mem_ok s" and h: "heap_addr s' = heap_addr s" "heap_used s' = heap_used s + n"
    "unat (heap_used s) + unat n \<le> 1048576" "4 dvd unat n" "168 \<le> unat n"
    and same: "next_pid s' = next_pid s + 1" "task s' = task s" "task_count s' = task_count s"
    "current s' = current s" "rq_head s' = rq_head s" "rq_tail s' = rq_tail s"
    and p: "\<And>p. p \<noteq> heap_addr s + heap_used s \<Longrightarrow> procs s' p = procs s p"
    and c: "\<And>p. p \<noteq> heap_addr s + heap_used s + 4264 \<Longrightarrow> ctxs s' p = ctxs s p"
    "4264 < unat n \<or> ctxs s' = ctxs s"
  shows "grown s s' \<and> mem_ok s'"
proof -
  have f: "procs s (heap_addr s + heap_used s) = None"
    using fresh_addr(1) [OF m, of 0] h(3) by simp
  have fc: "ctxs s (heap_addr s + heap_used s + 4264) = None" if "4264 < unat n"
    using fresh_addr(2) [OF m, of 4264] h(3) that by simp
  have "procs s \<subseteq>\<^sub>m procs s'" unfolding map_le_def using p f by (metis domIff)
  moreover have "ctxs s \<subseteq>\<^sub>m ctxs s'" unfolding map_le_def using c fc by (metis domIff)
  moreover have "unat (heap_used s') = unat (heap_used s) + unat n"
    unfolding h(2) using h(3) by (intro unat_add_no_wrap) simp
  ultimately have "grown s s'" using same h(1) next_pid_small(2) [OF m] by (simp add: grown_def)
  moreover have "mem_ok s'"
  proof (rule grown_mem [OF m h same(1)])
    fix q assume "procs s' q \<noteq> None"
    then show "procs s q \<noteq> None \<or> (\<exists>k. unat k < unat n \<and> q = heap_addr s + heap_used s + k)"
      using p [of q] h(5) by (cases "q = heap_addr s + heap_used s") (auto intro: exI [of _ 0])
  next
    fix q assume q: "ctxs s' q \<noteq> None"
    show "ctxs s q \<noteq> None \<or> (\<exists>k. unat k < unat n \<and> q = heap_addr s + heap_used s + k)"
    proof (cases "q = heap_addr s + heap_used s + 4264")
      case True
      then show ?thesis using c(2) q by (auto intro: exI [of _ 4264])
    qed (use c(1) q in simp)
  qed
  ultimately show ?thesis by blast
qed

lemma process_create_no_memory:
  assumes m: "mem_ok s" and e: "entry \<noteq> NULL" and t: "task_count s < 64"
    and h: "unat (heap_used s) + 4584 > 1048576"
  shows "\<exists>s'. process_create entry arg priority s = Ret (- 1) s' \<and>
    (s' = s \<or> grown s s' \<and> mem_ok s' \<and> next_pid s' = next_pid s + 1)"
proof -
  have i: "kmem_inv s" using m by (simp add: mem_ok_def)
  note run = process_create_def clamp_priority_def [symmetric] create_sizes kmalloc_aligned [OF i, of 168]
    kmalloc_at [OF i, of 168 _ 4096] kmalloc_at [OF i, of 4264 _ 160] kmalloc_at [OF i, of 4424 _ 160]
    Let_def put_proc_def put_ctx_def put_regs_def process_set_state_def exec_simps upd_proc_def
  consider (0) "unat (heap_used s) + 168 > 1048576"
    | (1) "unat (heap_used s) + 168 \<le> 1048576" "unat (heap_used s) + 4264 > 1048576"
    | (2) "unat (heap_used s) + 4264 \<le> 1048576" "unat (heap_used s) + 4424 > 1048576"
    | (3) "unat (heap_used s) + 4424 \<le> 1048576" using h by linarith
  then show ?thesis
  proof cases
    case 0
    then show ?thesis using e t by (simp add: run)
  next
    case 1
    then show ?thesis
      using e t kmem_ptr_nonnull [OF i]
      by (simp add: run) (rule disjI2, rule grown_by [OF m, of _ 168], simp_all)
  next
    case 2
    then show ?thesis
      using e t kmem_ptr_nonnull [OF i] heap_offset_nonnull [OF i, of 168]
      by (simp add: run) (rule disjI2, rule grown_by [OF m, of _ 4264], simp_all)
  next
    case 3
    then show ?thesis
      using h e t kmem_ptr_nonnull [OF i] heap_offset_nonnull [OF i, of 168]
        heap_offset_nonnull [OF i, of 4264]
      by (simp add: run) (rule disjI2, rule grown_by [OF m, of _ 4424], simp_all)
  qed
qed

text \<open>Entering a new ready process into the table and the queue.\<close>

lemma insert_slots:
  assumes t: "table_ok s" and c: "task_count s < 64" and p: "p \<noteq> NULL"
  obtains i as bs where "first_null (task s) = Some i" "i \<le> task_count s" "task (task_insert p s) = (task s)[i := p]"
    "used_slots (task s) = as @ bs" "used_slots (task (task_insert p s)) = as @ p # bs"
proof -
  have "length (task s) = 64" "task s ! task_count s = NULL" using t c by (auto simp: table_ok_def)
  then obtain i where i: "first_null (task s) = Some i" "i \<le> task_count s"
    using first_null_le [of "task_count s" "task s"] c by auto
  then have T: "task (task_insert p s) = (task s)[i := p]" by (simp add: task_insert_def)
  show thesis using that [OF i T] used_slots_update [OF i(1) p] T by auto
qed

lemma insert_table:
  assumes t: "table_ok s" and c: "task_count s < 64" and p: "p \<noteq> NULL" "p \<notin> tasks s"
    and pr: "view s p = Some pr" "proc_ok s pr" "p_pid pr \<noteq> 0" "p_pid pr \<notin> pid_of s ` tasks s"
  shows "table_ok (task_insert p s)" "tasks (task_insert p s) = insert p (tasks s)"
    "idle_task (task_insert p s) = idle_task s"
proof -
  have len: "length (task s) = 64" "0 < task_count s" "idle_task s \<noteq> NULL"
    using t by (auto simp: table_ok_def)
  let ?s = "task_insert p s"
  obtain i as bs where i: "first_null (task s) = Some i" "i \<le> task_count s" and T1: "task ?s = (task s)[i := p]"
    and u: "used_slots (task s) = as @ bs" "used_slots (task ?s) = as @ p # bs"
    using insert_slots [OF t c p(1)] by metis
  have T: "task ?s = (task s)[i := p]" "task_count ?s = (if i \<ge> task_count s then i + 1 else task_count s)"
    using i T1 by (simp_all add: task_insert_def)
  show ts: "tasks ?s = insert p (tasks s)" using u by (auto simp: tasks_def)
  have i0: "i \<noteq> 0" using i(1) len by (cases i) (auto simp: first_null_Some idle_task_def)
  then show idle: "idle_task ?s = idle_task s" by (simp add: idle_task_def T)
  have same: "view ?s = view s" "ctxs ?s = ctxs s" "next_pid ?s = next_pid s"
    by (auto simp: task_insert_def view_def fun_eq_iff split: option.splits)
  then have pid: "pid_of ?s = pid_of s" and ok: "proc_ok ?s = proc_ok s"
    by (simp_all add: pid_of_def proc_ok_def fun_eq_iff)
  have "distinct (used_slots (task ?s))" using t p(2) u by (auto simp: table_ok_def tasks_def)
  moreover have "\<forall>j<64. task_count ?s \<le> j \<longrightarrow> task ?s ! j = NULL"
    using t i c by (auto simp: T table_ok_def nth_list_update)
  moreover have "\<forall>q \<in> tasks ?s. \<exists>pr. view s q = Some pr \<and> proc_ok s pr"
    unfolding ts using pr(1,2) t by (simp add: table_ok_def)
  moreover have "pid_of s p = p_pid pr" using pr(1) by (simp add: pid_of_def)
  then have "inj_on (pid_of s) (tasks ?s)"
    unfolding ts using t pr(4) p(2) by (simp add: table_ok_def)
  moreover have "length (task ?s) = 64" "0 < task_count ?s" "task_count ?s \<le> 64"
    using len c i by (auto simp: T)
  ultimately show "table_ok ?s"
    using t unfolding table_ok_def idle pid ok same by simp
qed

lemma insert_inv:
  assumes i: "proc_inv s qs" and c: "task_count s < 64" and p: "p \<noteq> NULL" "p \<notin> tasks s"
    and pr: "view s p = Some pr" "proc_ok s pr" "p_pid pr \<noteq> 0" "p_pid pr \<notin> pid_of s ` tasks s"
    and r: "p_state pr = PROCESS_READY"
  shows "\<exists>s'. scheduler_add p (task_insert p s) = Ret () s' \<and> proc_inv s' (qs @ [p]) \<and>
    relinked (task_insert p s) s'"
proof -
  note d = proc_invD [OF i] and t = insert_table [OF proc_invD(2) [OF i] c p pr]
  let ?s = "task_insert p s"
  have same: "view ?s = view s" "procs ?s = procs s" "rq_head ?s = rq_head s" "rq_tail ?s = rq_tail s"
    "current ?s = current s" "heap_addr ?s = heap_addr s" "heap_used ?s = heap_used s"
    "next_pid ?s = next_pid s" "ctxs ?s = ctxs s"
    by (auto simp: task_insert_def view_def fun_eq_iff split: option.splits)
  have q: "queue_ok ?s qs" using d(4) by (simp add: queue_ok_def same)
  have v: "valid_proc ?s p" using p(1) pr(1) by (simp add: valid_proc_view same del: view_None)
  have n: "p \<notin> set qs" "current s \<noteq> p" using d(5,9) p(2) by auto
  obtain s' where s': "scheduler_add p ?s = Ret () s'" "queue_ok s' (qs @ [p])" "relinked ?s s'"
    using scheduler_add_ok [OF q v n(1)] by blast
  have vw: "view s' = view s" and co: "core s' = core ?s" and cu: "current s' = current s"
    using s'(3) by (simp_all add: relinked_def same)
  have tb: "same_table ?s s'" by (rule same_tableI [OF co]) (simp add: vw same)
  have "mem_ok ?s" using d(1) unfolding mem_ok_def in_heap_def kmem_owned_def kmem_inv_def same .
  then have "mem_ok s'" by (rule same_table_mem [OF tb])
  moreover have "table_ok s'" by (rule same_table_table [OF tb t(1)])
  moreover have "run_ok s' (qs @ [p]) {current s'}"
  proof (rule run_okI [OF tb s'(2)])
    fix x assume "x \<in> tasks ?s"
    then show "(st s' x = Some PROCESS_READY \<longleftrightarrow> x \<in> set (qs @ [p])) \<and>
        (st s' x = Some PROCESS_RUNNING \<longleftrightarrow> x \<in> {current s'})"
      using d(3) pr(1) r n p(2) by (auto simp: t(2) run_ok_def st_view vw cu)
  qed (use d n in \<open>auto simp: t cu run_ok_def\<close>)
  ultimately show ?thesis using s' by (auto simp: proc_inv_def)
qed

lemma created_grown:
  assumes m: "mem_ok s" and h: "unat (heap_used s) + 4584 \<le> 1048576"
  shows "grown s (created entry arg priority s) \<and> mem_ok (created entry arg priority s)"
  by (rule grown_by [OF m, of _ 4584]) (use h in \<open>simp_all add: created_def Let_def\<close>)

text \<open>The state in which a new process is entered: the invariant, and what is new of the process.\<close>

lemma created_new:
  assumes i: "proc_inv s qs" and h: "unat (heap_used s) + 4584 \<le> 1048576"
  defines "b \<equiv> heap_addr s + heap_used s"
  shows "proc_inv (created entry arg priority s) qs" "tasks (created entry arg priority s) = tasks s"
    "task_count (created entry arg priority s) = task_count s" "b \<noteq> NULL" "b \<notin> tasks s"
    "view (created entry arg priority s) b = Some (unlinked (new_proc priority s))"
    "proc_ok (created entry arg priority s) (unlinked (new_proc priority s))"
    "p_pid (new_proc priority s) = next_pid s" "p_state (new_proc priority s) = PROCESS_READY"
    "next_pid s \<notin> pid_of (created entry arg priority s) ` tasks s" "next_pid s \<notin> pid_of s ` tasks s"
proof -
  let ?s = "created entry arg priority s"
  note d = proc_invD [OF i] and g = created_grown [OF proc_invD(1) [OF i] h, of entry arg priority]
  have m: "mem_ok s" and k: "kmem_inv s" using d(1) by (auto simp: mem_ok_def)
  show "proc_inv ?s qs" by (rule grown_inv [OF _ i]) (use g in auto)
  have "procs s b = None" using fresh_addr(1) [OF m, of 0] h by (simp add: b_def)
  then show "b \<notin> tasks s" using tasks_valid [OF d(2), of b] by (auto simp: valid_proc_def)
  show "tasks ?s = tasks s" "task_count ?s = task_count s" using g by (auto simp: grown_def tasks_def)
  show "b \<noteq> NULL" using kmem_ptr_nonnull [OF k] by (simp add: b_def)
  show "view ?s b = Some (unlinked (new_proc priority s))" by (simp add: view_def created_def Let_def b_def)
  show "p_pid (new_proc priority s) = next_pid s" "p_state (new_proc priority s) = PROCESS_READY"
    by (simp_all add: new_proc_def Let_def)
  show "proc_ok ?s (unlinked (new_proc priority s))"
    using heap_offset_nonnull [OF k, of 4264] h next_pid_small(2) [OF m]
    by (simp add: proc_ok_def new_proc_def Let_def created_def zero_process_def)
  have old: "pid_of s p \<noteq> next_pid s" "pid_of ?s p = pid_of s p" if p: "p \<in> tasks s" for p
  proof -
    have "view ?s p = view s p"
      using grown_view [OF conjunct1 [OF g] tasks_valid [OF d(2) p]] by (simp add: view_def)
    then show "pid_of ?s p = pid_of s p" by (simp add: pid_of_def)
    obtain pr where "view s p = Some pr" "proc_ok s pr" by (rule table_procD [OF d(2) p])
    then show "pid_of s p \<noteq> next_pid s" by (auto simp: pid_of_def proc_ok_def)
  qed
  then show "next_pid s \<notin> pid_of ?s ` tasks s" "next_pid s \<notin> pid_of s ` tasks s" by fastforce+
qed

lemma create_room_inv:
  assumes i: "proc_inv s qs" and e: "entry \<noteq> NULL" and c: "task_count s < 64"
    and h: "unat (heap_used s) + 4584 \<le> 1048576"
  shows "\<exists>s'. process_create entry arg priority s = Ret (next_pid s) s' \<and>
    proc_inv s' (qs @ [heap_addr s + heap_used s]) \<and>
    relinked (task_insert (heap_addr s + heap_used s) (created entry arg priority s)) s'"
proof -
  note n = created_new [OF i h]
  have m: "mem_ok s" "next_pid s \<noteq> 0" using proc_invD(1) [OF i] by (auto simp: mem_ok_def)
  have "\<exists>s'. scheduler_add (heap_addr s + heap_used s)
      (task_insert (heap_addr s + heap_used s) (created entry arg priority s)) = Ret () s' \<and>
    proc_inv s' (qs @ [heap_addr s + heap_used s]) \<and>
    relinked (task_insert (heap_addr s + heap_used s) (created entry arg priority s)) s'"
    by (rule insert_inv [OF n(1) _ n(4) _ n(6,7)]) (use n(2,3,5,8-10) c m(2) in simp_all)
  then show ?thesis using process_create_ok [OF m(1) e c h, of arg priority] by auto
qed

lemma create_refused_inv:
  assumes i: "proc_inv s qs"
    and "entry = NULL \<or> task_count s \<ge> 64 \<or> unat (heap_used s) + 4584 > 1048576"
  shows "\<exists>s'. process_create entry arg priority s = Ret (- 1) s' \<and> proc_inv s' qs \<and>
    (s' = s \<or> grown s s' \<and> next_pid s' = next_pid s + 1)"
proof (cases "entry = NULL \<or> task_count s \<ge> 64")
  case True
  then show ?thesis using i by (auto simp: process_create_def)
next
  case False
  then show ?thesis
    using process_create_no_memory [OF proc_invD(1) [OF i], of entry arg priority] assms grown_inv [OF _ i]
    by auto
qed

section \<open>Initialisation\<close>

text \<open>The state after \<open>process_init\<close>: the idle process runs, alone.\<close>

definition initial :: "ptr \<Rightarrow> kstate" where
  "initial a = (boot_state a)\<lparr>heap_used := 4424, current := a, task := a # replicate 63 NULL,
     task_count := 1, ctxs := [a + 4264 \<mapsto> zero_context],
     procs := [a \<mapsto> zero_process\<lparr>p_state := PROCESS_RUNNING, p_kernel_stack := a + 168,
                     p_name := ''idle'', p_context := a + 4264\<rparr>]\<rparr>"

lemma init_run:
  assumes "a \<noteq> NULL" "unat a + 1048576 < 2 ^ 64"
  shows "process_init (boot_state a) = Ret () (initial a)"
proof -
  have i: "kmem_inv (boot_state a)" using assms by (simp add: kmem_inv_def boot_state_def)
  have nz: "a + 168 \<noteq> NULL" "a + 4264 \<noteq> NULL"
    using heap_offset_nonnull [OF i, of 168] heap_offset_nonnull [OF i, of 4264]
    by (simp_all add: boot_state_def)
  have k: "kmalloc 168 t = (a, t\<lparr>heap_used := 168\<rparr>)"
    if "heap_addr t = a" "heap_used t = 0" for t :: kstate
    using kmalloc_at [OF i, of 0 t 168] that by (simp add: boot_state_def)
  have k2: "kmalloc 4096 t = (a + 168, t\<lparr>heap_used := 4264\<rparr>)"
    if "heap_addr t = a" "heap_used t = 168" for t :: kstate
    using kmalloc_at [OF i, of 168 t 4096] that by (simp add: boot_state_def)
  have k3: "kmalloc 160 t = (a + 4264, t\<lparr>heap_used := 4424\<rparr>)"
    if "heap_addr t = a" "heap_used t = 4264" for t :: kstate
    using kmalloc_at [OF i, of 4264 t 160] that by (simp add: boot_state_def)
  have r: "(replicate 64 NULL)[0 := a] = a # replicate 63 NULL"
    by (simp add: numeral_eq_Suc)
  show ?thesis
    using assms(1) nz
    by (simp add: process_init_def create_sizes k k2 k3 Let_def put_proc_def put_ctx_def upd_proc_def
        scheduler_init_def initial_def boot_state_def r zero_process_def)
qed

lemma initial_inv:
  assumes "a \<noteq> NULL" "unat a + 1048576 < 2 ^ 64"
  shows "proc_inv (initial a) []"
proof -
  let ?s = "initial a"
  have off: "unat (a + 4264) = unat a + 4264"
    using assms(2) unat_add_no_wrap [of a 4264] by simp
  then have nz: "a + 4264 \<noteq> NULL" using unat_zero_iff [of "a + 4264"] by linarith
  have u: "used_slots (task ?s) = [a]" using assms(1) by (simp add: initial_def used_slots_def)
  have v: "view ?s p = (if p = a then Some (zero_process\<lparr>p_state := PROCESS_RUNNING,
      p_kernel_stack := a + 168, p_name := ''idle'', p_context := a + 4264\<rparr>) else None)" for p
    by (simp add: view_def initial_def unlinked_def zero_process_def)
  have "mem_ok ?s"
    unfolding mem_ok_def in_heap_def kmem_owned_def v
    using assms off by (auto simp: kmem_inv_def initial_def boot_state_def split: if_splits)
  moreover have "table_ok ?s"
    using u nz assms(1) unfolding table_ok_def tasks_def
    by (simp add: proc_ok_def pid_of_def v idle_task_def)
       (simp add: initial_def boot_state_def zero_process_def nth_Cons split: nat.splits)
  moreover have "run_ok ?s [] {current ?s}"
    using u unfolding run_ok_def tasks_def
    by (simp add: st_view v idle_task_def) (simp add: initial_def boot_state_def queue_ok_def)
  ultimately show ?thesis by (simp add: proc_inv_def)
qed

end
