(* ===== verification/Safe_Calls.thy ===== *)
theory Safe_Calls
  imports Kernel_Prelude
begin

text \<open>
  Sequences of calls into a component. When each call that its caller is allowed to make ends
  without a fault and keeps an invariant, so does every sequence of allowed calls.
\<close>

fun run_calls :: "('c \<Rightarrow> 's \<Rightarrow> (unit, 's) exec) \<Rightarrow> 'c list \<Rightarrow> 's \<Rightarrow> 's option" where
  "run_calls run [] s = Some s"
| "run_calls run (c # cs) s =
     (case run c s of Ret _ s' \<Rightarrow> run_calls run cs s' | Xfer _ s' \<Rightarrow> run_calls run cs s'
      | Spin _ \<Rightarrow> None | Crash _ \<Rightarrow> None)"

fun all_allowed :: "('c \<Rightarrow> 's \<Rightarrow> bool) \<Rightarrow> ('c \<Rightarrow> 's \<Rightarrow> (unit, 's) exec) \<Rightarrow> 'c list \<Rightarrow> 's \<Rightarrow> bool" where
  "all_allowed ok run [] s = True"
| "all_allowed ok run (c # cs) s =
     (ok c s \<and> (case exec_state (run c s) of None \<Rightarrow> True | Some s' \<Rightarrow> all_allowed ok run cs s'))"

lemma run_calls_append:
  "run_calls run (cs @ ds) s = (case run_calls run cs s of None \<Rightarrow> None | Some s' \<Rightarrow> run_calls run ds s')"
  by (induction cs arbitrary: s) (auto split: exec.splits)

text \<open>Calls without an obligation are always allowed.\<close>

lemma all_allowedI: "(\<And>c s. c \<in> set cs \<Longrightarrow> ok c s) \<Longrightarrow> all_allowed ok run cs s"
  by (induction cs arbitrary: s) (auto split: option.splits)

definition hands_on :: "(unit, 's) exec \<Rightarrow> 's \<Rightarrow> bool" where
  "hands_on r s' \<longleftrightarrow> r = Ret () s' \<or> (\<exists>t. r = Xfer t s')"

locale safe_calls =
  fixes run :: "'c \<Rightarrow> 's \<Rightarrow> (unit, 's) exec"
    and ok :: "'c \<Rightarrow> 's \<Rightarrow> bool"
    and inv :: "'s \<Rightarrow> bool"
  assumes safe: "inv s \<Longrightarrow> ok c s \<Longrightarrow> \<exists>s'. hands_on (run c s) s' \<and> inv s'"
begin

lemma run_calls_inv:
  assumes "inv s" "all_allowed ok run cs s"
  shows "\<exists>s'. run_calls run cs s = Some s' \<and> inv s'"
  using assms
proof (induction cs arbitrary: s)
  case (Cons c cs)
  then obtain s' where "hands_on (run c s) s'" "inv s'" using safe [of s c] by auto
  then show ?case using Cons by (auto simp: hands_on_def)
qed simp

end

end
