(* ===== verification/Process_System.thy ===== *)
theory Process_System
  imports Process_Create Safe_Calls
begin

text \<open>
  The process subsystem as a whole: the calls the rest of the kernel makes into it, the states
  they reach from \<open>process_init\<close>, and what holds in all of them.
\<close>

section \<open>The calls into the process subsystem\<close>

datatype kcall =
  Create ptr ptr u32 | Exit s32 | Wait s32 bool | Timer | Yield | Block | Wake ptr

fun kcall_run :: "kcall \<Rightarrow> kstate \<Rightarrow> (unit, kstate) exec" where
  "kcall_run (Create entry arg priority) s =
     and_then (process_create entry arg priority s) (\<lambda>_ s. Ret () s)"
| "kcall_run (Exit code) s = process_exit code s"
| "kcall_run (Wait pid w) s = and_then (process_wait pid w s) (\<lambda>_ s. Ret () s)"
| "kcall_run Timer s = do_timer s"
| "kcall_run Yield s = schedule s"
| "kcall_run Block s = scheduler_block s"
| "kcall_run (Wake p) s = scheduler_wake p s"

text \<open>Two calls have a caller's obligation the code does not check: the idle process must not
  block, and a pointer passed to \<open>scheduler_wake\<close> is null or a process of the table.\<close>

fun kcall_ok :: "kcall \<Rightarrow> kstate \<Rightarrow> bool" where
  "kcall_ok Block s = (current s \<noteq> idle_task s)"
| "kcall_ok (Wake p) s = (p = NULL \<or> p \<in> tasks s)"
| "kcall_ok _ s = True"

inductive reachable :: "ptr \<Rightarrow> kstate \<Rightarrow> bool" for a where
  start: "process_init (boot_state a) = Ret () s \<Longrightarrow> reachable a s"
| call: "reachable a s \<Longrightarrow> kcall_ok c s \<Longrightarrow> kcall_run c s = Ret () s' \<Longrightarrow> reachable a s'"
| switch: "reachable a s \<Longrightarrow> kcall_ok c s \<Longrightarrow> kcall_run c s = Xfer t s' \<Longrightarrow> reachable a s'"

text \<open>The heap array is a C object of 1 MB.\<close>

definition heap_placed :: "ptr \<Rightarrow> bool" where
  "heap_placed a \<longleftrightarrow> a \<noteq> NULL \<and> unat a + 1048576 < 2 ^ 64"

section \<open>Every call keeps the invariant\<close>

lemma upd_inv:
  assumes i: "proc_inv s qs" and f: "\<And>pr. static (f pr) = static pr" "\<And>pr. p_state (f pr) = p_state pr"
    "\<And>pr. p_next (f pr) = p_next pr" "\<And>pr. unlinked (f pr) = f (unlinked pr)"
  shows "proc_inv (upd_proc p f s) qs"
proof -
  note d = proc_invD [OF i]
  have v: "view (upd_proc p f s) = (view s)(p := map_option f (view s p))"
    using f(4) by (rule view_upd_proc)
  have t: "same_table s (upd_proc p f s)"
    by (rule same_tableI) (auto simp: v f(1) option.map_comp comp_def)
  have st: "st (upd_proc p f s) q = st s q" for q
    by (auto simp: st_view v f(2) option.map_comp comp_def)
  have "run_ok (upd_proc p f s) qs {current s}"
    by (rule run_okI [OF t]) (use d(3,4) f(3) in \<open>auto simp: run_ok_def st\<close>)
  then show ?thesis
    using same_table_mem [OF t d(1)] same_table_table [OF t d(2)] by (simp add: proc_inv_def)
qed

definition ticked :: "process_t \<Rightarrow> process_t" where
  "ticked pr = pr\<lparr>p_cpu_time := p_cpu_time pr + 1,
     p_counter := (if p_counter pr > 0 then p_counter pr - 1 else 0)\<rparr>"

lemma ticked_sel [simp]:
  "static (ticked pr) = static pr" "p_state (ticked pr) = p_state pr" "p_next (ticked pr) = p_next pr"
  "unlinked (ticked pr) = ticked (unlinked pr)" "p_context (ticked pr) = p_context pr"
  by (simp_all add: ticked_def static_def unlinked_def)

lemma do_timer_run:
  assumes c: "procs s (current s) = Some c" "current s \<noteq> NULL"
  shows "do_timer s = (if p_counter c \<le> 1 then schedule (upd_proc (current s) ticked s)
    else Ret () (upd_proc (current s) ticked s))"
proof -
  have z: "p_counter c - 1 = 0 \<longleftrightarrow> p_counter c = 1" by simp
  have o: "p_counter c \<le> 1 \<longleftrightarrow> p_counter c = 0 \<or> p_counter c = 1" by (rule word_le_1)
  have u: "upd_proc (current s) ticked s =
      (let t = upd_proc (current s) (\<lambda>pr. pr\<lparr>p_cpu_time := p_cpu_time pr + 1\<rparr>) s
       in if p_counter c > 0 then upd_proc (current s) (\<lambda>pr. pr\<lparr>p_counter := p_counter pr - 1\<rparr>) t else t)"
    using c by (cases c) (auto simp: upd_proc_def ticked_def word_gt_0 Let_def)
  show ?thesis
    using c unfolding o
    by (auto simp: do_timer_def exec_simps u Let_def z)
qed

lemma timer_inv:
  assumes i: "proc_inv s qs"
  shows "\<exists>s' qs'. hands_on (do_timer s) s' \<and> proc_inv s' qs'"
proof -
  note d = proc_invD [OF i]
  obtain c where c: "procs s (current s) = Some c" "current s \<noteq> NULL"
    using d(8) by (auto simp: valid_proc_def)
  have t: "proc_inv (upd_proc (current s) ticked s) qs" by (rule upd_inv [OF i]) simp_all
  show ?thesis
  proof (cases qs)
    case Nil
    then show ?thesis using t schedule_alone do_timer_run [OF c] by (auto simp: hands_on_def)
  next
    case (Cons n ns)
    then show ?thesis
      using t schedule_inv [of "upd_proc (current s) ticked s" n ns] do_timer_run [OF c]
      by (cases "p_counter c \<le> 1") (auto simp: hands_on_def)
  qed
qed

lemma yield_inv:
  assumes "proc_inv s qs"
  shows "\<exists>s' qs'. hands_on (schedule s) s' \<and> proc_inv s' qs'"
  using assms schedule_alone [of s] schedule_inv [of s] by (cases qs) (fastforce simp: hands_on_def)+

lemma wait_inv:
  assumes i: "proc_inv s qs"
  shows "\<exists>s' qs'. hands_on (and_then (process_wait pid w s) (\<lambda>_ s. Ret () s)) s' \<and> proc_inv s' qs'"
proof (cases "current s = idle_task s \<or> pid_of s (current s) = pid \<or> pid \<notin> pid_of s ` tasks s")
  case True
  then show ?thesis using wait_refused [OF i] i by (auto simp: hands_on_def)
next
  case False
  then obtain p where p: "p \<in> tasks s" "p \<noteq> current s" "pid = pid_of s p" "current s \<noteq> idle_task s" by auto
  obtain pr where pr: "view s p = Some pr" by (rule table_procD [OF proc_invD(2) [OF i] p(1)])
  show ?thesis
  proof (cases "st s p = Some PROCESS_TERMINATED")
    case True
    then show ?thesis
      using reap_inv [OF i p(1) True pr] wait_target [OF i p(4,1,2)] p(3) by (auto simp: hands_on_def)
  next
    case no: False
    then show ?thesis
      using wait_blocks [OF i p(4,1,2) no, of w] p(3) by (auto simp: hands_on_def)
  qed
qed

lemma exit_idle:
  assumes i: "proc_inv s qs" and idle: "current s = idle_task s"
  shows "process_exit code s = Ret () s"
proof -
  note d = proc_invD [OF i]
  obtain c where "procs s (current s) = Some c" "current s \<noteq> NULL" "p_pid c = pid_of s (current s)"
    using d(8) by (auto simp: valid_proc_def pid_of_def view_def)
  moreover have "pid_of s (current s) = 0" using pid_zero_idle [OF d(2,5)] idle by simp
  ultimately show ?thesis by (simp add: process_exit_def exec_simps)
qed

lemma exit_any_inv:
  assumes i: "proc_inv s qs"
  shows "\<exists>s' qs'. hands_on (process_exit code s) s' \<and> proc_inv s' qs'"
proof (cases "current s = idle_task s")
  case True
  then show ?thesis using exit_idle [OF i] i by (auto simp: hands_on_def)
next
  case False
  then show ?thesis using exit_inv [OF i False, of code] by (auto simp: hands_on_def)
qed

lemma create_inv:
  assumes i: "proc_inv s qs"
  shows "\<exists>v s' qs'. process_create entry arg priority s = Ret v s' \<and> proc_inv s' qs'"
proof (cases "entry = NULL \<or> task_count s \<ge> 64 \<or> unat (heap_used s) + 4584 > 1048576")
  case True
  then show ?thesis using create_refused_inv [OF i True] by blast
next
  case False
  then show ?thesis using create_room_inv [OF i, of entry] by fastforce
qed

interpretation kernel: safe_calls kcall_run kcall_ok "\<lambda>s. \<exists>qs. proc_inv s qs"
proof
  fix s c assume "\<exists>qs. proc_inv s qs" and ok: "kcall_ok c s"
  then obtain qs where i: "proc_inv s qs" by blast
  show "\<exists>s'. hands_on (kcall_run c s) s' \<and> (\<exists>qs. proc_inv s' qs)"
  proof (cases c)
    case (Create entry arg priority)
    then show ?thesis using create_inv [OF i, of entry arg priority] by (auto simp: hands_on_def)
  next
    case (Wait pid w)
    then show ?thesis using wait_inv [OF i] by auto
  next
    case Block
    then show ?thesis using block_inv [OF i] ok by (auto simp: hands_on_def)
  next
    case (Wake p)
    show ?thesis
    proof (cases "p = NULL")
      case True
      then show ?thesis using Wake i by (auto simp: hands_on_def scheduler_wake_def)
    next
      case False
      then have "p \<in> tasks s" using ok Wake by simp
      then show ?thesis 
        using Wake wake_inv [OF i, of p] i by (cases "st s p = Some PROCESS_BLOCKED") (auto simp: hands_on_def)
    qed
  qed (use exit_any_inv [OF i] timer_inv [OF i] yield_inv [OF i] in auto)
qed

lemma reachable_inv:
  assumes "reachable a s" "heap_placed a"
  shows "\<exists>qs. proc_inv s qs"
  using assms(1)
proof induction
  case (start s)
  then show ?case
    using init_run [of a] initial_inv [of a] assms(2) by (auto simp: heap_placed_def)
next
  case (call s c s')
  then show ?case using kernel.safe [of s c] by (auto simp: hands_on_def)
next
  case (switch s c t s')
  then show ?case using kernel.safe [of s c] by (auto simp: hands_on_def)
qed

end
