(* ===== verification/Process_Props.thy ===== *)
theory Process_Props
  imports Process_System
begin

text \<open>
  The correctness properties of the process subsystem, over the lemmas of \<open>Process_Ops\<close>,
  \<open>Process_Create\<close> and \<open>Process_System\<close>, and the example state their witnesses run on.
\<close>

section \<open>An example\<close>

text \<open>Process 1 runs, the idle process is queued, process 2 has ended with code 7, process 3 is
  blocked; everything lies where \<open>process_init\<close> and three calls of \<open>process_create\<close> put it.\<close>

definition demo_proc :: "ptr \<Rightarrow> s32 \<Rightarrow> process_state_t \<Rightarrow> process_t" where
  "demo_proc b pid x = zero_process\<lparr>p_pid := pid, p_state := x, p_context := b + 4264,
     p_kernel_stack := b + 168, p_pt_regs := b + 4424\<rparr>"

definition demo :: kstate where
  "demo = (boot_state 0x100000)\<lparr>heap_used := 0x4700, next_pid := 4, current := 0x101148,
     task := [0x100000, 0x101148, 0x102330, 0x103518] @ replicate 60 NULL, task_count := 4,
     rq_head := 0x100000, rq_tail := 0x100000,
     procs := [0x100000 \<mapsto> demo_proc 0x100000 0 PROCESS_READY,
               0x101148 \<mapsto> demo_proc 0x101148 1 PROCESS_RUNNING,
               0x102330 \<mapsto> (demo_proc 0x102330 2 PROCESS_TERMINATED)\<lparr>p_exit_code := 7\<rparr>,
               0x103518 \<mapsto> demo_proc 0x103518 3 PROCESS_BLOCKED],
     ctxs := [0x1010A8 \<mapsto> zero_context, 0x1021F0 \<mapsto> zero_context, 0x1033D8 \<mapsto> zero_context,
              0x1045C0 \<mapsto> zero_context]\<rparr>"

lemma demo_used: "used_slots (task demo) = [0x100000, 0x101148, 0x102330, 0x103518]"
  by (simp add: demo_def used_slots_def)

lemma demo_view:
  "view demo p = (if p = 0x103518 then Some (demo_proc 0x103518 3 PROCESS_BLOCKED)
     else if p = 0x102330 then Some ((demo_proc 0x102330 2 PROCESS_TERMINATED)\<lparr>p_exit_code := 7\<rparr>)
     else if p = 0x101148 then Some (demo_proc 0x101148 1 PROCESS_RUNNING)
     else if p = 0x100000 then Some (demo_proc 0x100000 0 PROCESS_READY) else None)"
  by (simp add: view_def demo_def demo_proc_def unlinked_def zero_process_def)

lemma demo_inv: "proc_inv demo [0x100000]"
proof -
  have "mem_ok demo"
    unfolding mem_ok_def in_heap_def kmem_owned_def demo_view
    by (auto simp: demo_def boot_state_def kmem_inv_def split: if_splits)
  moreover have "table_ok demo"
    unfolding table_ok_def tasks_def demo_used
    by (simp add: proc_ok_def pid_of_def demo_view idle_task_def)
       (simp add: demo_def boot_state_def demo_proc_def zero_process_def nth_append less_Suc_eq
         split: nat.splits)
  moreover have "run_ok demo [0x100000] {current demo}"
    unfolding run_ok_def tasks_def demo_used
    by (simp add: st_view demo_view idle_task_def)
       (simp add: demo_def boot_state_def queue_ok_def demo_proc_def zero_process_def)
  ultimately show ?thesis by (simp add: proc_inv_def)
qed

lemma demo_facts:
  "current demo = 0x101148" "idle_task demo = 0x100000" "tasks demo = {0x100000, 0x101148, 0x102330, 0x103518}"
  "st demo 0x102330 = Some PROCESS_TERMINATED" "pid_of demo 0x101148 = 1" "pid_of demo 0x102330 = 2"
  "blocked demo = [0x103518]" "st demo 0x103518 = Some PROCESS_BLOCKED" "pid_of demo 0x103518 = 3"
  by (simp_all add: tasks_def demo_used blocked_def st_view pid_of_def demo_view demo_proc_def zero_process_def)
     (simp_all add: demo_def idle_task_def)

section \<open>All reachable states\<close>

lemma placed_demo: "heap_placed 0x100000"
  by (simp add: heap_placed_def)

lemma initial_reachable: "reachable 0x100000 (initial 0x100000)"
  by (rule reachable.start) (rule init_run, use placed_demo in \<open>auto simp: heap_placed_def\<close>)

text \<open>No call faults and none loops for ever: in every reachable state every call (the idle
  process does not block, a pointer to wake is null or in the table) either returns or hands the
  processor to another process, and the state it leaves is reachable again.\<close>

theorem kernel_calls_safe:
  assumes "heap_placed a" "reachable a s" "kcall_ok c s"
  shows "\<exists>s'. hands_on (kcall_run c s) s' \<and> reachable a s'"
proof -
  obtain s' where s': "hands_on (kcall_run c s) s'"
    using kernel.safe [OF reachable_inv [OF assms(2,1)] assms(3)] by blast
  then have "reachable a s'"
    using assms(2,3) by (auto simp: hands_on_def intro: reachable.intros)
  with s' show ?thesis by blast
qed

theorem kernel_calls_safe_witness:
  "\<exists>s'. hands_on (do_timer (initial 0x100000)) s' \<and> reachable 0x100000 s'"
  using kernel_calls_safe [OF placed_demo initial_reachable, of Timer] by simp

text \<open>Process numbers are never reused while in the table: in every reachable state two
  different processes of the table have different numbers, the number of every process is below
  \<open>next_pid\<close>, and \<open>next_pid\<close> cannot overflow, since the 1 MB heap is exhausted after at most 6242
  processes.\<close>

theorem reachable_pids:
  assumes "heap_placed a" "reachable a s" "p \<in> tasks s" "q \<in> tasks s"
  shows "(pid_of s p = pid_of s q \<longleftrightarrow> p = q) \<and> unat (pid_of s p) < unat (next_pid s) \<and>
    unat (next_pid s) < 6243 \<and> (pid_of s p = 0 \<longleftrightarrow> p = idle_task s)"
proof -
  obtain qs where "proc_inv s qs" using reachable_inv [OF assms(2,1)] by blast
  then have t: "table_ok s" "mem_ok s" by (auto simp: proc_inv_def)
  obtain pr where "view s p = Some pr" "proc_ok s pr" by (rule table_procD [OF t(1) assms(3)])
  moreover have "pid_of s p = pid_of s q \<longleftrightarrow> p = q" using t(1) assms(3,4) by (auto simp: table_ok_def inj_on_def)
  ultimately show ?thesis
    using next_pid_small(1) [OF t(2)] pid_zero_idle [OF t(1) assms(3)]
    by (simp add: pid_of_def proc_ok_def)
qed

theorem reachable_pids_witness:
  "unat (pid_of (initial 0x100000) 0x100000) < unat (next_pid (initial 0x100000))"
proof -
  have "0x100000 \<in> tasks (initial 0x100000)" by (simp add: tasks_def initial_def used_slots_def)
  then show ?thesis using reachable_pids [OF placed_demo initial_reachable] by blast
qed

text \<open>\<open>process_init\<close> on the static state builds the idle process (number 0, running, in slot 0,
  with a 4 KB stack and a zeroed context), makes it current, empties the ready queue and
  establishes the subsystem's invariant.\<close>

theorem process_init_correct:
  assumes "heap_placed a"
  shows "process_init (boot_state a) = Ret () (initial a) \<and> proc_inv (initial a) [] \<and>
    current (initial a) = a \<and> idle_task (initial a) = a \<and> tasks (initial a) = {a} \<and>
    st (initial a) a = Some PROCESS_RUNNING"
  using assms init_run [of a] initial_inv [of a]
  by (simp add: heap_placed_def) (simp add: initial_def idle_task_def tasks_def used_slots_def st_def)

theorem process_init_correct_witness:
  "process_init (boot_state 0x100000) = Ret () (initial 0x100000)"
  using process_init_correct [OF placed_demo] by blast

section \<open>Creating, ending and awaiting\<close>



text \<open>\<open>process_create\<close> returns -1 exactly when the entry point is null, all 64 slots are in use or
  one of its four allocations fails; then the table, the queue and every process in the table
  are as before (a process number and heap memory may be lost).\<close>

theorem process_create_refused:
  assumes i: "proc_inv s qs"
  shows "((\<exists>s'. process_create entry arg priority s = Ret (- 1) s') \<longleftrightarrow>
      entry = NULL \<or> task_count s \<ge> 64 \<or> unat (heap_used s) + 4584 > unat HEAP_SIZE) \<and>
    (\<forall>s'. process_create entry arg priority s = Ret (- 1) s' \<longrightarrow> proc_inv s' qs \<and> tasks s' = tasks s \<and>
      current s' = current s \<and> (\<forall>q \<in> tasks s. view s' q = view s q))"
proof -
  have np: "next_pid s \<noteq> - 1"
  proof
    assume "next_pid s = - 1"
    then show False using next_pid_small(2) [OF proc_invD(1) [OF i]] by simp
  qed
  have same: "view s' q = view s q" if "grown s s'" "q \<in> tasks s" for q s'
    using grown_view [OF that(1) tasks_valid [OF proc_invD(2) [OF i] that(2)]] by (simp add: view_def)
  show ?thesis
  proof (cases "entry = NULL \<or> task_count s \<ge> 64 \<or> unat (heap_used s) + 4584 > 1048576")
    case True
    obtain s' where s': "process_create entry arg priority s = Ret (- 1) s'" "proc_inv s' qs"
        "s' = s \<or> grown s s'"
      using create_refused_inv [OF i True, of arg priority] by blast
    have "tasks s' = tasks s" "current s' = current s" using s'(3) by (auto simp: grown_def tasks_def)
    moreover have "\<forall>q \<in> tasks s. view s' q = view s q" using s'(3) same by blast
    ultimately show ?thesis using s'(1,2) True by simp
  next
    case False
    then show ?thesis using create_room_inv [OF i, of entry arg priority] np by auto
  qed
qed

theorem process_create_refused_witness:
  "(\<exists>s'. process_create 0 0 1 demo = Ret (- 1) s') \<and> \<not> (\<exists>s'. process_create 0x4000 0 1 demo = Ret (- 1) s')"
proof -
  have "task_count demo < 64" "unat (heap_used demo) + 4584 \<le> unat HEAP_SIZE" by (simp_all add: demo_def)
  then show ?thesis
    using process_create_refused [OF demo_inv, of NULL 0 1]
      process_create_refused [OF demo_inv, of "0x4000" 0 1] by simp
qed

text \<open>C8. \<open>process_exit\<close> of a process other than the idle one records its exit code, marks it terminated,
  releases its register area, puts every blocked process (in table order) behind the ready ones
  and switches to the first of them; there always is one, so the loop after the switch is never
  entered. The ended process stays in the table until it is reaped. The idle process cannot exit.\<close>

theorem process_exit_correct:
  assumes "proc_inv s qs"
  shows "if current s = idle_task s then process_exit code s = Ret () s
    else \<exists>m ms s' pr. qs @ blocked s = m # ms \<and>
      process_exit code s = Xfer (switch_between s (current s) m) s' \<and>
      proc_inv s' ms \<and> current s' = m \<and> tasks s' = tasks s \<and>
      view s' (current s) = Some pr \<and> p_state pr = PROCESS_TERMINATED \<and> p_exit_code pr = code \<and>
      p_pt_regs pr = NULL"
proof (cases "current s = idle_task s")
  case True
  then show ?thesis using exit_idle [OF assms True] by simp
next
  case False
  note d = proc_invD [OF assms]
  obtain m ms s' where s': "qs @ blocked s = m # ms" "process_exit code s = Xfer (switch_between s (current s) m) s'"
    "proc_inv s' ms" "current s' = m" "core s' = core (exit_state code s)"
    "view s' (current s) = map_option (exited code) (view s (current s))"
    using exit_inv [OF assms False, of code] by blast
  obtain c where c: "view s (current s) = Some c" by (rule table_procD [OF d(2,5)])
  have "task (exit_state code s) = task s" by (auto simp: exit_state_def split: option.splits)
  then have "tasks s' = tasks s" using core_eqD(7) [OF s'(5)] by (simp add: tasks_def)
  then show ?thesis using s' c False by (simp add: exited_def)
qed

theorem process_exit_correct_witness:
  "\<exists>s'. process_exit 5 demo = Xfer (switch_between demo 0x101148 0x100000) s' \<and> proc_inv s' [0x103518] \<and>
     current s' = 0x100000"
  using process_exit_correct [OF demo_inv, of 5] demo_facts by auto

text \<open>C10. \<open>process_wait\<close>, all branches: the idle process, a process that names itself or a number that
  is not in the table gets -1 and changes nothing; a terminated target is reaped at once, its exit
  code returned, and it leaves the table; otherwise the caller is blocked and the head of the
  ready queue runs.\<close>

theorem process_wait_correct:
  assumes i: "proc_inv s qs"
  shows "if current s = idle_task s \<or> pid_of s (current s) = pid \<or> pid \<notin> pid_of s ` tasks s
    then process_wait pid w s = Ret (- 1, None) s
    else \<exists>p pr. p \<in> tasks s \<and> pid_of s p = pid \<and> view s p = Some pr \<and>
      (if p_state pr = PROCESS_TERMINATED
       then \<exists>s'. process_wait pid w s = Ret (0, if w then Some (p_exit_code pr) else None) s' \<and>
         proc_inv s' qs \<and> tasks s' = tasks s - {p} \<and> current s' = current s
       else \<exists>m ms s'. qs = m # ms \<and> process_wait pid w s = Xfer (switch_between s (current s) m) s' \<and>
         proc_inv s' ms \<and> current s' = m \<and> st s' (current s) = Some PROCESS_BLOCKED)"
proof (cases "current s = idle_task s \<or> pid_of s (current s) = pid \<or> pid \<notin> pid_of s ` tasks s")
  case True
  then show ?thesis using wait_refused [OF i True] by simp
next
  case False
  note d = proc_invD [OF i]
  obtain p where p: "p \<in> tasks s" "p \<noteq> current s" "pid = pid_of s p" "current s \<noteq> idle_task s"
    using False by auto
  obtain pr where pr: "view s p = Some pr" by (rule table_procD [OF d(2) p(1)])
  have st: "st s p = Some (p_state pr)" by (simp add: st_view pr)
  show ?thesis
  proof (cases "p_state pr = PROCESS_TERMINATED")
    case True
    then have t: "st s p = Some PROCESS_TERMINATED" using st by simp
    note r = reap_inv [OF i p(1) t pr]
    have "tasks (reaped p pr s) = tasks s - {p}"
      using r d(2) by (simp add: tasks_def table_ok_def)
    moreover have "current (reaped p pr s) = current s"
      by (simp add: reaped_def task_recount_def task_remove_def Let_def)
    ultimately show ?thesis
      using False p pr st True r wait_target [OF i p(4,1,2), of w] by auto
  next
    case no: False
    then obtain m ms s' where s': "qs = m # ms" "process_wait pid w s = Xfer (switch_between s (current s) m) s'"
      "proc_inv s' ms" "current s' = m"
      "view s' = set_st m PROCESS_RUNNING (set_st (current s) PROCESS_BLOCKED (view s))"
      using wait_blocks [OF i p(4,1,2), of w] st p(3) by auto
    have "st s' (current s) = Some PROCESS_BLOCKED"
      using s'(1) d(6,8) by (auto simp: st_view s'(5) valid_proc_view)
    then show ?thesis using False p pr no s' by auto
  qed
qed

theorem process_wait_correct_witness:
  "\<exists>s'. process_wait 2 True demo = Ret (0, Some 7) s' \<and> tasks s' = {0x100000, 0x101148, 0x103518}"
  using process_wait_correct [OF demo_inv, of 2 True] demo_facts
  by (auto simp: demo_view pid_of_def demo_proc_def zero_process_def split: if_splits)

text \<open>C9. Exit codes arrive: after a process has exited with a code, the process that runs next (not the
  idle one) can wait for its number and gets exactly that code; the number then leaves the table
  and a second wait fails.\<close>

theorem exit_then_wait:
  assumes i: "proc_inv s qs" and n: "current s \<noteq> idle_task s"
    and e: "process_exit code s = Xfer t s'" and n': "current s' \<noteq> idle_task s'"
  shows "\<exists>s''. process_wait (pid_of s (current s)) True s' = Ret (0, Some code) s'' \<and>
    tasks s'' = tasks s - {current s} \<and>
    process_wait (pid_of s (current s)) w s'' = Ret (- 1, None) s''"
proof -
  let ?c = "current s"
  note d = proc_invD [OF i]
  obtain ms where s': "proc_inv s' ms" "core s' = core (exit_state code s)"
    "view s' ?c = map_option (exited code) (view s ?c)" "\<forall>p. pid_of s' p = pid_of s p"
    using exit_inv [OF i n, of code] e by auto
  note d' = proc_invD [OF s'(1)]
  have t: "tasks s' = tasks s"
    using core_eqD(7) [OF s'(2)] by (auto simp: tasks_def exit_state_def split: option.splits)
  obtain c where c: "view s ?c = Some c" by (rule table_procD [OF d(2,5)])
  have v: "view s' ?c = Some (exited code c)" using s'(3) c by simp
  then have z: "st s' ?c = Some PROCESS_TERMINATED" by (simp add: st_view)
  have p: "?c \<in> tasks s'" "?c \<noteq> current s'" using d(5) t z d'(7) by auto
  note r = reap_inv [OF s'(1) p(1) z v]
  let ?s = "reaped ?c (exited code c) s'"
  have "process_wait (pid_of s ?c) True s' = Ret (0, Some code) ?s"
    using wait_target [OF s'(1) n' p, of True] z r(1) [of True] s'(4) by simp
  moreover have ts: "tasks ?s = tasks s - {?c}"
    using r(3) d'(2) t by (simp add: tasks_def table_ok_def)
  moreover have "process_wait (pid_of s ?c) w ?s = Ret (- 1, None) ?s"
  proof (rule wait_refused [OF r(2)])
    have "view ?s = view s'" by (simp add: reaped_def task_recount_def task_remove_def Let_def view_def fun_eq_iff)
    then have pid: "pid_of ?s q = pid_of s q" for q using s'(4) by (simp add: pid_of_def)
    have "pid_of s ?c \<notin> pid_of s ` (tasks s - {?c})"
      using d(2,5) by (auto simp: table_ok_def inj_on_def)
    then show "current ?s = idle_task ?s \<or> pid_of ?s (current ?s) = pid_of s ?c \<or>
        pid_of s ?c \<notin> pid_of ?s ` tasks ?s"
      by (simp add: pid ts)
  qed
  ultimately show ?thesis by blast
qed

text \<open>The example with process 3 at the head of the queue.\<close>

definition demo2 :: kstate where
  "demo2 = demo\<lparr>rq_head := 0x103518,
     procs := (procs demo)(0x103518 \<mapsto> (demo_proc 0x103518 3 PROCESS_READY)\<lparr>p_next := 0x100000\<rparr>)\<rparr>"

lemma demo2_view: "view demo2 = set_st 0x103518 PROCESS_READY (view demo)"
  by (auto simp: fun_eq_iff set_st_def demo_view)
     (auto simp: view_def demo2_def demo_def demo_proc_def unlinked_def zero_process_def)

lemma demo2_table: "same_table demo demo2"
  by (simp add: same_table_def demo2_view) (simp add: demo2_def)

lemma demo2_inv: "proc_inv demo2 [0x103518, 0x100000]"
proof -
  note d = proc_invD [OF demo_inv]
  have "queue_ok demo2 [0x103518, 0x100000]"
    by (simp add: queue_ok_def demo2_def demo_def demo_proc_def zero_process_def)
  moreover have "current demo2 = 0x101148" by (simp add: demo2_def demo_facts)
  ultimately have "run_ok demo2 [0x103518, 0x100000] {current demo2}"
    by (intro run_okI [OF demo2_table])
       (auto simp: demo_facts st_view demo2_view demo_view demo_proc_def)
  then show ?thesis
    using same_table_mem [OF demo2_table d(1)] same_table_table [OF demo2_table d(2)]
    by (simp add: proc_inv_def)
qed

theorem exit_then_wait_witness:
  "\<exists>t s' s''. process_exit 5 demo2 = Xfer t s' \<and> process_wait 1 True s' = Ret (0, Some 5) s''"
proof -
  have c: "current demo2 = 0x101148" "idle_task demo2 = 0x100000" "pid_of demo2 0x101148 = 1"
    "current demo2 \<noteq> idle_task demo2"
    using same_table_tasks [OF demo2_table] same_table_pid [OF demo2_table]
    by (simp_all add: demo_facts) (simp add: demo2_def demo_facts)+
  obtain m ms s' where s': "[0x103518, 0x100000] @ blocked demo2 = m # ms" "current s' = m"
    "process_exit 5 demo2 = Xfer (switch_between demo2 (current demo2) m) s'"
    "core s' = core (exit_state 5 demo2)"
    using exit_inv [OF demo2_inv c(4), of 5] by blast
  have "task s' = task demo2" using core_eqD(7) [OF s'(4)] by (auto simp: exit_state_def split: option.splits)
  then have "current s' \<noteq> idle_task s'" using s'(1,2) c(2) by (simp add: idle_task_def)
  from exit_then_wait [OF demo2_inv c(4) s'(3) this] show ?thesis using s'(3) c by auto
qed

section \<open>The timer\<close>

text \<open>A timer tick charges one unit of processor time to the current process and takes one off its
  time slice. While slice is left, the process keeps the processor; on the tick that uses it up
  (and, since nothing refills it under this scheduler, on every later tick) the process goes to
  the back of the ready queue and the head runs, if there is one.\<close>

theorem do_timer_slice:
  assumes i: "proc_inv s qs" and c: "view s (current s) = Some c"
  shows "\<exists>s' c'. hands_on (do_timer s) s' \<and> view s' (current s) = Some c' \<and>
    p_cpu_time c' = p_cpu_time c + 1 \<and> p_counter c' = (if p_counter c = 0 then 0 else p_counter c - 1) \<and>
    (if p_counter c \<le> 1 \<and> qs \<noteq> []
     then proc_inv s' (tl qs @ [current s]) \<and> current s' = hd qs \<and> p_state c' = PROCESS_READY
     else proc_inv s' qs \<and> current s' = current s \<and> p_state c' = PROCESS_RUNNING)"
proof -
  note d = proc_invD [OF i]
  let ?t = "upd_proc (current s) ticked s"
  obtain c0 where c0: "procs s (current s) = Some c0" "c = unlinked c0" "current s \<noteq> NULL"
    using c d(8) by (auto simp: view_def valid_proc_def)
  have t: "proc_inv ?t qs" by (rule upd_inv [OF i]) simp_all
  have vt: "view ?t (current s) = Some (ticked c)" using c by (simp add: view_upd_proc)
  have tc: "p_cpu_time (ticked c) = p_cpu_time c + 1" "p_state (ticked c) = PROCESS_RUNNING"
    "p_counter (ticked c) = (if p_counter c = 0 then 0 else p_counter c - 1)"
    using d(7) c by (auto simp: ticked_def st_view word_gt_0)
  have run: "do_timer s = (if p_counter c \<le> 1 then schedule ?t else Ret () ?t)"
    using do_timer_run [OF c0(1,3)] c0(2) by simp
  show ?thesis
  proof (cases "p_counter c \<le> 1 \<and> qs \<noteq> []")
    case True
    then obtain n ns where qs: "qs = n # ns" by (cases qs) auto
    obtain s' where s': "schedule ?t = Xfer (switch_between ?t (current ?t) n) s'"
      "proc_inv s' (ns @ [current ?t])" "current s' = n"
      "view s' = set_st n PROCESS_RUNNING (set_st (current ?t) PROCESS_READY (view ?t))"
      using schedule_inv [of ?t n ns] t qs by blast
    have "current s \<noteq> n" using d(6) qs by simp
    then have "view s' (current s) = Some ((ticked c)\<lparr>p_state := PROCESS_READY\<rparr>)"
      using s'(4) vt by (simp add: set_st_def)
    then show ?thesis using True run s' qs tc by (auto simp: hands_on_def)
  next
    case False
    then have "do_timer s = Ret () ?t" using run schedule_alone [of ?t] t by auto
    then show ?thesis using False t vt tc by (auto simp: hands_on_def)
  qed
qed

theorem do_timer_slice_witness:
  "\<exists>s' c'. hands_on (do_timer demo) s' \<and> view s' 0x101148 = Some c' \<and> p_cpu_time c' = 1 \<and>
     current s' = 0x100000 \<and> proc_inv s' [0x101148]"
proof -
  have "view demo (current demo) = Some (demo_proc 0x101148 1 PROCESS_RUNNING)"
    by (simp add: demo_facts demo_view)
  moreover have "p_counter (demo_proc 0x101148 1 PROCESS_RUNNING) = 0"
    "p_cpu_time (demo_proc 0x101148 1 PROCESS_RUNNING) = 0"
    by (simp_all add: demo_proc_def zero_process_def)
  ultimately show ?thesis using do_timer_slice [OF demo_inv] demo_facts(1) by fastforce
qed

text \<open>A process that blocks when no other process is ready keeps the processor while it is marked
  blocked: \<open>schedule\<close> finds the queue empty, picks the current process and returns. From then on no
  process of the table is running.\<close>

theorem block_alone:
  assumes i: "proc_inv s []"
  shows "\<exists>s'. scheduler_block s = Ret () s' \<and> current s' = current s \<and>
    st s' (current s) = Some PROCESS_BLOCKED \<and> (\<forall>p \<in> tasks s'. st s' p \<noteq> Some PROCESS_RUNNING)"
proof -
  note d = proc_invD [OF i]
  let ?s = "upd_proc (current s) (p_state_update (\<lambda>_. PROCESS_BLOCKED)) s"
  have "queue_ok ?s []" "valid_proc ?s (current ?s)" using d(4,8) by (auto simp: valid_proc_view)
  then have "schedule ?s = Ret () ?s" by (rule schedule_empty)
  then have "scheduler_block s = Ret () ?s"
    using d(8) by (auto simp: scheduler_block_def process_get_current_def deref_def valid_proc_def)
  moreover have "st ?s p = (if p = current s then Some PROCESS_BLOCKED else st s p)" for p
    using d(8) by (auto simp: st_view valid_proc_view)
  moreover have "tasks ?s = tasks s" by (simp add: tasks_def)
  ultimately show ?thesis using d(3) by (auto simp: run_ok_def)
qed

theorem block_alone_witness:
  "\<exists>s'. scheduler_block (initial 0x100000) = Ret () s' \<and> current s' = 0x100000 \<and>
     st s' 0x100000 = Some PROCESS_BLOCKED"
proof -
  have "proc_inv (initial 0x100000) []" by (rule initial_inv) simp_all
  from block_alone [OF this] show ?thesis by (auto simp: initial_def)
qed

end
