(* ===== verification/Simulation.thy ===== *)
theory Simulation
  imports Safe_Calls
begin

text \<open>
  Forward simulation of sequences of calls: a component that answers calls, and an abstract system whose
  steps are labelled with what is observed of a call (its request and its reply). When every allowed call
  is matched by a step of the abstract system with the same label, every sequence of allowed calls ends,
  and what is observed of it is a trace of the abstract system.
\<close>

text \<open>What is observed of a sequence of calls.\<close>

fun observed :: "('c \<Rightarrow> 's \<Rightarrow> (unit, 's) exec) \<Rightarrow> ('c \<Rightarrow> 's \<Rightarrow> 'e) \<Rightarrow> 'c list \<Rightarrow> 's \<Rightarrow> 'e list" where
  "observed run obs [] s = []"
| "observed run obs (c # cs) s =
     obs c s # (case exec_state (run c s) of None \<Rightarrow> [] | Some s' \<Rightarrow> observed run obs cs s')"

text \<open>The traces of the abstract system.\<close>

inductive steps :: "('e \<Rightarrow> 'a \<Rightarrow> 'a \<Rightarrow> bool) \<Rightarrow> 'a \<Rightarrow> 'e list \<Rightarrow> 'a \<Rightarrow> bool" for step where
  none [intro!]: "steps step A [] A"
| first [intro]: "step e A B \<Longrightarrow> steps step B es C \<Longrightarrow> steps step A (e # es) C"

inductive_simps steps_Nil [simp]: "steps step A [] B"
inductive_simps steps_Cons: "steps step A (e # es) C"

lemma steps_append: "steps step A (es @ fs) C \<longleftrightarrow> (\<exists>B. steps step A es B \<and> steps step B fs C)"
  by (induction es arbitrary: A) (auto simp: steps_Cons)

text \<open>Invariants of the abstract system hold at the end of every trace.\<close>

lemma steps_inv:
  assumes "steps step A es B" "P A" "\<And>e A B. step e A B \<Longrightarrow> P A \<Longrightarrow> P B"
  shows "P B"
  using assms by induction auto

locale forward_simulation =
  fixes run :: "'c \<Rightarrow> 's \<Rightarrow> (unit, 's) exec"
    and ok :: "'c \<Rightarrow> 's \<Rightarrow> bool"
    and obs :: "'c \<Rightarrow> 's \<Rightarrow> 'e"
    and step :: "'e \<Rightarrow> 'a \<Rightarrow> 'a \<Rightarrow> bool"
    and rel :: "'s \<Rightarrow> 'a \<Rightarrow> bool"
  assumes simulates:
    "rel s A \<Longrightarrow> ok c s \<Longrightarrow> \<exists>s' B. hands_on (run c s) s' \<and> step (obs c s) A B \<and> rel s' B"
begin

lemma trace_refines:
  assumes "rel s A" "all_allowed ok run cs s"
  shows "\<exists>s' B. run_calls run cs s = Some s' \<and> steps step A (observed run obs cs s) B \<and> rel s' B"
  using assms
proof (induction cs arbitrary: s A)
  case (Cons c cs)
  then obtain s' B where s': "hands_on (run c s) s'" "step (obs c s) A B" "rel s' B"
    using simulates [of s A c] by auto
  moreover have "all_allowed ok run cs s'" using s'(1) Cons.prems(2) by (auto simp: hands_on_def)
  ultimately show ?case using Cons.IH [of s' B] by (fastforce simp: hands_on_def)
qed auto

end

text \<open>A component that is simulated is safe.\<close>

sublocale forward_simulation \<subseteq> safe_calls run ok "\<lambda>s. \<exists>A. rel s A"
proof
  fix s c assume "\<exists>A. rel s A" "ok c s"
  then show "\<exists>s'. hands_on (run c s) s' \<and> (\<exists>A. rel s' A)" using simulates by blast
qed

end
