(* ===== verification/Process_Spec.thy ===== *)
theory Process_Spec
  imports Process_Props Simulation
begin

text \<open>
  What the process subsystem promises its users, without control blocks, links, addresses and memory: which
  process number runs, which are ready in which order, which wait, which have ended with what code, and
  how much of its time slice each has left. A step of this abstract system is labelled with a request
  and its reply. Whatever calls are made after \<open>process_init\<close>, the requests and replies of the code in
  \<open>scheduler.c\<close> and \<open>process.c\<close> are a trace of the abstract system.
\<close>

section \<open>The abstract scheduler\<close>

record sched_spec =
  running :: s32
  ready :: "s32 list"
  waiting :: "s32 set"
  codes :: "s32 \<Rightarrow> s32 option"
  slices :: "s32 \<Rightarrow> u32 option"
  table_order :: "s32 list"
  next_number :: s32

definition spec_yield :: "sched_spec \<Rightarrow> sched_spec" where
  "spec_yield A = (case ready A of [] \<Rightarrow> A
     | n # ns \<Rightarrow> A\<lparr>running := n, ready := ns @ [running A]\<rparr>)"

definition spec_block :: "sched_spec \<Rightarrow> sched_spec" where
  "spec_block A = A\<lparr>running := hd (ready A), ready := tl (ready A),
     waiting := insert (running A) (waiting A)\<rparr>"

definition spec_wake :: "s32 \<Rightarrow> sched_spec \<Rightarrow> sched_spec" where
  "spec_wake n A = (if n \<in> waiting A
     then A\<lparr>ready := ready A @ [n], waiting := waiting A - {n}\<rparr> else A)"

definition spec_exit :: "s32 \<Rightarrow> sched_spec \<Rightarrow> sched_spec" where
  "spec_exit code A = (let L = ready A @ filter (\<lambda>n. n \<in> waiting A) (table_order A)
     in A\<lparr>running := hd L, ready := tl L, waiting := {}, codes := (codes A)(running A \<mapsto> code)\<rparr>)"

definition spec_reap :: "s32 \<Rightarrow> sched_spec \<Rightarrow> sched_spec" where
  "spec_reap n A = A\<lparr>codes := (codes A)(n := None), slices := (slices A)(n := None),
     table_order := remove1 n (table_order A)\<rparr>"

definition spec_tick :: "sched_spec \<Rightarrow> sched_spec" where
  "spec_tick A = (case slices A (running A) of None \<Rightarrow> A
     | Some k \<Rightarrow> let B = A\<lparr>slices := (slices A)(running A \<mapsto> if k = 0 then 0 else k - 1)\<rparr>
                in if k \<le> 1 then spec_yield B else B)"

text \<open>A new process is ready, with the time slice of its priority, in some place of the table.\<close>

definition spec_add :: "u32 \<Rightarrow> s32 list \<Rightarrow> s32 list \<Rightarrow> sched_spec \<Rightarrow> sched_spec" where
  "spec_add priority as bs A = (let n = next_number A
     in A\<lparr>ready := ready A @ [n], next_number := n + 1, table_order := as @ n # bs,
          slices := (slices A)(n \<mapsto> COUNTER_INIT_VALUES ! unat (clamp_priority priority))\<rparr>)"

datatype request =
  Start u32 | End s32 | Await s32 bool | Tick | Give_up | Sleep | Rouse "s32 option"

datatype reply = Nothing | Number s32 | Status s32 "s32 option"

inductive spec_step :: "request \<times> reply \<Rightarrow> sched_spec \<Rightarrow> sched_spec \<Rightarrow> bool" where
  start: "next_number A \<notin> set (table_order A) \<Longrightarrow> table_order A = as @ bs \<Longrightarrow>
    spec_step (Start priority, Number (next_number A)) A (spec_add priority as bs A)"
| start_fails: "n \<in> {next_number A, next_number A + 1} \<Longrightarrow>
    spec_step (Start priority, Number (- 1)) A (A\<lparr>next_number := n\<rparr>)"
| ends: "running A \<noteq> 0 \<Longrightarrow> spec_step (End code, Nothing) A (spec_exit code A)"
| end_fails: "running A = 0 \<Longrightarrow> spec_step (End code, Nothing) A A"
| reaps: "running A \<noteq> 0 \<Longrightarrow> n \<noteq> running A \<Longrightarrow> codes A n = Some code \<Longrightarrow>
    spec_step (Await n w, Status 0 (if w then Some code else None)) A (spec_reap n A)"
| waits: "running A \<noteq> 0 \<Longrightarrow> n \<noteq> running A \<Longrightarrow> n \<in> set (table_order A) \<Longrightarrow> codes A n = None \<Longrightarrow>
    spec_step (Await n w, Nothing) A (spec_block A)"
| wait_fails: "running A = 0 \<or> n = running A \<or> n \<notin> set (table_order A) \<Longrightarrow>
    spec_step (Await n w, Status (- 1) None) A A"
| ticks: "spec_step (Tick, Nothing) A (spec_tick A)"
| yields: "spec_step (Give_up, Nothing) A (spec_yield A)"
| blocks: "running A \<noteq> 0 \<Longrightarrow> spec_step (Sleep, Nothing) A (spec_block A)"
| wakes: "spec_step (Rouse (Some n), Nothing) A (spec_wake n A)"
| wakes_none: "spec_step (Rouse None, Nothing) A A"

inductive_cases start_step: "spec_step (Start priority, Number n) A B"
inductive_cases yield_step: "spec_step (Give_up, x) A B"
inductive_cases end_step: "spec_step (End code, x) A B"

section \<open>What is observed of a call, and the abstraction of a state\<close>

fun request_of :: "kcall \<Rightarrow> kstate \<Rightarrow> request" where
  "request_of (Create entry arg priority) s = Start priority"
| "request_of (Exit code) s = End code"
| "request_of (Wait pid w) s = Await pid w"
| "request_of Timer s = Tick"
| "request_of Yield s = Give_up"
| "request_of Block s = Sleep"
| "request_of (Wake p) s = Rouse (if p = NULL then None else Some (pid_of s p))"

fun reply_of :: "kcall \<Rightarrow> kstate \<Rightarrow> reply" where
  "reply_of (Create entry arg priority) s =
     (case process_create entry arg priority s of Ret v _ \<Rightarrow> Number v | _ \<Rightarrow> Nothing)"
| "reply_of (Wait pid w) s = (case process_wait pid w s of Ret (v, c) _ \<Rightarrow> Status v c | _ \<Rightarrow> Nothing)"
| "reply_of _ s = Nothing"

definition observe :: "kcall \<Rightarrow> kstate \<Rightarrow> request \<times> reply" where
  "observe c s = (request_of c s, reply_of c s)"

definition in_state :: "process_state_t \<Rightarrow> kstate \<Rightarrow> ptr set" where
  "in_state x s = {p \<in> tasks s. st s p = Some x}"

definition by_pid :: "kstate \<Rightarrow> (ptr \<Rightarrow> 'a option) \<Rightarrow> s32 \<Rightarrow> 'a option" where
  "by_pid s f n = (case find (\<lambda>p. pid_of s p = n) (used_slots (task s)) of None \<Rightarrow> None | Some p \<Rightarrow> f p)"

definition slice_of :: "kstate \<Rightarrow> ptr \<Rightarrow> u32 option" where
  "slice_of s p = map_option p_counter (view s p)"

definition code_of :: "kstate \<Rightarrow> ptr \<Rightarrow> s32 option" where
  "code_of s p = (if st s p = Some PROCESS_TERMINATED then map_option p_exit_code (view s p) else None)"

definition abs_sched :: "kstate \<Rightarrow> ptr list \<Rightarrow> sched_spec" where
  "abs_sched s qs = \<lparr>running = pid_of s (current s), ready = map (pid_of s) qs,
     waiting = pid_of s ` in_state PROCESS_BLOCKED s, codes = by_pid s (code_of s),
     slices = by_pid s (slice_of s), table_order = map (pid_of s) (used_slots (task s)),
     next_number = next_pid s\<rparr>"

definition sched_rel :: "kstate \<Rightarrow> sched_spec \<Rightarrow> bool" where
  "sched_rel s A \<longleftrightarrow> (\<exists>qs. proc_inv s qs \<and> A = abs_sched s qs)"

section \<open>Tables by number\<close>

lemma by_pid_task [simp]: "table_ok s \<Longrightarrow> p \<in> tasks s \<Longrightarrow> by_pid s f (pid_of s p) = f p"
  by (simp add: by_pid_def find_pid)

lemma pid_eq:
  assumes "table_ok s" "p \<in> tasks s" "q \<in> tasks s"
  shows "pid_of s p = pid_of s q \<longleftrightarrow> p = q"
  using assms by (auto simp: table_ok_def inj_on_def)

lemma by_pid_Some:
  assumes "table_ok s"
  shows "by_pid s f n = Some v \<longleftrightarrow> (\<exists>p \<in> tasks s. pid_of s p = n \<and> f p = Some v)"
proof (cases "n \<in> pid_of s ` tasks s")
  case True
  then show ?thesis using assms pid_eq [OF assms] by auto
next
  case False
  then have "find (\<lambda>p. pid_of s p = n) (used_slots (task s)) = None" by (auto simp: find_None_iff tasks_def)
  then show ?thesis using False by (auto simp: by_pid_def)
qed

lemma map_eqI: "(\<And>k v. m k = Some v \<longleftrightarrow> m' k = Some v) \<Longrightarrow> m = m'"
  by (rule ext) (metis option.exhaust)

lemma by_pid_cong:
  assumes "task s' = task s" "\<And>p. p \<in> tasks s \<Longrightarrow> pid_of s' p = pid_of s p \<and> f p = g p"
  shows "by_pid s' f = by_pid s g"
proof
  fix n
  have "find (\<lambda>p. pid_of s' p = n) (used_slots (task s)) = find (\<lambda>p. pid_of s p = n) (used_slots (task s))"
    by (rule find_cong) (use assms(2) in \<open>auto simp: tasks_def\<close>)
  moreover have "p \<in> tasks s" if "find (\<lambda>p. pid_of s p = n) (used_slots (task s)) = Some p" for p
    using that by (auto simp: find_Some_iff tasks_def)
  ultimately show "by_pid s' f n = by_pid s g n"
    using assms by (auto simp: by_pid_def split: option.splits)
qed

lemma by_pid_upd:
  assumes t: "table_ok s" and q: "q \<in> tasks s" "\<And>p. p \<in> tasks s \<Longrightarrow> p \<noteq> q \<Longrightarrow> f p = g p"
  shows "by_pid s f = (by_pid s g)(pid_of s q := f q)"
proof
  fix n
  show "by_pid s f n = ((by_pid s g)(pid_of s q := f q)) n"
  proof (cases "\<exists>p \<in> tasks s. n = pid_of s p")
    case True
    then show ?thesis using t q pid_eq [OF t] by auto
  next
    case False
    then have "find (\<lambda>p. pid_of s p = n) (used_slots (task s)) = None" by (auto simp: find_None_iff tasks_def)
    then show ?thesis using False q(1) by (auto simp: by_pid_def)
  qed
qed

text \<open>A change that keeps the table: what of the abstract state can change at all.\<close>

lemma abs_same_table:
  assumes "same_table s s'"
  shows "abs_sched s' qs' = \<lparr>running = pid_of s (current s'), ready = map (pid_of s) qs',
     waiting = pid_of s ` in_state PROCESS_BLOCKED s', codes = by_pid s (code_of s'),
     slices = by_pid s (slice_of s'), table_order = map (pid_of s) (used_slots (task s)), next_number = next_pid s\<rparr>"
proof -
  have pid: "pid_of s' = pid_of s" by (rule ext) (rule same_table_pid [OF assms])
  have "by_pid s' (code_of s') = by_pid s (code_of s')" "by_pid s' (slice_of s') = by_pid s (slice_of s')"
    using same_tableD(4) [OF assms] by (auto intro!: by_pid_cong simp: pid)
  then show ?thesis using same_tableD [OF assms] by (simp add: abs_sched_def pid)
qed

lemma slice_unstated:
  assumes "map_option unstated (view s' p) = map_option unstated (view s p)"
  shows "slice_of s' p = slice_of s p"
  using assms by (cases "view s p"; cases "view s' p") (auto simp: slice_of_def unstated_def simp del: view_None dest: arg_cong [where f = p_counter])

lemma code_unstated:
  assumes "map_option unstated (view s' p) = map_option unstated (view s p)"
    "st s' p = Some PROCESS_TERMINATED \<longleftrightarrow> st s p = Some PROCESS_TERMINATED"
  shows "code_of s' p = code_of s p"
  using assms by (cases "view s p"; cases "view s' p") (auto simp: code_of_def unstated_def simp del: view_None dest: arg_cong [where f = p_exit_code])

section \<open>Every call is a step\<close>

text \<open>A call that only changes states, ending no process.\<close>

lemma abs_restated:
  assumes c: "core s' = core s" and v: "\<And>p. map_option unstated (view s' p) = map_option unstated (view s p)"
    and z: "\<And>p. p \<in> tasks s \<Longrightarrow> st s' p = Some PROCESS_TERMINATED \<longleftrightarrow> st s p = Some PROCESS_TERMINATED"
  shows "abs_sched s' qs' = (abs_sched s qs)\<lparr>running := pid_of s (current s'), ready := map (pid_of s) qs',
    waiting := pid_of s ` in_state PROCESS_BLOCKED s'\<rparr>"
proof -
  have "static pr = static (unstated pr)" for pr by (simp add: static_def unstated_def)
  then have "map_option static (view s' p) = map_option static (view s p)" for p
    using arg_cong [OF v [of p], of "map_option static"] by (simp add: option.map_comp comp_def)
  then have t: "same_table s s'" by (rule same_tableI [OF c])
  have "by_pid s (code_of s') = by_pid s (code_of s)" "by_pid s (slice_of s') = by_pid s (slice_of s)"
    using code_unstated [OF v] slice_unstated [OF v] z by (auto intro!: by_pid_cong)
  then show ?thesis unfolding abs_same_table [OF t] by (simp add: abs_sched_def)
qed

lemma refine_yield:
  assumes i: "proc_inv s qs"
  shows "\<exists>s' qs'. hands_on (schedule s) s' \<and> proc_inv s' qs' \<and> abs_sched s' qs' = spec_yield (abs_sched s qs)"
proof (cases qs)
  case Nil
  then show ?thesis using schedule_alone i by (auto simp: hands_on_def spec_yield_def abs_sched_def)
next
  case (Cons n ns)
  note d = proc_invD [OF i]
  obtain s' where s': "schedule s = Xfer (switch_between s (current s) n) s'"
    "proc_inv s' (ns @ [current s])" "current s' = n" "core s' = core s"
    "view s' = set_st n PROCESS_RUNNING (set_st (current s) PROCESS_READY (view s))"
    using schedule_inv i Cons by blast
  have n: "st s n = Some PROCESS_READY" using d(3,9) Cons by (auto simp: run_ok_def)
  have st: "st s' p = Some x \<longleftrightarrow> st s p = Some x" if "x \<in> {PROCESS_BLOCKED, PROCESS_TERMINATED}" for x p
    using that n d(7) by (auto simp: st_view s'(5) split: if_splits)
  then have "in_state PROCESS_BLOCKED s' = in_state PROCESS_BLOCKED s"
    using core_eqD(7) [OF s'(4)] by (auto simp: in_state_def tasks_def)
  then have "abs_sched s' (ns @ [current s]) = spec_yield (abs_sched s qs)"
    using abs_restated [OF s'(4), of "ns @ [current s]" qs] st Cons s'(3)
    by (simp add: s'(5)) (simp add: abs_sched_def spec_yield_def)
  then show ?thesis using s'(1,2) by (auto simp: hands_on_def)
qed

text \<open>A process that is left blocked, by \<open>scheduler_block\<close> or by \<open>process_wait\<close>.\<close>

lemma abs_block:
  assumes i: "proc_inv s (m # ms)" and s': "current s' = m" "core s' = core s"
    "view s' = set_st m PROCESS_RUNNING (set_st (current s) PROCESS_BLOCKED (view s))"
  shows "abs_sched s' ms = spec_block (abs_sched s (m # ms))"
proof -
  note d = proc_invD [OF i]
  have m: "st s m = Some PROCESS_READY" "m \<noteq> current s" using d(3,6,9) by (auto simp: run_ok_def)
  then have "in_state PROCESS_BLOCKED s' = insert (current s) (in_state PROCESS_BLOCKED s)"
    "\<And>p. st s' p = Some PROCESS_TERMINATED \<longleftrightarrow> st s p = Some PROCESS_TERMINATED"
    using m d(5,7,8) core_eqD(7) [OF s'(2)]
    by (auto simp: in_state_def tasks_def st_view s'(3) valid_proc_view split: if_splits)
  then show ?thesis
    using abs_restated [OF s'(2), of ms "m # ms"] s'(1)
    by (simp add: s'(3)) (simp add: abs_sched_def spec_block_def)
qed

lemma refine_block:
  assumes i: "proc_inv s qs" and n: "current s \<noteq> idle_task s"
  shows "\<exists>s' qs'. hands_on (scheduler_block s) s' \<and> proc_inv s' qs' \<and> abs_sched s' qs' = spec_block (abs_sched s qs)"
  using block_inv [OF assms] abs_block i by (fastforce simp: hands_on_def)

lemma refine_wake:
  assumes i: "proc_inv s qs" and p: "p \<in> tasks s"
  shows "\<exists>s' qs'. hands_on (scheduler_wake p s) s' \<and> proc_inv s' qs' \<and>
    abs_sched s' qs' = spec_wake (pid_of s p) (abs_sched s qs)"
proof -
  note d = proc_invD [OF i]
  have w: "pid_of s p \<in> waiting (abs_sched s qs) \<longleftrightarrow> st s p = Some PROCESS_BLOCKED"
    using p pid_eq [OF d(2)] by (auto simp: abs_sched_def in_state_def)
  show ?thesis
  proof (cases "st s p = Some PROCESS_BLOCKED")
    case False
    then show ?thesis
      using wake_other [OF tasks_valid [OF d(2) p]] i w by (auto simp: hands_on_def spec_wake_def)
  next
    case True
    then have "p \<noteq> current s" using d(7) by auto
    then obtain s' where s': "scheduler_wake p s = Ret () s'" "proc_inv s' (qs @ [p])"
      "view s' = set_st p PROCESS_READY (view s)" "core s' = core s" "current s' = current s"
      using wake_run [OF d(1-3) p _ True] by (auto simp: proc_inv_def)
    have b: "in_state PROCESS_BLOCKED s' = in_state PROCESS_BLOCKED s - {p}"
      "\<And>q. st s' q = Some PROCESS_TERMINATED \<longleftrightarrow> st s q = Some PROCESS_TERMINATED"
      using True tasks_valid [OF d(2) p] core_eqD(7) [OF s'(4)]
      by (auto simp: in_state_def tasks_def st_view s'(3) valid_proc_view split: if_splits)
    have "pid_of s ` in_state PROCESS_BLOCKED s' = pid_of s ` in_state PROCESS_BLOCKED s - {pid_of s p}"
      using p pid_eq [OF d(2)] unfolding b by (auto simp: in_state_def)
    then have "abs_sched s' (qs @ [p]) = spec_wake (pid_of s p) (abs_sched s qs)"
      using abs_restated [OF s'(4), of "qs @ [p]" qs] b(2) s'(5) True w
      by (simp add: s'(3) spec_wake_def) (simp add: abs_sched_def)
    then show ?thesis using s'(1,2) by (auto simp: hands_on_def)
  qed
qed

lemma refine_tick:
  assumes i: "proc_inv s qs"
  shows "\<exists>s' qs'. hands_on (do_timer s) s' \<and> proc_inv s' qs' \<and> abs_sched s' qs' = spec_tick (abs_sched s qs)"
proof -
  note d = proc_invD [OF i]
  obtain c where c: "procs s (current s) = Some c" "current s \<noteq> NULL" using d(8) by (auto simp: valid_proc_def)
  let ?t = "upd_proc (current s) ticked s" and ?k = "p_counter c"
  have t: "proc_inv ?t qs" by (rule upd_inv [OF i]) simp_all
  have v: "view ?t = (view s)(current s := map_option ticked (view s (current s)))" by (rule view_upd_proc) simp
  have same: "same_table s ?t" by (rule same_tableI) (auto simp: v option.map_comp comp_def)
  have st: "st ?t p = st s p" for p by (simp add: st_view v option.map_comp comp_def)
  have "by_pid s (slice_of ?t) = (by_pid s (slice_of s))(pid_of s (current s) := slice_of ?t (current s))"
    by (rule by_pid_upd [OF d(2,5)]) (simp add: slice_of_def v)
  moreover have "slice_of ?t (current s) = Some (if ?k = 0 then 0 else ?k - 1)" "slice_of s (current s) = Some ?k"
    using c by (auto simp: slice_of_def v view_def ticked_def word_gt_0)
  moreover have "code_of ?t p = code_of s p" for p
    by (simp add: code_of_def st v option.map_comp comp_def ticked_def)
  then have "code_of ?t = code_of s" by (rule ext)
  moreover have "in_state PROCESS_BLOCKED ?t = in_state PROCESS_BLOCKED s" by (simp add: in_state_def st tasks_def)
  ultimately have "spec_tick (abs_sched s qs) =
      (if ?k \<le> 1 then spec_yield (abs_sched ?t qs) else abs_sched ?t qs)"
    unfolding abs_same_table [OF same] using d(2,5) by (simp add: abs_sched_def spec_tick_def Let_def)
  then show ?thesis using do_timer_run [OF c] refine_yield [OF t] t by (auto simp: hands_on_def)
qed

lemma filter_waiting:
  assumes "table_ok s"
  shows "filter (\<lambda>n. n \<in> pid_of s ` in_state PROCESS_BLOCKED s) (map (pid_of s) (used_slots (task s))) =
    map (pid_of s) (blocked s)"
proof -
  have "pid_of s p \<in> pid_of s ` in_state PROCESS_BLOCKED s \<longleftrightarrow> st s p = Some PROCESS_BLOCKED"
    if "p \<in> set (used_slots (task s))" for p
    using that pid_eq [OF assms, of p] by (auto simp: in_state_def tasks_def)
  then show ?thesis unfolding filter_map blocked_def by (simp add: comp_def cong: filter_cong)
qed

lemma refine_exit:
  assumes i: "proc_inv s qs" and n: "current s \<noteq> idle_task s"
  shows "\<exists>s' qs'. hands_on (process_exit code s) s' \<and> proc_inv s' qs' \<and>
    abs_sched s' qs' = spec_exit code (abs_sched s qs)"
proof -
  note d = proc_invD [OF i]
  obtain m ms s' where s': "qs @ blocked s = m # ms" "process_exit code s = Xfer (switch_between s (current s) m) s'"
    "proc_inv s' ms" "current s' = m" "view s' (current s) = map_option (exited code) (view s (current s))"
    "\<forall>p \<in> tasks s. p \<noteq> current s \<longrightarrow> p \<noteq> m \<longrightarrow>
       st s' p = (if st s p = Some PROCESS_BLOCKED then Some PROCESS_READY else st s p)"
    "same_table s s'" "\<forall>p. p \<noteq> current s \<longrightarrow> map_option unstated (view s' p) = map_option unstated (view s p)"
    using exit_inv [OF assms, of code] by blast
  note t = same_table_tasks(1) [OF s'(7)]
  obtain c where cv: "view s (current s) = Some c" by (rule table_procD [OF d(2,5)])
  then have c: "st s' (current s) = Some PROCESS_TERMINATED" by (simp add: st_view s'(5))
  have m: "st s' m = Some PROCESS_RUNNING" "m \<in> tasks s"
    using proc_invD(5,7) [OF s'(3)] s'(4) t by auto
  have "m \<in> set (qs @ blocked s)" using s'(1) by simp
  moreover have "m \<in> set qs \<Longrightarrow> st s m = Some PROCESS_READY" using d(3) m(2) by (simp add: run_ok_def)
  ultimately have sm: "st s m \<noteq> Some PROCESS_TERMINATED" by (auto simp: blocked_def)
  have b: "in_state PROCESS_BLOCKED s' = {}"
    unfolding in_state_def t using s'(6) c m d(5) by (auto split: if_splits)
  have "st s' p = Some PROCESS_TERMINATED \<longleftrightarrow> st s p = Some PROCESS_TERMINATED"
    if "p \<in> tasks s" "p \<noteq> current s" for p
    using that s'(6) m(1) sm by (cases "p = m") auto
  then have "by_pid s (code_of s') = (by_pid s (code_of s))(pid_of s (current s) := code_of s' (current s))"
    using s'(8) by (intro by_pid_upd [OF d(2,5)] code_unstated) auto
  moreover have "code_of s' (current s) = Some code" using c cv by (simp add: code_of_def s'(5))
  moreover have "by_pid s (slice_of s') = by_pid s (slice_of s)"
  proof (rule by_pid_cong)
    fix p assume "p \<in> tasks s"
    show "pid_of s p = pid_of s p \<and> slice_of s' p = slice_of s p"
      using slice_unstated [of s' p s] s'(8) cv by (cases "p = current s") (auto simp: slice_of_def s'(5) exited_def)
  qed simp
  ultimately have "abs_sched s' ms = spec_exit code (abs_sched s qs)"
    using s'(1) unfolding abs_same_table [OF s'(7)] b s'(4)
    by (simp add: abs_sched_def spec_exit_def filter_waiting [OF d(2)] Let_def flip: map_append)
  then show ?thesis using s'(2,3) by (auto simp: hands_on_def)
qed

lemma map_remove1_inj:
  assumes "inj_on f (set xs)" "distinct xs" "x \<in> set xs"
  shows "map f (remove1 x xs) = remove1 (f x) (map f xs)"
proof -
  have "distinct (map f xs)" using assms by (simp add: distinct_map)
  then show ?thesis using assms by (simp add: distinct_remove1_removeAll map_removeAll_inj_on insert_absorb)
qed

lemma by_pid_remove:
  assumes t: "table_ok s" "table_ok s'" and p: "p \<in> tasks s" and r: "tasks s' = tasks s - {p}" "pid_of s' = pid_of s"
  shows "by_pid s' f = (by_pid s f)(pid_of s p := None)"
proof (rule map_eqI)
  fix n v
  show "by_pid s' f n = Some v \<longleftrightarrow> ((by_pid s f)(pid_of s p := None)) n = Some v"
    using p pid_eq [OF t(1)] unfolding fun_upd_def by_pid_Some [OF t(2)] r
    by (cases "n = pid_of s p") (auto simp: by_pid_Some [OF t(1)])
qed

lemma refine_reap:
  assumes i: "proc_inv s qs" and p: "p \<in> tasks s" "st s p = Some PROCESS_TERMINATED"
  shows "\<exists>code s'. code_of s p = Some code \<and>
    process_reap p w s = Ret (0, if w then Some code else None) s' \<and> proc_inv s' qs \<and>
    abs_sched s' qs = spec_reap (pid_of s p) (abs_sched s qs)"
proof -
  note d = proc_invD [OF i]
  obtain pr where pr: "view s p = Some pr" by (rule table_procD [OF d(2) p(1)])
  note r = reap_inv [OF i p pr]
  let ?r = "reaped p pr s"
  have v: "procs ?r = procs s" by (simp add: reaped_def task_recount_def task_remove_def Let_def)
  then have same: "view ?r = view s" "st ?r = st s" "code_of ?r = code_of s" "slice_of ?r = slice_of s"
    "pid_of ?r = pid_of s" by (auto simp: view_def st_def code_of_def slice_of_def pid_of_def fun_eq_iff)
  have cur: "current ?r = current s" "next_pid ?r = next_pid s"
    by (simp_all add: reaped_def task_recount_def task_remove_def Let_def)
  have ts: "tasks ?r = tasks s - {p}" using r(3) d(2) by (simp add: tasks_def table_ok_def)
  note rem = by_pid_remove [OF d(2) proc_invD(2) [OF r(2)] p(1) ts same(5)]
  have "in_state PROCESS_BLOCKED ?r = in_state PROCESS_BLOCKED s" using p(2) by (auto simp: in_state_def same ts)
  moreover have "map (pid_of s) (remove1 p (used_slots (task s))) = remove1 (pid_of s p) (map (pid_of s) (used_slots (task s)))"
    using d(2) p(1) by (intro map_remove1_inj) (auto simp: table_ok_def tasks_def)
  ultimately have "abs_sched ?r qs = spec_reap (pid_of s p) (abs_sched s qs)"
    by (simp add: abs_sched_def spec_reap_def same cur r(3) rem)
  moreover have "code_of s p = Some (p_exit_code pr)" using p(2) pr by (simp add: code_of_def)
  ultimately show ?thesis using r(1) [of w] r(2) by auto
qed

text \<open>Memory that a refused call has used, and a number it has skipped, leave the processes as they were.\<close>

lemma abs_grown:
  assumes i: "proc_inv s qs" and g: "grown s s'"
  shows "abs_sched s' qs = (abs_sched s qs)\<lparr>next_number := next_pid s'\<rparr>"
proof -
  note d = proc_invD [OF i]
  have same: "task s' = task s" "current s' = current s" using g by (simp_all add: grown_def)
  have v: "view s' p = view s p" "st s' p = st s p" if "p \<in> tasks s" for p
    using grown_view [OF g tasks_valid [OF d(2) that]] by (simp_all add: view_def st_def)
  then have e: "pid_of s' p = pid_of s p" "code_of s' p = code_of s p" "slice_of s' p = slice_of s p"
    if "p \<in> tasks s" for p
    using that by (simp_all add: pid_of_def code_of_def slice_of_def)
  then have "by_pid s' (code_of s') = by_pid s (code_of s)" "by_pid s' (slice_of s') = by_pid s (slice_of s)"
    using same(1) by (auto intro!: by_pid_cong)
  moreover have "pid_of s' ` in_state PROCESS_BLOCKED s' = pid_of s ` in_state PROCESS_BLOCKED s"
    using v(2) e(1) same(1) by (auto simp: in_state_def tasks_def image_def)
  moreover have "map (pid_of s') ps = map (pid_of s) ps" if "set ps \<subseteq> tasks s" for ps
    using that e(1) by auto
  ultimately show ?thesis using d(5,9) e(1) same by (simp add: abs_sched_def tasks_def)
qed

lemma abs_insert:
  assumes i: "proc_inv s qs" and i': "proc_inv s' (qs @ [p])" and c: "task_count s < 64" and p: "p \<noteq> NULL" "p \<notin> tasks s"
    and pr: "view s p = Some pr" "p_pid pr \<notin> pid_of s ` tasks s" "p_state pr = PROCESS_READY"
    and r: "relinked (task_insert p s) s'"
  shows "\<exists>as bs. table_order (abs_sched s qs) = as @ bs \<and>
    abs_sched s' (qs @ [p]) = (abs_sched s qs)\<lparr>ready := ready (abs_sched s qs) @ [p_pid pr],
      table_order := as @ p_pid pr # bs, slices := (slices (abs_sched s qs))(p_pid pr \<mapsto> p_counter pr)\<rparr>"
proof -
  note d = proc_invD [OF i] and d' = proc_invD [OF i']
  obtain as bs where u: "used_slots (task s) = as @ bs" "used_slots (task (task_insert p s)) = as @ p # bs"
    using insert_slots [OF d(2) c p(1)] by metis
  have ti: "view (task_insert p s) = view s" "current (task_insert p s) = current s"
      "next_pid (task_insert p s) = next_pid s"
    by (auto simp: task_insert_def view_def fun_eq_iff split: option.splits)
  then have v: "view s' = view s" "current s' = current s" "next_pid s' = next_pid s" "task s' = task (task_insert p s)"
    using r core_eqD(6,7) [of s' "task_insert p s"] by (simp_all add: relinked_def)
  then have same: "pid_of s' = pid_of s" "st s' = st s" "code_of s' = code_of s" "slice_of s' = slice_of s"
    by (auto simp: pid_of_def st_view code_of_def slice_of_def fun_eq_iff)
  have ts: "tasks s = tasks s' - {p}" "p \<in> tasks s'" using p(2) u v(4) by (auto simp: tasks_def)
  have pid: "pid_of s p = p_pid pr" and new: "code_of s p = None" "slice_of s p = Some (p_counter pr)"
    using pr by (simp_all add: pid_of_def code_of_def slice_of_def st_view)
  note rem = by_pid_remove [OF d'(2) d(2) ts(2,1) same(1) [symmetric]]
  have "by_pid s' f = (by_pid s f)(p_pid pr := f p)" for f :: "ptr \<Rightarrow> s32 option"
    using by_pid_task [OF d'(2) ts(2), of f] unfolding rem by (auto simp: same pid fun_eq_iff)
  moreover have "by_pid s' f = (by_pid s f)(p_pid pr := f p)" for f :: "ptr \<Rightarrow> u32 option"
    using by_pid_task [OF d'(2) ts(2), of f] unfolding rem by (auto simp: same pid fun_eq_iff)
  moreover have "(by_pid s (code_of s))(p_pid pr := None) = by_pid s (code_of s)"
    using rem [of "code_of s"] by (auto simp: same pid fun_eq_iff)
  moreover have "in_state PROCESS_BLOCKED s' = in_state PROCESS_BLOCKED s"
    using ts pr by (auto simp: in_state_def same st_view)
  ultimately have "abs_sched s' (qs @ [p]) = (abs_sched s qs)\<lparr>ready := ready (abs_sched s qs) @ [p_pid pr],
      table_order := map (pid_of s) as @ p_pid pr # map (pid_of s) bs,
      slices := (slices (abs_sched s qs))(p_pid pr \<mapsto> p_counter pr)\<rparr>"
    using u pid v new by (simp add: abs_sched_def same)
  moreover have "table_order (abs_sched s qs) = map (pid_of s) as @ map (pid_of s) bs"
    using u by (simp add: abs_sched_def)
  ultimately show ?thesis by blast
qed

lemma refine_create:
  assumes i: "proc_inv s qs"
  shows "\<exists>v s' qs'. process_create entry arg priority s = Ret v s' \<and> proc_inv s' qs' \<and>
    spec_step (Start priority, Number v) (abs_sched s qs) (abs_sched s' qs')"
proof (cases "entry = NULL \<or> task_count s \<ge> 64 \<or> unat (heap_used s) + 4584 > 1048576")
  case True
  have n: "next_number (abs_sched s qs) = next_pid s" "(abs_sched s qs)\<lparr>next_number := next_pid s\<rparr> = abs_sched s qs"
    by (simp_all add: abs_sched_def)
  obtain s' where s': "process_create entry arg priority s = Ret (- 1) s'" "proc_inv s' qs"
    "s' = s \<or> grown s s' \<and> next_pid s' = next_pid s + 1"
    using create_refused_inv [OF i True] by blast
  have "spec_step (Start priority, Number (- 1)) (abs_sched s qs) ((abs_sched s qs)\<lparr>next_number := next_pid s'\<rparr>)"
    using s'(3) n(1) by (intro start_fails) auto
  then show ?thesis using s' n(2) abs_grown [OF i] by (metis)
next
  case False
  then have h: "entry \<noteq> NULL" "task_count s < 64" "unat (heap_used s) + 4584 \<le> 1048576" by auto
  let ?b = "heap_addr s + heap_used s" and ?s = "created entry arg priority s"
  let ?A = "abs_sched s qs" and ?B = "abs_sched ?s qs" and ?pr = "unlinked (new_proc priority s)"
  note n = created_new [OF i h(3)]
  obtain s' where s': "process_create entry arg priority s = Ret (next_pid s) s'" "proc_inv s' (qs @ [?b])"
    "relinked (task_insert ?b ?s) s'" using create_room_inv [OF i h] by blast
  have B: "?B = ?A\<lparr>next_number := next_pid s + 1\<rparr>"
    using abs_grown [OF i] created_grown [OF proc_invD(1) [OF i] h(3), of entry arg priority]
    by (simp add: created_def Let_def)
  obtain as bs where ab: "table_order ?B = as @ bs" "abs_sched s' (qs @ [?b]) = ?B\<lparr>ready := ready ?B @ [p_pid ?pr],
      table_order := as @ p_pid ?pr # bs, slices := (slices ?B)(p_pid ?pr \<mapsto> p_counter ?pr)\<rparr>"
    using abs_insert [OF n(1) s'(2) _ n(4) _ n(6) _ _ s'(3)] n(2,3,5,8-10) h(2) by auto
  have "abs_sched s' (qs @ [?b]) = spec_add priority as bs ?A" "table_order ?A = as @ bs"
    using ab(1) unfolding ab(2) unfolding B n(8)
    by (simp_all add: spec_add_def Let_def n(8) abs_sched_def) (simp add: new_proc_def Let_def)
  moreover have "next_number ?A = next_pid s" "next_pid s \<notin> set (table_order ?A)"
    using n(11) by (simp_all add: abs_sched_def tasks_def)
  ultimately show ?thesis using s'(1,2) start [of ?A as bs priority] by metis
qed

lemma refine_wait:
  assumes i: "proc_inv s qs"
  shows "\<exists>s' qs'. hands_on (kcall_run (Wait n w) s) s' \<and> proc_inv s' qs' \<and>
    spec_step (observe (Wait n w) s) (abs_sched s qs) (abs_sched s' qs')"
proof -
  note d = proc_invD [OF i]
  have r: "running (abs_sched s qs) = pid_of s (current s)" "set (table_order (abs_sched s qs)) = pid_of s ` tasks s"
    by (simp_all add: abs_sched_def tasks_def)
  have z: "pid_of s (current s) = 0 \<longleftrightarrow> current s = idle_task s" by (rule pid_zero_idle [OF d(2,5)])
  show ?thesis
  proof (cases "current s = idle_task s \<or> pid_of s (current s) = n \<or> n \<notin> pid_of s ` tasks s")
    case True
    then have "spec_step (Await n w, Status (- 1) None) (abs_sched s qs) (abs_sched s qs)"
      by (intro wait_fails) (auto simp: r z)
    then show ?thesis using wait_refused [OF i True, of w] i by (auto simp: hands_on_def observe_def)
  next
    case False
    then obtain p where p: "p \<in> tasks s" "p \<noteq> current s" "n = pid_of s p" "current s \<noteq> idle_task s" by auto
    have code: "codes (abs_sched s qs) n = code_of s p" using d(2) p by (simp add: abs_sched_def)
    show ?thesis
    proof (cases "st s p = Some PROCESS_TERMINATED")
      case True
      obtain code s' where s': "code_of s p = Some code" "proc_inv s' qs"
        "process_wait n w s = Ret (0, if w then Some code else None) s'"
        "abs_sched s' qs = spec_reap n (abs_sched s qs)"
        using refine_reap [OF i p(1) True, of w] wait_target [OF i p(4,1,2), of w] True p(3) by auto
      have "spec_step (Await n w, Status 0 (if w then Some code else None)) (abs_sched s qs) (abs_sched s' qs)"
        unfolding s'(4) by (rule reaps) (use r z p code s'(1) pid_eq [OF d(2) p(1) d(5)] in auto)
      then show ?thesis using s'(2,3) by (auto simp: hands_on_def observe_def)
    next
      case no: False
      obtain m ms s' where s': "qs = m # ms" "process_wait n w s = Xfer (switch_between s (current s) m) s'"
        "proc_inv s' ms" "current s' = m" "core s' = core s"
        "view s' = set_st m PROCESS_RUNNING (set_st (current s) PROCESS_BLOCKED (view s))"
        using wait_blocks [OF i p(4,1,2) no, of w] p(3) by auto
      have "abs_sched s' ms = spec_block (abs_sched s qs)" using abs_block i s'(4-6) unfolding s'(1) by blast
      moreover have "spec_step (Await n w, Nothing) (abs_sched s qs) (spec_block (abs_sched s qs))"
        by (rule waits) (use r z p code no pid_eq [OF d(2) p(1) d(5)] in \<open>auto simp: code_of_def\<close>)
      ultimately show ?thesis using s'(2,3) by (auto simp: hands_on_def observe_def)
    qed
  qed
qed

section \<open>The refinement\<close>

lemma sched_simI:
  assumes "\<exists>s' qs'. hands_on r s' \<and> proc_inv s' qs' \<and> abs_sched s' qs' = B" "spec_step e A B"
  shows "\<exists>s' B. hands_on r s' \<and> spec_step e A B \<and> sched_rel s' B"
  using assms by (metis sched_rel_def)

interpretation process_calls: forward_simulation kcall_run kcall_ok observe spec_step sched_rel
proof
  fix s A c assume "sched_rel s A" and ok: "kcall_ok c s"
  then obtain qs where i: "proc_inv s qs" and A: "A = abs_sched s qs" by (auto simp: sched_rel_def)
  note d = proc_invD [OF i]
  have z: "running (abs_sched s qs) = 0 \<longleftrightarrow> current s = idle_task s"
    using pid_zero_idle [OF d(2,5)] by (simp add: abs_sched_def)
  have stay: "\<exists>s' qs'. hands_on (Ret () s) s' \<and> proc_inv s' qs' \<and> abs_sched s' qs' = abs_sched s qs"
    using i by (auto simp: hands_on_def)
  show "\<exists>s' B. hands_on (kcall_run c s) s' \<and> spec_step (observe c s) A B \<and> sched_rel s' B"
  proof (cases c)
    case (Create entry arg priority)
    then show ?thesis
      using refine_create [OF i, of entry arg priority] by (fastforce simp: A sched_rel_def hands_on_def observe_def)
  next
    case (Exit code)
    then show ?thesis
      using sched_simI [OF stay end_fails] sched_simI [OF refine_exit [OF i] ends] exit_idle [OF i] z
      by (cases "current s = idle_task s") (simp_all add: A observe_def)
  next
    case (Wait n w)
    then show ?thesis using refine_wait [OF i, of n w] unfolding A sched_rel_def by blast
  next
    case (Wake p)
    then show ?thesis
      using sched_simI [OF stay wakes_none] sched_simI [OF refine_wake [OF i] wakes] ok scheduler_wake_def [of NULL s]
      by (cases "p = NULL") (simp_all add: A observe_def)
  qed (use sched_simI [OF refine_tick [OF i] ticks] sched_simI [OF refine_yield [OF i] yields]
      sched_simI [OF refine_block [OF i] blocks] ok z in \<open>simp_all add: A observe_def\<close>)
qed

text \<open>The abstract state after \<open>process_init\<close>: process 0, the idle one, runs.\<close>

definition spec_initial :: sched_spec where
  "spec_initial = \<lparr>running = 0, ready = [], waiting = {}, codes = Map.empty, slices = [0 \<mapsto> 0],
     table_order = [0], next_number = 1\<rparr>"

lemma abs_initial:
  assumes "heap_placed a"
  shows "abs_sched (initial a) [] = spec_initial"
proof -
  have a: "a \<noteq> NULL" using assms by (simp add: heap_placed_def)
  have p: "procs (initial a) = [a \<mapsto> zero_process\<lparr>p_state := PROCESS_RUNNING, p_kernel_stack := a + 168,
      p_name := ''idle'', p_context := a + 4264\<rparr>]" and u: "used_slots (task (initial a)) = [a]"
    and c: "current (initial a) = a" "next_pid (initial a) = 1"
    using a by (simp_all add: initial_def used_slots_def boot_state_def)
  have v: "pid_of (initial a) a = 0" "st (initial a) a = Some PROCESS_RUNNING" "slice_of (initial a) a = Some 0"
    by (simp_all add: pid_of_def st_def slice_of_def view_def p zero_process_def)
  have "by_pid (initial a) f = (\<lambda>n. if n = 0 then f a else None)" for f :: "ptr \<Rightarrow> s32 option"
    by (simp add: by_pid_def u v fun_eq_iff)
  moreover have "by_pid (initial a) f = (\<lambda>n. if n = 0 then f a else None)" for f :: "ptr \<Rightarrow> u32 option"
    by (simp add: by_pid_def u v fun_eq_iff)
  moreover have "in_state PROCESS_BLOCKED (initial a) = {}" by (auto simp: in_state_def tasks_def u v)
  ultimately show ?thesis
    by (simp add: abs_sched_def spec_initial_def c u v code_of_def fun_eq_iff)
qed

text \<open>C3. The process subsystem refines the abstract scheduler: after \<open>process_init\<close>, whatever sequence of
  calls is made (creating, ending, awaiting, yielding, blocking, waking, timer ticks), each of them ends,
  and the requests with their replies (process numbers and exit codes) are a trace of the abstract
  system, which leads to the abstraction of the state reached.\<close>

theorem sched_refinement:
  assumes "heap_placed a" "all_allowed kcall_ok kcall_run cs (initial a)"
  shows "\<exists>s qs. run_calls kcall_run cs (initial a) = Some s \<and> proc_inv s qs \<and>
    steps spec_step spec_initial (observed kcall_run observe cs (initial a)) (abs_sched s qs)"
proof -
  have "sched_rel (initial a) spec_initial"
    using initial_inv [of a] abs_initial [OF assms(1)] assms(1) by (auto simp: sched_rel_def heap_placed_def intro: sym)
  then show ?thesis using process_calls.trace_refines [OF _ assms(2)] unfolding sched_rel_def by blast
qed

theorem sched_refinement_witness:
  "\<exists>s qs. run_calls kcall_run [Create 0x2000 0 2, Yield, Exit 7] (initial 0x100000) = Some s \<and> proc_inv s qs \<and>
     running (abs_sched s qs) = 0 \<and> ready (abs_sched s qs) = [] \<and> codes (abs_sched s qs) = [1 \<mapsto> 7]"
proof -
  let ?cs = "[Create 0x2000 0 2, Yield, Exit 7]" and ?i = "initial 0x100000"
  have "all_allowed kcall_ok kcall_run ?cs ?i" by (rule all_allowedI) auto
  then obtain s qs where s: "run_calls kcall_run ?cs ?i = Some s" "proc_inv s qs"
    "steps spec_step spec_initial (observed kcall_run observe ?cs ?i) (abs_sched s qs)"
    using sched_refinement [OF placed_demo, of ?cs] by blast
  have i: "proc_inv ?i []" using initial_inv placed_demo by (simp add: heap_placed_def)
  have "reply_of (Create 0x2000 0 2) ?i = Number 1"
    using create_room_inv [OF i, of "0x2000" 0 2] by (auto simp: initial_def boot_state_def)
  then obtain A B where st: "spec_step (Start 2, Number 1) spec_initial A" "spec_step (Give_up, Nothing) A B"
    "spec_step (End 7, Nothing) B (abs_sched s qs)"
    using s(1,3) by (auto simp: observe_def steps_Cons split: exec.splits option.splits)
  from st(1) obtain as bs where A: "A = spec_add 2 as bs spec_initial" by (rule start_step) simp_all
  show ?thesis using s(1,2) st(2,3)
    by (auto simp: A spec_add_def spec_yield_def spec_exit_def spec_initial_def Let_def elim!: yield_step end_step)
qed

end
