(* ===== verification/Process_Time.thy ===== *)
theory Process_Time
  imports Process_Spec
begin

text \<open>
  Time sharing: what \<open>do_timer\<close> and the time slices of \<open>COUNTER_INIT_VALUES\<close> give the processes when
  nobody yields, blocks or ends.
\<close>

section \<open>One turn\<close>

lemma ready_set: "proc_inv s qs \<Longrightarrow> set qs = {p \<in> tasks s. st s p = Some PROCESS_READY}"
  by (auto simp: proc_inv_def run_ok_def)

lemma tick_within:
  assumes i: "proc_inv s qs" and k: "slice_of s (current s) = Some k" "1 < k"
  shows "\<exists>s'. do_timer s = Ret () s' \<and> proc_inv s' qs \<and> current s' = current s \<and>
    slice_of s' (current s) = Some (k - 1) \<and> (\<forall>p. p \<noteq> current s \<longrightarrow> slice_of s' p = slice_of s p)"
proof -
  obtain c where c: "procs s (current s) = Some c" "current s \<noteq> NULL"
    using proc_invD(8) [OF i] by (auto simp: valid_proc_def)
  have kc: "p_counter c = k" using k(1) c by (simp add: slice_of_def view_def)
  let ?t = "upd_proc (current s) ticked s"
  have v: "view ?t = (view s)(current s := map_option ticked (view s (current s)))" by (rule view_upd_proc) simp
  have "0 < k" using k(2) by (auto simp: word_less_nat_alt word_gt_0)
  then have "slice_of ?t (current s) = Some (k - 1)"
    using c kc by (simp add: slice_of_def v) (simp add: view_def ticked_def)
  moreover have "do_timer s = Ret () ?t" using do_timer_run [OF c] kc k(2) by (simp add: linorder_not_le [symmetric])
  moreover have "proc_inv ?t qs" by (rule upd_inv [OF i]) simp_all
  ultimately show ?thesis by (auto simp: slice_of_def v)
qed

lemma tick_last:
  assumes i: "proc_inv s (m # ms)" and k: "slice_of s (current s) = Some k" "k \<le> 1"
  shows "\<exists>s'. hands_on (do_timer s) s' \<and> proc_inv s' (ms @ [current s]) \<and> current s' = m \<and>
    (\<forall>p. p \<noteq> current s \<longrightarrow> slice_of s' p = slice_of s p)"
proof -
  obtain c where c: "procs s (current s) = Some c" "current s \<noteq> NULL"
    using proc_invD(8) [OF i] by (auto simp: valid_proc_def)
  have kc: "p_counter c = k" using k(1) c by (simp add: slice_of_def view_def)
  let ?t = "upd_proc (current s) ticked s"
  have v: "view ?t = (view s)(current s := map_option ticked (view s (current s)))" by (rule view_upd_proc) simp
  have "proc_inv ?t (m # ms)" by (rule upd_inv [OF i]) simp_all
  then obtain s' where s': "schedule ?t = Xfer (switch_between ?t (current s) m) s'" "proc_inv s' (ms @ [current s])"
    "current s' = m" "view s' = set_st m PROCESS_RUNNING (set_st (current s) PROCESS_READY (view ?t))"
    using schedule_inv [of ?t] by auto
  have "slice_of s' p = slice_of s p" if "p \<noteq> current s" for p
    using that by (intro slice_unstated) (simp add: s'(4), simp add: v)
  then show ?thesis using do_timer_run [OF c] kc k(2) s'(1-3) by (auto simp: hands_on_def)
qed

text \<open>The ticks of a process that has the processor: its slice, and one when the slice is used up.\<close>

definition turn :: "kstate \<Rightarrow> ptr \<Rightarrow> nat" where
  "turn s p = (case slice_of s p of None \<Rightarrow> 0 | Some k \<Rightarrow> max 1 (unat k))"

abbreviation ticks_run :: "nat \<Rightarrow> kstate \<Rightarrow> kstate option" where
  "ticks_run n s \<equiv> run_calls kcall_run (replicate n Timer) s"

lemma current_slice:
  assumes "proc_inv s qs"
  obtains k where "slice_of s (current s) = Some k"
  using proc_invD(8) [OF assms] by (auto simp: valid_proc_view slice_of_def simp del: view_None)

lemma turn_run:
  assumes "proc_inv s (m # ms)" "slice_of s (current s) = Some k"
  shows "\<exists>s'. ticks_run (turn s (current s)) s = Some s' \<and> proc_inv s' (ms @ [current s]) \<and> current s' = m \<and>
    (\<forall>p. p \<noteq> current s \<longrightarrow> slice_of s' p = slice_of s p)"
  using assms
proof (induction "unat k" arbitrary: s k rule: less_induct)
  case less
  show ?case
  proof (cases "k \<le> 1")
    case True
    then have "turn s (current s) = 1" using less.prems(2) by (auto simp: turn_def word_le_nat_alt max_def)
    then show ?thesis using tick_last [OF less.prems True] by (auto simp: hands_on_def)
  next
    case False
    then have k: "1 < k" "unat (k - 1) < unat k" "turn s (current s) = Suc (unat (k - 1))" "1 \<le> unat (k - 1)"
      using less.prems(2) by (auto simp: turn_def word_le_nat_alt word_less_nat_alt unat_sub)
    obtain s1 where s1: "do_timer s = Ret () s1" "proc_inv s1 (m # ms)" "current s1 = current s"
      "slice_of s1 (current s) = Some (k - 1)" "\<forall>p. p \<noteq> current s \<longrightarrow> slice_of s1 p = slice_of s p"
      using tick_within [OF less.prems k(1)] by blast
    have "turn s1 (current s1) = unat (k - 1)" using s1(3,4) k(4) by (simp add: turn_def)
    then show ?thesis using less.hyps [OF k(2) s1(2)] s1 k(3) by auto
  qed
qed

section \<open>Taking turns\<close>

lemma turns_run:
  assumes "proc_inv s (as @ p # bs)"
  shows "\<exists>s'. ticks_run (sum_list (map (turn s) (current s # as))) s = Some s' \<and>
    proc_inv s' (bs @ current s # as) \<and> current s' = p"
  using assms
proof (induction as arbitrary: s bs)
  case Nil
  obtain k where "slice_of s (current s) = Some k" by (rule current_slice [OF Nil])
  then show ?case using turn_run [of s p bs k] Nil by auto
next
  case (Cons m as)
  note d = proc_invD [OF Cons.prems]
  obtain k where "slice_of s (current s) = Some k" by (rule current_slice [OF Cons.prems])
  then obtain s1 where s1: "ticks_run (turn s (current s)) s = Some s1" "current s1 = m"
    "proc_inv s1 (as @ p # bs @ [current s])" "\<forall>q. q \<noteq> current s \<longrightarrow> slice_of s1 q = slice_of s q"
    using turn_run [of s m "as @ p # bs" k] Cons.prems by auto
  have "q \<noteq> current s" if "q \<in> set (m # as)" for q using that d(6) by auto
  then have same: "map (turn s1) (m # as) = map (turn s) (m # as)" using s1(4) by (intro map_cong) (simp_all add: turn_def)
  obtain s' where "ticks_run (sum_list (map (turn s) (m # as))) s1 = Some s'" "current s' = p"
    "proc_inv s' (bs @ current s # m # as)"
    using Cons.IH [OF s1(3)] unfolding s1(2) same append_assoc append.simps by blast
  moreover have "sum_list (map (turn s) (current s # m # as)) = turn s (current s) + sum_list (map (turn s) (m # as))"
    by simp
  ultimately show ?case using s1(1) by (simp only: replicate_add run_calls_append) simp
qed

text \<open>No slice is longer than 4 ticks: the abstract system starts processes with at most that, and only
  takes away.\<close>

definition short_slices :: "sched_spec \<Rightarrow> bool" where
  "short_slices A \<longleftrightarrow> (\<forall>n k. slices A n = Some k \<longrightarrow> unat k \<le> 4)"

lemma initial_slice: "unat (COUNTER_INIT_VALUES ! unat (clamp_priority priority)) \<le> 4"
proof -
  have "unat (clamp_priority priority) < 5" by (simp add: clamp_priority_def word_less_nat_alt)
  then show ?thesis by (simp add: COUNTER_INIT_VALUES_def nth_Cons')
qed

lemma short_slices_step:
  assumes "spec_step e A B" "short_slices A"
  shows "short_slices B"
proof -
  have y: "slices (spec_yield A) = slices A" for A by (simp add: spec_yield_def split: list.split)
  have "unat (k - 1) \<le> 4" if "unat k \<le> 4" "k \<noteq> 0" for k :: u32
    using that by (simp add: unat_minus_one)
  then have "short_slices (spec_tick A)"
    using assms(2) by (auto simp: short_slices_def spec_tick_def Let_def y split: option.splits)
  with assms(1) show ?thesis
    by cases (use assms(2) initial_slice in \<open>auto simp: short_slices_def spec_add_def spec_exit_def spec_reap_def
      spec_block_def spec_wake_def y Let_def split: if_splits\<close>)
qed

text \<open>C4. Time sharing without starvation: in every state reached from \<open>process_init\<close> by any calls, if from
  then on only the timer ticks, every process in the ready queue gets the processor after exactly the
  slices of the processes before it, which is at most four ticks for each of them.\<close>

theorem timer_time_sharing:
  assumes "heap_placed a" "all_allowed kcall_ok kcall_run cs (initial a)"
  shows "\<exists>s qs. run_calls kcall_run cs (initial a) = Some s \<and> proc_inv s qs \<and>
    (\<forall>i < length qs. let n = (\<Sum>p \<leftarrow> current s # take i qs. turn s p)
       in n \<le> 4 * (i + 1) \<and> (\<exists>s'. ticks_run n s = Some s' \<and> current s' = qs ! i))"
proof -
  have "sched_rel (initial a) spec_initial"
    using initial_inv [of a] abs_initial [OF assms(1)] assms(1) by (auto simp: sched_rel_def heap_placed_def intro: sym)
  then obtain s qs where s: "run_calls kcall_run cs (initial a) = Some s" and i: "proc_inv s qs"
    and t: "steps spec_step spec_initial (observed kcall_run observe cs (initial a)) (abs_sched s qs)"
    using process_calls.trace_refines [OF _ assms(2)] unfolding sched_rel_def by blast
  note d = proc_invD [OF i]
  have "short_slices spec_initial" by (simp add: short_slices_def spec_initial_def)
  then have short: "short_slices (abs_sched s qs)" by (rule steps_inv [OF t]) (rule short_slices_step)
  have turn4: "turn s p \<le> 4" if p: "p \<in> tasks s" for p
  proof (cases "slice_of s p")
    case (Some k)
    then have "slices (abs_sched s qs) (pid_of s p) = Some k" using d(2) p by (simp add: abs_sched_def)
    then show ?thesis using short Some by (auto simp: short_slices_def turn_def)
  qed (simp add: turn_def)
  have sum: "sum_list (map (turn s) ps) \<le> 4 * length ps" if "set ps \<subseteq> tasks s" for ps
    using that turn4 by (induction ps) (auto intro: add_mono)
  have "set (current s # take i qs) \<subseteq> tasks s" for i using d(5,9) set_take_subset [of i qs] by auto
  then have "sum_list (map (turn s) (current s # take i qs)) \<le> 4 * (i + 1)" if "i < length qs" for i
    using sum [of "current s # take i qs"] that by (simp add: min_def)
  moreover have "\<exists>s'. ticks_run (sum_list (map (turn s) (current s # take i qs))) s = Some s' \<and> current s' = qs ! i"
    if "i < length qs" for i
    using turns_run [of s "take i qs" "qs ! i" "drop (Suc i) qs"] i id_take_nth_drop [OF that] by metis
  ultimately show ?thesis using s i by (auto simp: Let_def)
qed

theorem timer_time_sharing_witness:
  "\<exists>s n s'. run_calls kcall_run [Create 0x2000 0 2] (initial 0x100000) = Some s \<and> n \<le> 4 \<and>
     ticks_run n s = Some s' \<and> current s' = 0x101148"
proof -
  let ?i = "initial 0x100000" and ?cs = "[Create 0x2000 0 2]"
  have "all_allowed kcall_ok kcall_run ?cs ?i" by (rule all_allowedI) auto
  then obtain s qs where s: "run_calls kcall_run ?cs ?i = Some s" "proc_inv s qs"
    and t: "\<forall>i < length qs. let n = (\<Sum>p \<leftarrow> current s # take i qs. turn s p)
       in n \<le> 4 * (i + 1) \<and> (\<exists>s'. ticks_run n s = Some s' \<and> current s' = qs ! i)"
    using timer_time_sharing [OF placed_demo, of ?cs] by blast
  have "proc_inv ?i []" using initial_inv placed_demo by (simp add: heap_placed_def)
  then have r: "proc_inv s [0x101148]"
    using create_room_inv [of ?i "[]" "0x2000" 0 2] s(1) by (auto simp: initial_def boot_state_def)
  have "set qs = {0x101148}" using ready_set [OF s(2)] ready_set [OF r] by simp
  then have "0 < length qs" "qs ! 0 = 0x101148" by (cases qs; auto)+
  then obtain n s' where "n \<le> 4" "ticks_run n s = Some s'" "current s' = 0x101148"
    using t [THEN spec, of 0] by (auto simp: Let_def)
  then show ?thesis using s(1) by blast
qed

end
