(* ===== verification/Process_SJF.thy ===== *)
theory Process_SJF
  imports Process_Props
begin

text \<open>
  The shortest-job-first scheduler of \<open>process.c\<close> (\<open>schedule_sjf\<close>, \<open>switch_to\<close>): which task it
  selects, when its recursion ends, and what it does to the ready queue of the FIFO scheduler.
\<close>

section \<open>The selection loop\<close>

definition ctr :: "kstate \<Rightarrow> ptr \<Rightarrow> u32" where
  "ctr s p = (case procs s p of None \<Rightarrow> 0 | Some pr \<Rightarrow> p_counter pr)"

definition prio :: "kstate \<Rightarrow> ptr \<Rightarrow> u32" where
  "prio s p = (case procs s p of None \<Rightarrow> 0 | Some pr \<Rightarrow> p_priority pr)"

definition eligible :: "kstate \<Rightarrow> ptr \<Rightarrow> bool" where
  "eligible s p \<longleftrightarrow> p \<noteq> NULL \<and> st s p = Some PROCESS_READY \<and> 0 < ctr s p"

text \<open>Slot \<open>r\<close> (counted from \<open>i\<close>) holds the first eligible task with the least counter.\<close>

definition least_at :: "kstate \<Rightarrow> nat \<Rightarrow> ptr list \<Rightarrow> nat \<Rightarrow> bool" where
  "least_at s i ps r \<longleftrightarrow> i \<le> r \<and> r - i < length ps \<and> eligible s (ps ! (r - i)) \<and>
     (\<forall>j < length ps. eligible s (ps ! j) \<longrightarrow> ctr s (ps ! (r - i)) \<le> ctr s (ps ! j) \<and>
        (j < r - i \<longrightarrow> ctr s (ps ! (r - i)) < ctr s (ps ! j)))"

lemma least_at_Cons:
  assumes "least_at s (Suc i) ps r"
    and "eligible s p \<Longrightarrow> ctr s (ps ! (r - Suc i)) < ctr s p"
  shows "least_at s i (p # ps) r" "(p # ps) ! (r - i) = ps ! (r - Suc i)"
proof -
  have r: "Suc i \<le> r" "r - i = Suc (r - Suc i)" using assms(1) by (auto simp: least_at_def)
  then show "least_at s i (p # ps) r" "(p # ps) ! (r - i) = ps ! (r - Suc i)"
    using assms by (auto simp: least_at_def nth_Cons split: nat.splits)
qed

lemma sjf_scan_Cons:
  assumes "p \<noteq> NULL \<Longrightarrow> valid_proc s p"
  shows "sjf_scan i (p # ps) nx mc s =
    (if eligible s p \<and> ctr s p < mc then sjf_scan (Suc i) ps i (ctr s p) s else sjf_scan (Suc i) ps nx mc s)"
  using assms by (cases "p = NULL") (auto simp: eligible_def valid_proc_def st_def ctr_def)

lemma sjf_scan_spec:
  assumes "\<forall>p \<in> set (used_slots ps). valid_proc s p"
  shows "\<exists>r. sjf_scan i ps nx mc s = Inr r \<and>
    (if \<exists>p \<in> set ps. eligible s p \<and> ctr s p < mc
     then least_at s i ps r \<and> ctr s (ps ! (r - i)) < mc else r = nx)"
  using assms
proof (induction ps arbitrary: i nx mc)
  case Nil
  then show ?case by simp
next
  case (Cons p ps)
  have v: "\<forall>q \<in> set (used_slots ps). valid_proc s q" "p \<noteq> NULL \<Longrightarrow> valid_proc s p"
    using Cons.prems by (auto simp: used_slots_def)
  have run: "sjf_scan i (p # ps) nx mc s =
      (if eligible s p \<and> ctr s p < mc then sjf_scan (Suc i) ps i (ctr s p) s else sjf_scan (Suc i) ps nx mc s)"
    using v(2) by (rule sjf_scan_Cons)
  show ?case
  proof (cases "eligible s p \<and> ctr s p < mc")
    case True
    then have step: "sjf_scan i (p # ps) nx mc s = sjf_scan (Suc i) ps i (ctr s p) s" unfolding run by (rule if_P)
    obtain r where r: "sjf_scan (Suc i) ps i (ctr s p) s = Inr r"
      "if \<exists>q \<in> set ps. eligible s q \<and> ctr s q < ctr s p
       then least_at s (Suc i) ps r \<and> ctr s (ps ! (r - Suc i)) < ctr s p else r = i"
      using Cons.IH [OF v(1)] by blast
    show ?thesis
    proof (cases "\<exists>q \<in> set ps. eligible s q \<and> ctr s q < ctr s p")
      case more: True
      then have l: "least_at s (Suc i) ps r" "ctr s (ps ! (r - Suc i)) < ctr s p" using r(2) by auto
      note least_at_Cons [OF l]
      then show ?thesis using step r(1) l(2) True by auto
    next
      case False
      then have "r = i" using r(2) by auto
      moreover have "least_at s i (p # ps) i"
        using True False by (auto simp: least_at_def nth_Cons not_less split: nat.splits)
      ultimately show ?thesis using step r(1) True by auto
    qed
  next
    case False
    then have step: "sjf_scan i (p # ps) nx mc s = sjf_scan (Suc i) ps nx mc s" unfolding run by (rule if_not_P)
    obtain r where r: "sjf_scan (Suc i) ps nx mc s = Inr r"
      "if \<exists>q \<in> set ps. eligible s q \<and> ctr s q < mc
       then least_at s (Suc i) ps r \<and> ctr s (ps ! (r - Suc i)) < mc else r = nx"
      using Cons.IH [OF v(1)] by blast
    show ?thesis
    proof (cases "\<exists>q \<in> set ps. eligible s q \<and> ctr s q < mc")
      case more: True
      then have l: "least_at s (Suc i) ps r" "ctr s (ps ! (r - Suc i)) < mc" using r(2) by auto
      have "eligible s p \<Longrightarrow> ctr s (ps ! (r - Suc i)) < ctr s p" using False l(2) by auto
      note least_at_Cons [OF l(1) this]
      then show ?thesis using step r(1) l(2) more by auto
    next
      case no: False
      then show ?thesis using step r False by auto
    qed
  qed
qed

section \<open>Refreshing the time slices\<close>

lemma counter_init:
  "COUNTER_INIT_VALUES ! (k mod 5) = 0 \<longleftrightarrow> k mod 5 = 0" "COUNTER_INIT_VALUES ! (k mod 5) < 0xFFFFFFFF"
proof -
  have "k mod 5 = 0 \<or> k mod 5 = 1 \<or> k mod 5 = 2 \<or> k mod 5 = 3 \<or> k mod 5 = 4" by presburger
  then show "COUNTER_INIT_VALUES ! (k mod 5) = 0 \<longleftrightarrow> k mod 5 = 0"
    "COUNTER_INIT_VALUES ! (k mod 5) < 0xFFFFFFFF"
    by (elim disjE; simp only:; simp add: COUNTER_INIT_VALUES_def)+
qed

definition slice :: "kstate \<Rightarrow> ptr \<Rightarrow> u32" where
  "slice s p = COUNTER_INIT_VALUES ! (unat (prio s p) mod 5)"

lemma sjf_refresh_spec:
  assumes "\<forall>p \<in> set (used_slots ps). valid_proc s p"
  shows "\<exists>s'. sjf_refresh ps n s =
      Inr (n + length (filter (\<lambda>p. st s p = Some PROCESS_READY) (used_slots ps)), s') \<and>
    core s' = core s \<and> current s' = current s \<and> st s' = st s \<and> prio s' = prio s \<and>
    (\<forall>p. procs s' p = None \<longleftrightarrow> procs s p = None) \<and>
    (\<forall>p. map_option static (view s' p) = map_option static (view s p)) \<and>
    (\<forall>p. ctr s' p = (if p \<in> set (used_slots ps) \<and> st s p = Some PROCESS_READY then slice s p else ctr s p))"
  using assms
proof (induction ps arbitrary: n s)
  case Nil
  then show ?case by (simp add: used_slots_def)
next
  case (Cons p ps)
  have v: "\<forall>q \<in> set (used_slots ps). valid_proc s q" using Cons.prems by (auto simp: used_slots_def)
  show ?case
  proof (cases "p = NULL")
    case True
    then show ?thesis using Cons.IH [OF v] by (simp add: used_slots_def)
  next
    case np: False
    then have u: "used_slots (p # ps) = p # used_slots ps" by (simp add: used_slots_def)
    then obtain pr where pr: "procs s p = Some pr" using Cons.prems by (auto simp: valid_proc_def)
    show ?thesis
    proof (cases "p_state pr = PROCESS_READY")
      case False
      then have "st s p \<noteq> Some PROCESS_READY" by (simp add: st_def pr)
      then show ?thesis using Cons.IH [OF v, of n] np pr False by (auto simp: u)
    next
      case True
      let ?t = "upd_proc p (\<lambda>pr. pr\<lparr>p_counter := COUNTER_INIT_VALUES ! (unat (p_priority pr) mod 5)\<rparr>) s"
      have t: "core ?t = core s" "current ?t = current s" "st ?t = st s" "prio ?t = prio s"
        "\<And>q. procs ?t q = None \<longleftrightarrow> procs s q = None" "slice ?t = slice s"
        "\<And>q. map_option static (view ?t q) = map_option static (view s q)"
        "\<And>q. ctr ?t q = (if q = p then slice s p else ctr s q)"
        using pr by (auto simp: st_def prio_def ctr_def slice_def fun_eq_iff view_def static_def
            unlinked_def)
      have "\<forall>q \<in> set (used_slots ps). valid_proc ?t q"
        using v unfolding valid_proc_def t(5) .
      then obtain s' where s': "sjf_refresh ps (Suc n) ?t =
          Inr (Suc n + length (filter (\<lambda>p. st s p = Some PROCESS_READY) (used_slots ps)), s')"
        "core s' = core s" "current s' = current s" "st s' = st s" "prio s' = prio s"
        "\<forall>p. procs s' p = None \<longleftrightarrow> procs s p = None"
        "\<forall>p. map_option static (view s' p) = map_option static (view s p)"
        "\<forall>p. ctr s' p = (if p \<in> set (used_slots ps) \<and> st s p = Some PROCESS_READY then slice s p else ctr ?t p)"
        using Cons.IH [of ?t "Suc n"] unfolding t by blast
      have "st s p = Some PROCESS_READY" using True pr by (simp add: st_def)
      moreover have "sjf_refresh (p # ps) n s = sjf_refresh ps (Suc n) ?t"
        using np pr True by simp
      ultimately show ?thesis using s' t(8) by (auto simp: u)
    qed
  qed
qed

section \<open>Selection and termination\<close>

definition sjf_slots :: "kstate \<Rightarrow> ptr list" where
  "sjf_slots s = drop 1 (take (task_count s) (task s))"

definition sjf_ready :: "kstate \<Rightarrow> ptr set" where
  "sjf_ready s = {p \<in> set (used_slots (sjf_slots s)). st s p = Some PROCESS_READY}"

lemma sjf_slots_tasks:
  assumes "table_ok s"
  shows "set (used_slots (sjf_slots s)) = tasks s - {idle_task s}"
    "\<forall>p \<in> set (used_slots (sjf_slots s)). valid_proc s p"
proof -
  have t: "used_slots (take (task_count s) (task s)) = idle_task s # used_slots (sjf_slots s)"
  proof -
    have "take (task_count s) (task s) \<noteq> []" "take (task_count s) (task s) ! 0 = idle_task s"
      using assms by (auto simp: table_ok_def idle_task_def)
    then have "take (task_count s) (task s) = idle_task s # sjf_slots s"
      unfolding sjf_slots_def by (cases "take (task_count s) (task s)") auto
    then show ?thesis using assms by (simp add: used_slots_def table_ok_def)
  qed
  then have "used_slots (task s) = idle_task s # used_slots (sjf_slots s)" using tasks_take [OF assms] by simp
  moreover have "distinct (used_slots (task s))" using assms by (simp add: table_ok_def)
  ultimately show e: "set (used_slots (sjf_slots s)) = tasks s - {idle_task s}" by (auto simp: tasks_def)
  show "\<forall>p \<in> set (used_slots (sjf_slots s)). valid_proc s p"
    unfolding e using tasks_valid [OF assms] by simp
qed

lemma schedule_sjf_found:
  assumes t: "table_ok s" "current s \<noteq> NULL"
    and e: "\<exists>p \<in> sjf_ready s. 0 < ctr s p \<and> ctr s p < 0xFFFFFFFF"
  shows "\<exists>r. schedule_sjf s = Some (switch_to (task s ! r) s) \<and> least_at s 1 (sjf_slots s) r"
proof -
  have ex: "\<exists>p \<in> set (sjf_slots s). eligible s p \<and> ctr s p < 0xFFFFFFFF"
    using e by (auto simp: sjf_ready_def eligible_def used_slots_def)
  obtain r where r: "sjf_scan 1 (sjf_slots s) 0 0xFFFFFFFF s = Inr r" "least_at s 1 (sjf_slots s) r"
    using sjf_scan_spec [OF sjf_slots_tasks(2) [OF t(1)], of 1 0 "0xFFFFFFFF"]
    unfolding if_P [OF ex] by blast
  then have "r \<noteq> 0" by (auto simp: least_at_def)
  then show ?thesis
    using r t(2) by (intro exI [of _ r]) (subst schedule_sjf.simps, simp add: sjf_slots_def)
qed

text \<open>A round that finds no task with time left refreshes all ready tasks.\<close>

lemma sjf_round:
  assumes t: "table_ok s" and e: "\<forall>p \<in> sjf_ready s. \<not> (0 < ctr s p \<and> ctr s p < 0xFFFFFFFF)"
  obtains n s' where "sjf_scan 1 (sjf_slots s) 0 0xFFFFFFFF s = Inr 0"
    "sjf_refresh (sjf_slots s) 0 s = Inr (n, s')" "0 < n \<longleftrightarrow> sjf_ready s \<noteq> {}"
    "core s' = core s" "current s' = current s" "same_table s s'" "sjf_ready s' = sjf_ready s" "prio s' = prio s"
    "\<forall>p \<in> sjf_ready s. ctr s' p = slice s p"
proof -
  have none: "\<not> (\<exists>p \<in> set (sjf_slots s). eligible s p \<and> ctr s p < 0xFFFFFFFF)"
    using e by (auto simp: eligible_def sjf_ready_def used_slots_def)
  have scan: "sjf_scan 1 (sjf_slots s) 0 0xFFFFFFFF s = Inr 0"
    using sjf_scan_spec [OF sjf_slots_tasks(2) [OF t], of 1 0 "0xFFFFFFFF"]
    unfolding if_not_P [OF none] by blast
  obtain s' where s': "sjf_refresh (sjf_slots s) 0 s =
      Inr (length (filter (\<lambda>p. st s p = Some PROCESS_READY) (used_slots (sjf_slots s))), s')"
    "core s' = core s" "current s' = current s" "st s' = st s" "prio s' = prio s"
    "\<forall>p. map_option static (view s' p) = map_option static (view s p)"
    "\<forall>p. ctr s' p = (if p \<in> set (used_slots (sjf_slots s)) \<and> st s p = Some PROCESS_READY then slice s p else ctr s p)"
    using sjf_refresh_spec [OF sjf_slots_tasks(2) [OF t], of 0] by auto
  have tb: "same_table s s'" by (rule same_tableI [OF s'(2)]) (use s'(6) in blast)
  have "sjf_ready s' = sjf_ready s"
    using same_tableD [OF tb] s'(4) by (simp add: sjf_ready_def sjf_slots_def)
  moreover have "0 < length (filter (\<lambda>p. st s p = Some PROCESS_READY) (used_slots (sjf_slots s))) \<longleftrightarrow>
      sjf_ready s \<noteq> {}"
    by (auto simp: sjf_ready_def filter_empty_conv)
  moreover have "\<forall>p \<in> sjf_ready s. ctr s' p = slice s p" using s'(7) by (simp add: sjf_ready_def)
  ultimately show thesis using that [OF scan s'(1)] s' tb by blast
qed

lemma sjf_unfold:
  assumes "current s \<noteq> NULL" "sjf_scan 1 (sjf_slots s) 0 0xFFFFFFFF s = Inr 0"
    "sjf_refresh (sjf_slots s) 0 s = Inr (n, s')"
  shows "schedule_sjf s = (if 0 < n then schedule_sjf s'
      else Some (deref s' (current s') (\<lambda>c. if p_pid c \<noteq> 0 then switch_to (task s' ! 0) s' else Ret () s')))"
  by (subst schedule_sjf.simps) (use assms in \<open>simp add: sjf_slots_def\<close>)

definition sjf_stuck :: "kstate \<Rightarrow> bool" where
  "sjf_stuck s \<longleftrightarrow> table_ok s \<and> current s \<noteq> NULL \<and> sjf_ready s \<noteq> {} \<and>
     (\<forall>p \<in> sjf_ready s. ctr s p = 0 \<and> unat (prio s p) mod 5 = 0)"

text \<open>One round on such a state leads to such a state, so the recursion does not end.\<close>

lemma sjf_stuck_step:
  assumes "sjf_stuck s"
  obtains n s' where "sjf_scan 1 (sjf_slots s) 0 0xFFFFFFFF s = Inr 0"
    "sjf_refresh (sjf_slots s) 0 s = Inr (n, s')" "0 < n" "sjf_stuck s'"
proof -
  have t: "table_ok s" "\<forall>p \<in> sjf_ready s. \<not> (0 < ctr s p \<and> ctr s p < 0xFFFFFFFF)"
    using assms by (auto simp: sjf_stuck_def)
  obtain n s' where s': "sjf_scan 1 (sjf_slots s) 0 0xFFFFFFFF s = Inr 0"
    "sjf_refresh (sjf_slots s) 0 s = Inr (n, s')" "0 < n \<longleftrightarrow> sjf_ready s \<noteq> {}"
    "current s' = current s" "same_table s s'" "sjf_ready s' = sjf_ready s" "prio s' = prio s"
    "\<forall>p \<in> sjf_ready s. ctr s' p = slice s p"
    using sjf_round [OF t] by metis
  have "sjf_stuck s'"
    using assms s' same_table_table [OF s'(5)]
    by (simp add: sjf_stuck_def slice_def COUNTER_INIT_VALUES_def)
  then show thesis using that s' assms by (auto simp: sjf_stuck_def)
qed

lemma schedule_sjf_diverges:
  assumes "sjf_stuck s"
  shows "schedule_sjf s = None"
proof (rule ccontr)
  assume "schedule_sjf s \<noteq> None"
  then obtain r where "schedule_sjf s = Some r" by blast
  then have "\<not> sjf_stuck s"
  proof (rule schedule_sjf.raw_induct [rotated])
    fix f :: "kstate \<Rightarrow> (unit, kstate) exec option" and s r
    assume ih: "\<And>s r. f s = Some r \<Longrightarrow> \<not> sjf_stuck s"
      and b: "(if current s = NULL then Some (Ret () s)
        else case sjf_scan 1 (drop 1 (take (task_count s) (task s))) 0 0xFFFFFFFF s of
          Inl f \<Rightarrow> Some (Crash f)
        | Inr nx \<Rightarrow>
            if nx = 0 then
              (case sjf_refresh (drop 1 (take (task_count s) (task s))) 0 s of
                 Inl f \<Rightarrow> Some (Crash f)
               | Inr (ready_count, s) \<Rightarrow>
                   if ready_count > 0 then f s
                   else Some (deref s (current s) (\<lambda>c.
                          if p_pid c \<noteq> 0 then switch_to (task s ! 0) s else Ret () s)))
            else Some (switch_to (task s ! nx) s)) = Some r"
    show "\<not> sjf_stuck s"
    proof
      assume st: "sjf_stuck s"
      obtain n s' where s': "sjf_scan 1 (sjf_slots s) 0 0xFFFFFFFF s = Inr 0"
        "sjf_refresh (sjf_slots s) 0 s = Inr (n, s')" "0 < n" "sjf_stuck s'"
        by (rule sjf_stuck_step [OF st])
      have "current s \<noteq> NULL" using st by (simp add: sjf_stuck_def)
      then have "f s' = Some r" using b s' by (simp add: sjf_slots_def)
      then show False using ih s'(4) by blast
    qed
  qed
  then show False using assms by contradiction
qed

lemma schedule_sjf_ends:
  assumes t: "table_ok s" "current s \<noteq> NULL" and b: "\<forall>p \<in> sjf_ready s. ctr s p < 0xFFFFFFFF"
    and n: "\<not> sjf_stuck s"
  shows "\<exists>r. schedule_sjf s = Some r"
proof (cases "\<exists>p \<in> sjf_ready s. 0 < ctr s p")
  case True
  then show ?thesis using schedule_sjf_found [OF t] b by blast
next
  case False
  then have e: "\<forall>p \<in> sjf_ready s. \<not> (0 < ctr s p \<and> ctr s p < 0xFFFFFFFF)" by blast
  obtain n s' where s': "sjf_scan 1 (sjf_slots s) 0 0xFFFFFFFF s = Inr 0"
    "sjf_refresh (sjf_slots s) 0 s = Inr (n, s')" "0 < n \<longleftrightarrow> sjf_ready s \<noteq> {}"
    "current s' = current s" "same_table s s'" "sjf_ready s' = sjf_ready s"
    "\<forall>p \<in> sjf_ready s. ctr s' p = slice s p"
    using sjf_round [OF t(1) e] by metis
  note u = sjf_unfold [OF t(2) s'(1,2)]
  show ?thesis
  proof (cases "sjf_ready s = {}")
    case True
    then show ?thesis using u s'(3) by simp
  next
    case ne: False
    obtain p where p: "p \<in> sjf_ready s" "unat (prio s p) mod 5 \<noteq> 0"
      using n t ne False by (auto simp: sjf_stuck_def word_gt_0)
    then have "0 < ctr s' p \<and> ctr s' p < 0xFFFFFFFF"
      using s'(7) counter_init by (simp add: slice_def word_gt_0)
    then show ?thesis
      using schedule_sjf_found [of s'] same_table_table [OF s'(5) t(1)] t(2) s'(4,6) p(1) u ne s'(3) by auto
  qed
qed

section \<open>Properties\<close>

text \<open>C29. Shortest job first: when some ready task (other than the idle one) has time left,
  \<open>schedule_sjf\<close> switches to the ready task with the least positive counter, the first of them in
  table order on a tie.\<close>

theorem sjf_selects_shortest:
  assumes "table_ok s" "current s \<noteq> NULL" "p \<in> tasks s" "p \<noteq> idle_task s"
    "st s p = Some PROCESS_READY" "0 < ctr s p" "ctr s p < 0xFFFFFFFF"
  shows "\<exists>r. 1 \<le> r \<and> r < task_count s \<and> schedule_sjf s = Some (switch_to (task s ! r) s) \<and>
    eligible s (task s ! r) \<and>
    (\<forall>j. 1 \<le> j \<longrightarrow> j < task_count s \<longrightarrow> eligible s (task s ! j) \<longrightarrow>
       ctr s (task s ! r) \<le> ctr s (task s ! j) \<and> (j < r \<longrightarrow> ctr s (task s ! r) < ctr s (task s ! j)))"
proof -
  have "p \<in> sjf_ready s" using assms(3-5) by (simp add: sjf_ready_def sjf_slots_tasks(1) [OF assms(1)])
  then obtain r where r: "schedule_sjf s = Some (switch_to (task s ! r) s)" "least_at s 1 (sjf_slots s) r"
    using schedule_sjf_found [OF assms(1,2)] assms(6,7) by blast
  have len: "length (sjf_slots s) = task_count s - 1" and tc: "task_count s \<le> length (task s)"
    using assms(1) by (auto simp: sjf_slots_def table_ok_def)
  have nth: "sjf_slots s ! j = task s ! Suc j" if "j < task_count s - 1" for j
    using that tc by (simp add: sjf_slots_def)
  have r1: "1 \<le> r" "r < task_count s" using r(2) len by (auto simp: least_at_def)
  then have rn: "sjf_slots s ! (r - 1) = task s ! r" using nth [of "r - 1"] by auto
  have "ctr s (task s ! r) \<le> ctr s (task s ! j) \<and> (j < r \<longrightarrow> ctr s (task s ! r) < ctr s (task s ! j))"
    if "1 \<le> j" "j < task_count s" "eligible s (task s ! j)" for j
  proof -
    have "j - 1 < length (sjf_slots s)" "sjf_slots s ! (j - 1) = task s ! j"
      using nth [of "j - 1"] that len by auto
    moreover have "j - 1 < r - 1 \<longleftrightarrow> j < r" using that(1) r1 by auto
    ultimately show ?thesis using r(2) rn that(3) unfolding least_at_def by metis
  qed
  moreover have "eligible s (task s ! r)" using r(2) rn by (simp add: least_at_def)
  ultimately show ?thesis using r(1) r1 by blast
qed

text \<open>The example with slices: process 2 has 3 units left, process 3 has 2.\<close>

definition demo_sjf :: kstate where
  "demo_sjf = demo\<lparr>procs := (procs demo)
     (0x102330 \<mapsto> (demo_proc 0x102330 2 PROCESS_READY)\<lparr>p_counter := 3\<rparr>,
      0x103518 \<mapsto> (demo_proc 0x103518 3 PROCESS_READY)\<lparr>p_counter := 2\<rparr>)\<rparr>"

lemma demo_sjf_table: "table_ok demo_sjf"
proof -
  have "same_table demo demo_sjf"
    by (simp add: same_table_def view_def)
       (simp add: demo_sjf_def demo_def demo_proc_def static_def unlinked_def)
  then show ?thesis using proc_invD(2) [OF demo_inv] by (rule same_table_table)
qed

lemma demo_sjf_facts:
  "current demo_sjf = 0x101148" "tasks demo_sjf = {0x100000, 0x101148, 0x102330, 0x103518}"
  "idle_task demo_sjf = 0x100000" "ctr demo_sjf 0x102330 = 3" "ctr demo_sjf 0x103518 = 2"
  "st demo_sjf 0x102330 = Some PROCESS_READY" "st demo_sjf 0x103518 = Some PROCESS_READY"
  "task_count demo_sjf = 4" "task demo_sjf = task demo"
  by (simp_all add: demo_sjf_def tasks_def idle_task_def ctr_def st_def demo_proc_def)
     (auto simp: demo_def used_slots_def)

theorem sjf_selects_shortest_witness:
  "schedule_sjf demo_sjf = Some (switch_to 0x103518 demo_sjf)"
proof -
  have "\<exists>r. 1 \<le> r \<and> r < 4 \<and> schedule_sjf demo_sjf = Some (switch_to (task demo ! r) demo_sjf) \<and>
      ctr demo_sjf (task demo ! r) \<le> 2 \<and> eligible demo_sjf (task demo ! r)"
  proof -
    have t: "task demo ! 3 = 0x103518" by (simp add: demo_def)
    have e: "eligible demo_sjf 0x103518" by (simp add: eligible_def demo_sjf_facts)
    have "current demo_sjf \<noteq> NULL" "0x103518 \<in> tasks demo_sjf" "0x103518 \<noteq> idle_task demo_sjf"
      "st demo_sjf 0x103518 = Some PROCESS_READY" "0 < ctr demo_sjf 0x103518"
      "ctr demo_sjf 0x103518 < 0xFFFFFFFF"
      by (simp_all add: demo_sjf_facts)
    from sjf_selects_shortest [OF demo_sjf_table this]
    obtain r where r: "1 \<le> r" "r < task_count demo_sjf"
      "schedule_sjf demo_sjf = Some (switch_to (task demo_sjf ! r) demo_sjf)"
      "eligible demo_sjf (task demo_sjf ! r)"
      "1 \<le> (3::nat) \<longrightarrow> 3 < task_count demo_sjf \<longrightarrow> eligible demo_sjf (task demo_sjf ! 3) \<longrightarrow>
        ctr demo_sjf (task demo_sjf ! r) \<le> ctr demo_sjf (task demo_sjf ! 3)"
      by blast
    then show ?thesis by (intro exI [of _ r]) (simp add: demo_sjf_facts t e)
  qed
  then obtain r where r: "1 \<le> r" "r < 4" "schedule_sjf demo_sjf = Some (switch_to (task demo ! r) demo_sjf)"
    "ctr demo_sjf (task demo ! r) \<le> 2" "eligible demo_sjf (task demo ! r)" by blast
  have "task demo ! 1 = 0x101148" "task demo ! 2 = 0x102330" "task demo ! 3 = 0x103518" by (simp_all add: demo_def)
  moreover have "\<not> eligible demo_sjf 0x101148"
    by (simp add: eligible_def st_def demo_sjf_def demo_def demo_proc_def)
  moreover have "r = 1 \<or> r = 2 \<or> r = 3" using r(1,2) by linarith
  ultimately show ?thesis using r demo_sjf_facts by auto
qed

text \<open>C30. The recursion of \<open>schedule_sjf\<close> ends unless every ready task (other than the idle one), of
  which there is at least one, has used up its slice and has a priority that is a multiple of 5:
  such a task gets the slice 0 on every refresh. So a single ready task of priority 0 makes the
  scheduler call itself for ever.\<close>

theorem sjf_terminates_iff:
  assumes "table_ok s" "current s \<noteq> NULL" "\<forall>p \<in> tasks s. ctr s p < 0xFFFFFFFF"
  shows "(\<exists>r. schedule_sjf s = Some r) \<longleftrightarrow>
    \<not> ((\<exists>p \<in> tasks s. p \<noteq> idle_task s \<and> st s p = Some PROCESS_READY) \<and>
       (\<forall>p \<in> tasks s. p \<noteq> idle_task s \<longrightarrow> st s p = Some PROCESS_READY \<longrightarrow>
          ctr s p = 0 \<and> unat (prio s p) mod 5 = 0))"
proof -
  have r: "sjf_ready s = {p \<in> tasks s. p \<noteq> idle_task s \<and> st s p = Some PROCESS_READY}"
    unfolding sjf_ready_def sjf_slots_tasks(1) [OF assms(1)] by auto
  have k: "((\<exists>p \<in> tasks s. p \<noteq> idle_task s \<and> st s p = Some PROCESS_READY) \<and>
       (\<forall>p \<in> tasks s. p \<noteq> idle_task s \<longrightarrow> st s p = Some PROCESS_READY \<longrightarrow>
          ctr s p = 0 \<and> unat (prio s p) mod 5 = 0)) \<longleftrightarrow> sjf_stuck s"
    unfolding sjf_stuck_def r using assms(1,2) by auto
  have "\<forall>p \<in> sjf_ready s. ctr s p < 0xFFFFFFFF" using assms(3) r by auto
  then have "\<not> sjf_stuck s \<Longrightarrow> \<exists>r. schedule_sjf s = Some r" by (rule schedule_sjf_ends [OF assms(1,2)])
  then show ?thesis unfolding k using schedule_sjf_diverges [of s] by auto
qed

theorem sjf_terminates_iff_witness:
  "(\<exists>r. schedule_sjf demo_sjf = Some r) \<and> \<not> (\<exists>r. schedule_sjf demo2 = Some r)"
proof
  have "\<forall>p \<in> tasks demo_sjf. ctr demo_sjf p < 0xFFFFFFFF"
    by (simp add: demo_sjf_facts) (simp add: ctr_def demo_sjf_def demo_def demo_proc_def zero_process_def)
  then show "\<exists>r. schedule_sjf demo_sjf = Some r"
    using sjf_terminates_iff [OF demo_sjf_table] demo_sjf_facts by auto
next
  have t: "table_ok demo2" "current demo2 \<noteq> NULL" using proc_invD(2,8) [OF demo2_inv] by (auto simp: valid_proc_def)
  have ts: "tasks demo2 = {0x100000, 0x101148, 0x102330, 0x103518}" "idle_task demo2 = 0x100000"
    using same_table_tasks [OF demo2_table] by (simp_all add: demo_facts)
  have c: "ctr demo2 p = 0" "prio demo2 p = 0" for p
    by (simp_all add: ctr_def prio_def demo2_def demo_def demo_proc_def zero_process_def)
  have "st demo2 0x103518 = Some PROCESS_READY" by (simp add: st_def demo2_def demo_proc_def)
  then show "\<not> (\<exists>r. schedule_sjf demo2 = Some r)"
    using sjf_terminates_iff [OF t] by (auto simp: ts c)
qed

section \<open>Switching without the queue\<close>

lemma switch_to_run:
  assumes c: "valid_proc s (current s)" "current s \<noteq> b" and b: "valid_proc s b"
    and x: "ctx_of s (current s) \<noteq> NULL" "ctx_of s b \<noteq> NULL"
  shows "\<exists>s'. switch_to b s = Xfer (Context_switch (ctx_of s (current s)) (ctx_of s b)) s' \<and>
    current s' = b \<and> (\<forall>qs. queue_ok s' qs = queue_ok s qs) \<and> core s' = core s \<and>
    (\<forall>p. st s' p = (if p = b then Some PROCESS_RUNNING
       else if p = current s \<and> st s p = Some PROCESS_RUNNING then Some PROCESS_READY else st s p))"
proof -
  obtain cr br where r: "procs s (current s) = Some cr" "procs s b = Some br" "current s \<noteq> NULL" "b \<noteq> NULL"
    using c b by (auto simp: valid_proc_def)
  have "p_context cr = ctx_of s (current s)" "p_context br = ctx_of s b"
    using ctx_of_procs r(1,2) by blast+
  then show ?thesis
    using r c(2) x
    by (cases "p_state cr = PROCESS_RUNNING")
       (auto simp: switch_to_def exec_simps Let_def st_def)
qed

text \<open>\<open>switch_to\<close> makes exactly the given process running and current and gives the processor to its
  context; a process that was running becomes ready. It does not touch the FIFO queue: the old
  process is ready without being queued, and the new one stays where it was.\<close>

theorem switch_to_correct:
  assumes "proc_inv s qs" "b \<in> tasks s" "b \<noteq> current s"
  shows "\<exists>s'. switch_to b s = Xfer (Context_switch (ctx_of s (current s)) (ctx_of s b)) s' \<and>
    current s' = b \<and> st s' b = Some PROCESS_RUNNING \<and> st s' (current s) = Some PROCESS_READY \<and>
    (\<forall>p. p \<noteq> b \<and> p \<noteq> current s \<longrightarrow> st s' p = st s p) \<and> queue_ok s' qs \<and> current s \<notin> set qs"
proof -
  note d = proc_invD [OF assms(1)]
  have x: "ctx_of s p \<noteq> NULL" if p: "p \<in> tasks s" for p
  proof -
    obtain pr where "view s p = Some pr" "proc_ok s pr" by (rule table_procD [OF d(2) p])
    then show ?thesis by (simp add: ctx_of_def proc_ok_def)
  qed
  show ?thesis
    using switch_to_run [OF d(8) assms(3) [symmetric] tasks_valid [OF d(2) assms(2)]] x d assms by auto
qed

theorem switch_to_correct_witness:
  "\<exists>s'. switch_to 0x103518 demo2 = Xfer (Context_switch 0x1021F0 0x1045C0) s' \<and> current s' = 0x103518 \<and>
     queue_ok s' [0x103518, 0x100000]"
proof -
  have "current demo2 = 0x101148" by (simp add: demo2_def demo_facts)
  moreover have "0x103518 \<in> tasks demo2" using same_table_tasks [OF demo2_table] by (simp add: demo_facts)
  moreover have "ctx_of demo2 0x101148 = 0x1021F0" "ctx_of demo2 0x103518 = 0x1045C0"
    using same_table_ctx [OF demo2_table] by (simp_all add: ctx_of_def demo_view demo_proc_def)
  ultimately show ?thesis using switch_to_correct [OF demo2_inv, of "0x103518"] by auto
qed

lemma remove_loop_cycle:
  assumes "procs s b = Some br" "p_next br = b" "b \<noteq> NULL" "p \<noteq> b"
  shows "scheduler_remove_loop p b s = None"
proof (rule ccontr)
  assume "scheduler_remove_loop p b s \<noteq> None"
  then obtain r where "scheduler_remove_loop p b s = Some r" by blast
  then have "\<not> (p \<noteq> b \<and> b \<noteq> NULL \<and> map_option p_next (procs s b) = Some b)"
    by (rule scheduler_remove_loop.raw_induct [rotated])
       (auto split: option.splits if_splits, blast)
  then show False using assms by simp
qed

text \<open>The two schedulers do not mix. When \<open>switch_to\<close> has started the last process \<open>b\<close> of a FIFO
  queue \<open>n, b\<close>, it is running and still queued; the next \<open>schedule\<close> queues it a second time, behind
  itself: its \<open>next\<close> field points to itself, and every later \<open>scheduler_remove\<close> of another process,
  such as the one in \<open>process_exit\<close>, runs for ever.\<close>

theorem sjf_fifo_mix:
  assumes q: "queue_ok s [n, b]" and c: "valid_proc s (current s)" "current s \<notin> {n, b}"
    and x: "ctx_of s (current s) \<noteq> NULL" "ctx_of s b \<noteq> NULL"
  shows "\<exists>s1 s2. exec_state (switch_to b s) = Some s1 \<and> queue_ok s1 [n, b] \<and> current s1 = b \<and>
    st s1 b = Some PROCESS_RUNNING \<and> exec_state (schedule s1) = Some s2 \<and> current s2 = n \<and>
    map_option p_next (procs s2 b) = Some b \<and> scheduler_remove n s2 = Spin s2"
proof -
  have v: "valid_proc s n" "valid_proc s b" "n \<noteq> b"
    using queue_ok_valid [OF q] q by (auto simp: queue_ok_def)
  obtain s1 where s1: "switch_to b s = Xfer (Context_switch (ctx_of s (current s)) (ctx_of s b)) s1"
    "current s1 = b" "queue_ok s1 [n, b]" "st s1 b = Some PROCESS_RUNNING"
    using switch_to_run [OF c(1) _ v(2) x] c(2) q by auto
  obtain nr br where r: "procs s1 n = Some nr" "procs s1 b = Some br" "n \<noteq> NULL" "b \<noteq> NULL"
    "p_next nr = b" "p_next br = NULL" "rq_head s1 = n" "rq_tail s1 = b" "p_state br = PROCESS_RUNNING"
    using s1(3,4) by (auto simp: queue_ok_def st_def split: option.splits)
  define s2 where "s2 = s1\<lparr>procs := (procs s1)
      (b \<mapsto> br\<lparr>p_state := PROCESS_READY, p_next := b\<rparr>, n \<mapsto> nr\<lparr>p_state := PROCESS_RUNNING\<rparr>),
    rq_head := b, rq_tail := b, current := n\<rparr>"
  have e: "exec_state (schedule s1) = Some s2"
    using r s1(2) v(3)
    by (simp add: schedule_def process_get_current_def scheduler_next_def scheduler_add_def exec_simps
        Let_def process_set_current_def scheduler_remove_def upd_proc_def s2_def fun_upd_twist)
  have "scheduler_remove_loop n b s2 = None"
    by (rule remove_loop_cycle [of _ _ "br\<lparr>p_state := PROCESS_READY, p_next := b\<rparr>"])
       (use r v(3) in \<open>simp_all add: s2_def\<close>)
  then have "scheduler_remove n s2 = Spin s2"
    using r v(3) by (simp add: scheduler_remove_def s2_def)
  then show ?thesis using s1 e v(3) by (auto simp: s2_def)
qed

theorem sjf_fifo_mix_witness:
  "\<exists>s1 s2. exec_state (switch_to 24 queued_procs) = Some s1 \<and> exec_state (schedule s1) = Some s2 \<and>
     scheduler_remove 16 s2 = Spin s2"
proof -
  have "current queued_procs = 8" "valid_proc queued_procs 8" "ctx_of queued_procs 8 \<noteq> NULL"
    "ctx_of queued_procs 24 \<noteq> NULL"
    by (simp_all add: queued_procs_def three_procs_def valid_proc_def ctx_of_def view_def)
  then show ?thesis using sjf_fifo_mix [OF queued_procs_ok] by auto
qed

end
