(* ===== verification/Process_Frame.thy ===== *)
theory Process_Frame
  imports Process_Props
begin

text \<open>
  What a call of the process subsystem leaves alone (the contexts, the memory and the processes that
  are already there) and where the objects of the processes lie in the kernel heap: in every reachable
  state the control blocks, stacks and contexts of the table lie in memory handed out by \<open>kmalloc\<close>
  and do not overlap.
\<close>

section \<open>What a call leaves alone\<close>

text \<open>The kernel stack of a process. Memory is only handed out; a new process has its control block,
  stack and context one after the other in new memory.\<close>

definition stack_of :: "kstate \<Rightarrow> ptr \<Rightarrow> ptr" where
  "stack_of s p = (case view s p of None \<Rightarrow> NULL | Some pr \<Rightarrow> p_kernel_stack pr)"

definition kept_layout :: "kstate \<Rightarrow> kstate \<Rightarrow> bool" where
  "kept_layout s s' \<longleftrightarrow> heap_addr s' = heap_addr s \<and> unat (heap_used s) \<le> unat (heap_used s') \<and>
     (\<forall>p \<in> tasks s. stack_of s' p = stack_of s p) \<and>
     (\<forall>q \<in> tasks s' - tasks s. q = heap_addr s + heap_used s \<and> ctx_of s' q = q + 4264 \<and> stack_of s' q = q + 168 \<and>
        unat (heap_used s) + 4584 \<le> unat (heap_used s'))"

text \<open>Contexts stay where they are with what they hold, processes keep theirs, and at most one
  process is new, with a context that was not in use.\<close>

definition frame :: "kstate \<Rightarrow> kstate \<Rightarrow> bool" where
  "frame s s' \<longleftrightarrow> ctxs s \<subseteq>\<^sub>m ctxs s' \<and> dom (procs s) \<subseteq> dom (procs s') \<and>
     (\<forall>p \<in> tasks s. ctx_of s' p = ctx_of s p) \<and>
     (\<forall>q \<in> tasks s' - tasks s. q \<notin> dom (procs s) \<and> ctxs s (ctx_of s' q) = None \<and>
        tasks s' \<subseteq> insert q (tasks s)) \<and> kept_layout s s'"

text \<open>No two processes of the table share a context.\<close>

definition own_ctx :: "kstate \<Rightarrow> bool" where
  "own_ctx s \<longleftrightarrow> inj_on (ctx_of s) (tasks s)"

definition call_ends :: "(unit, kstate) exec \<Rightarrow> kstate \<Rightarrow> kstate \<Rightarrow> bool" where
  "call_ends r s s' \<longleftrightarrow> frame s s' \<and> (\<exists>qs. proc_inv s' qs) \<and>
     (r = Ret () s' \<and> current s' = current s \<or>
      r = Xfer (switch_between s (current s) (current s')) s' \<and> current s' \<in> tasks s - {current s})"

lemma task_ctx:
  assumes "table_ok s" "p \<in> tasks s"
  shows "ctxs s (ctx_of s p) \<noteq> None" "ctx_of s p \<noteq> NULL"
proof -
  obtain pr where "view s p = Some pr" "proc_ok s pr" by (rule table_procD [OF assms])
  then show "ctxs s (ctx_of s p) \<noteq> None" "ctx_of s p \<noteq> NULL"
    by (simp_all add: ctx_of_def proc_ok_def)
qed

lemma frame_own:
  assumes f: "frame s s'" and o: "own_ctx s" and t: "table_ok s"
  shows "own_ctx s'"
proof -
  have c: "ctx_of s' p = ctx_of s p" if "p \<in> tasks s" for p
    using f that by (simp add: frame_def)
  then have i: "inj_on (ctx_of s') (tasks s)" using o by (simp add: own_ctx_def inj_on_def)
  show ?thesis
  proof (cases "tasks s' \<subseteq> tasks s")
    case True
    then show ?thesis unfolding own_ctx_def by (rule inj_on_subset [OF i])
  next
    case False
    then obtain q where "q \<in> tasks s' - tasks s" by blast
    then have q: "tasks s' \<subseteq> insert q (tasks s)" "ctxs s (ctx_of s' q) = None"
      using f by (auto simp: frame_def)
    then have n: "ctx_of s' q \<noteq> ctx_of s' p" if "p \<in> tasks s" for p
      using c [OF that] task_ctx(1) [OF t that] q(2) by metis
    then have "inj_on (ctx_of s') (insert q (tasks s))"
      using i unfolding inj_on_def by (metis insert_iff)
    then show ?thesis unfolding own_ctx_def by (rule inj_on_subset [OF _ q(1)])
  qed
qed

lemma frameI:
  assumes "ctxs s \<subseteq>\<^sub>m ctxs s'" "\<And>p. p \<in> tasks s \<Longrightarrow> ctx_of s' p = ctx_of s p"
    and "tasks s' \<subseteq> insert b (tasks s)" "ctxs s (ctx_of s' b) = None" "procs s b = None"
    and "dom (procs s) \<subseteq> dom (procs s')" "kept_layout s s'"
  shows "frame s s'"
proof -
  have "q = b" if "q \<in> tasks s' - tasks s" for q using assms(3) that by auto
  then have "\<forall>q \<in> tasks s' - tasks s. q \<notin> dom (procs s) \<and> ctxs s (ctx_of s' q) = None \<and>
      tasks s' \<subseteq> insert q (tasks s)"
    using assms(3-5) by auto
  then show ?thesis using assms(1,2,6,7) by (simp add: frame_def)
qed

lemma same_table_stack:
  assumes "same_table s s'"
  shows "stack_of s' p = stack_of s p"
proof (cases "view s p")
  case None
  then have "view s' p = None" by (rule same_table_view(1) [OF assms])
  with None show ?thesis unfolding stack_of_def by (simp only: option.case)
next
  case (Some pr)
  then show ?thesis using same_table_view(2) [OF assms Some] by (auto simp: stack_of_def static_eq)
qed

lemma frame_same_table:
  assumes "same_table s s'"
  shows "frame s s'"
proof -
  have "kept_layout s s'"
    using same_table_stack [OF assms] same_table_tasks [OF assms] assms by (auto simp: kept_layout_def same_table_def)
  moreover
  have "dom (procs s) \<subseteq> dom (procs s')"
    using assms by (auto simp: same_table_def view_def dom_def) (metis map_option_is_None option.exhaust)
  ultimately show ?thesis
    using assms same_table_ctx [OF assms] same_table_tasks [OF assms]
    by (auto simp: frame_def same_table_def)
qed

lemma frame_states:
  assumes "core s' = core s" "\<And>p. map_option static (view s' p) = map_option static (view s p)"
  shows "frame s s'"
  by (rule frame_same_table) (rule same_tableI, use assms in auto)

lemma frame_refl [simp]: "frame s s"
  by (rule frame_states) simp_all

lemma frame_grown:
  assumes i: "proc_inv s qs" and g: "grown s s'"
  shows "frame s s'"
proof -
  have "ctx_of s' p = ctx_of s p" "stack_of s' p = stack_of s p" if "p \<in> tasks s" for p
    using grown_view [OF g tasks_valid [OF proc_invD(2) [OF i] that]] by (simp_all add: ctx_of_def stack_of_def view_def)
  moreover have "tasks s' = tasks s" "ctxs s \<subseteq>\<^sub>m ctxs s'" "dom (procs s) \<subseteq> dom (procs s')"
    using g by (auto simp: grown_def tasks_def dest: map_le_implies_dom_le)
  ultimately show ?thesis using g by (auto simp: frame_def kept_layout_def grown_def)
qed

lemma create_ends:
  assumes i: "proc_inv s qs"
  shows "\<exists>s'. call_ends (kcall_run (Create entry arg priority) s) s s'"
proof (cases "entry = NULL \<or> task_count s \<ge> 64 \<or> unat (heap_used s) + 4584 > 1048576")
  case True
  obtain s' where s': "process_create entry arg priority s = Ret (- 1) s'" "proc_inv s' qs"
      "s' = s \<or> grown s s'"
    using create_refused_inv [OF i True, of arg priority] by blast
  then have "frame s s'" "current s' = current s" using frame_grown [OF i] by (auto simp: grown_def)
  then show ?thesis using s' by (auto simp: call_ends_def)
next
  case False
  let ?b = "heap_addr s + heap_used s" and ?s = "created entry arg priority s"
  note d = proc_invD [OF i]
  have h: "unat (heap_used s) + 4584 \<le> 1048576" using False by simp
  obtain s' where s': "process_create entry arg priority s = Ret (next_pid s) s'"
      "proc_inv s' (qs @ [?b])" "relinked (task_insert ?b ?s) s'"
    using create_room_inv [OF i _ _ h, of entry arg priority] False by auto
  have vw: "view s' = view ?s" "ctxs s' = ctxs ?s" "current s' = current s" "task s' = task (task_insert ?b ?s)"
      "heap_addr s' = heap_addr s" "heap_used s' = heap_used s + 4584"
    using s'(3) core_eqD [of s' "task_insert ?b ?s"]
    by (auto simp: relinked_def task_insert_def created_def Let_def view_def fun_eq_iff split: option.splits)
  have g: "grown s ?s" using created_grown [OF d(1) h] by blast
  have dp: "dom (procs s') = dom (procs ?s)"
    using fun_cong [OF vw(1)] by (auto simp: dom_def) (metis view_None option.exhaust)+
  have "tasks s' \<subseteq> insert ?b (tasks s)"
    using g set_update_subset_insert [of "task s" _ ?b]
    by (force simp: tasks_def used_slots_def vw(4) task_insert_def grown_def split: option.splits)
  moreover have new: "ctx_of s' ?b = ?b + 4264" "stack_of s' ?b = ?b + 168"
    by (simp_all add: ctx_of_def stack_of_def vw(1)) (simp_all add: view_def created_def new_proc_def Let_def)
  moreover have "ctxs s (?b + 4264) = None" using fresh_addr(2) [OF d(1), of 4264] h by auto
  moreover have "ctx_of s' = ctx_of ?s" "stack_of s' = stack_of ?s"
    by (simp_all add: ctx_of_def stack_of_def vw(1) fun_eq_iff)
  moreover have "unat (heap_used s + 4584) = unat (heap_used s) + 4584"
    using unat_add_no_wrap [of "heap_used s" 4584] h by simp
  moreover have fg: "frame s ?s" by (rule frame_grown [OF i g])
  ultimately have "kept_layout s s'"
    by (auto simp: kept_layout_def frame_def vw(5,6))
  with fg new have "frame s s'"
    using \<open>tasks s' \<subseteq> insert ?b (tasks s)\<close> \<open>ctxs s (?b + 4264) = None\<close> \<open>ctx_of s' = ctx_of ?s\<close>
      vw(2) dp fresh_addr(1) [OF d(1), of 0] h
    by (intro frameI [where b = ?b]) (simp_all add: frame_def)
  then show ?thesis using s' vw(3) by (auto simp: call_ends_def)
qed

lemma switch_ends:
  assumes "r = Xfer (switch_between s (current s) m) s'" "proc_inv s' ms" "current s' = m" "same_table s s'"
    and "m \<noteq> current s"
  shows "call_ends r s s'"
  using assms frame_same_table proc_invD(5) [OF assms(2)] same_table_tasks [OF assms(4)]
  by (auto simp: call_ends_def)

lemma schedule_ends:
  assumes i: "proc_inv s qs"
  shows "\<exists>s'. call_ends (schedule s) s s'"
proof (cases qs)
  case Nil
  then show ?thesis using i schedule_alone [of s] by (auto simp: call_ends_def)
next
  case (Cons n ns)
  then obtain s' where s': "schedule s = Xfer (switch_between s (current s) n) s'"
    "proc_inv s' (ns @ [current s])" "current s' = n" "core s' = core s"
    "view s' = set_st n PROCESS_RUNNING (set_st (current s) PROCESS_READY (view s))"
    using schedule_inv [of s n ns] i by auto
  have "same_table s s'" by (rule same_tableI [OF s'(4)]) (simp add: s'(5))
  then show ?thesis using switch_ends [OF s'(1-3)] proc_invD(6) [OF i] Cons by auto
qed

lemma block_ends:
  assumes i: "proc_inv s qs"
    and s': "qs = m # ms" "r = Xfer (switch_between s (current s) m) s'" "proc_inv s' ms" "current s' = m"
      "core s' = core s" "view s' = set_st m PROCESS_RUNNING (set_st (current s) PROCESS_BLOCKED (view s))"
  shows "call_ends r s s'"
proof (rule switch_ends [OF s'(2-4)])
  show "same_table s s'" by (rule same_tableI [OF s'(5)]) (simp add: s'(6))
  show "m \<noteq> current s" using proc_invD(6) [OF i] s'(1) by auto
qed

lemma wait_ends:
  assumes i: "proc_inv s qs"
  shows "\<exists>s'. call_ends (kcall_run (Wait pid w) s) s s'"
proof (cases "current s = idle_task s \<or> pid_of s (current s) = pid \<or> pid \<notin> pid_of s ` tasks s")
  case True
  then show ?thesis using wait_refused [OF i] i by (auto simp: call_ends_def)
next
  case False
  then obtain p where p: "p \<in> tasks s" "p \<noteq> current s" "pid = pid_of s p" "current s \<noteq> idle_task s" by auto
  obtain pr where pr: "view s p = Some pr" by (rule table_procD [OF proc_invD(2) [OF i] p(1)])
  show ?thesis
  proof (cases "st s p = Some PROCESS_TERMINATED")
    case True
    note r = reap_inv [OF i p(1) True pr]
    let ?s = "reaped p pr s"
    have same: "view ?s = view s" "ctxs ?s = ctxs s" "current ?s = current s" "procs ?s = procs s"
      "heap_addr ?s = heap_addr s" "heap_used ?s = heap_used s"
      by (simp_all add: reaped_def task_recount_def task_remove_def Let_def view_def fun_eq_iff)
    have "tasks ?s \<subseteq> tasks s" using r(3) set_remove1_subset [of p] by (simp add: tasks_def)
    then have "frame s ?s" by (auto simp: frame_def kept_layout_def same ctx_of_def stack_of_def)
    then show ?thesis
      using r wait_target [OF i p(4,1,2)] True p(3) same(3) by (auto simp: call_ends_def)
  next
    case no: False
    then obtain m ms s' where "qs = m # ms" "process_wait pid w s = Xfer (switch_between s (current s) m) s'"
      "proc_inv s' ms" "current s' = m" "core s' = core s"
      "view s' = set_st m PROCESS_RUNNING (set_st (current s) PROCESS_BLOCKED (view s))"
      using wait_blocks [OF i p(4,1,2) no, of w] p(3) by blast
    then show ?thesis using block_ends [OF i] by auto
  qed
qed

lemma timer_ends:
  assumes i: "proc_inv s qs"
  shows "\<exists>s'. call_ends (do_timer s) s s'"
proof -
  let ?t = "upd_proc (current s) ticked s"
  obtain c where c: "procs s (current s) = Some c" "current s \<noteq> NULL"
    using proc_invD(8) [OF i] by (auto simp: valid_proc_def)
  have t: "proc_inv ?t qs" by (rule upd_inv [OF i]) simp_all
  have st: "same_table s ?t"
    by (rule same_tableI) (auto simp: view_upd_proc option.map_comp comp_def)
  obtain s' where s': "call_ends (schedule ?t) ?t s'" using schedule_ends [OF t] by blast
  have dp: "dom (procs ?t) = dom (procs s)" by (auto simp: dom_def split: if_splits)
  have ft: "frame s s'" if "frame ?t s'" for s'
    using that unfolding frame_def kept_layout_def dp same_table_ctx [OF st] same_table_tasks [OF st]
      same_table_stack [OF st] same_tableD(1,2,6) [OF st] .
  have sw: "switch_between ?t = switch_between s"
    using same_table_ctx [OF st] by (auto simp: switch_between_def fun_eq_iff)
  have "call_ends (schedule ?t) s s'"
    using s' ft same_table_tasks [OF st] by (auto simp: call_ends_def sw)
  moreover have "call_ends (Ret () ?t) s ?t"
    using t frame_same_table [OF st] by (auto simp: call_ends_def)
  ultimately show ?thesis using do_timer_run [OF c] by (cases "p_counter c \<le> 1") auto
qed

lemma call_ends:
  assumes i: "proc_inv s qs" and ok: "kcall_ok c s"
  shows "\<exists>s'. call_ends (kcall_run c s) s s'"
proof (cases c)
  case (Exit code)
  show ?thesis
  proof (cases "current s = idle_task s")
    case True
    then show ?thesis using Exit exit_idle [OF i] i by (auto simp: call_ends_def)
  next
    case False
    then obtain m ms s' where s': "qs @ blocked s = m # ms" "proc_inv s' ms" "current s' = m"
      "process_exit code s = Xfer (switch_between s (current s) m) s'" "same_table s s'"
      using exit_inv [OF i, of code] by blast
    have "m \<in> set (qs @ blocked s)" using s'(1) by simp
    then have "m \<noteq> current s" using proc_invD(6,7) [OF i] by (auto simp: blocked_def)
    then show ?thesis using switch_ends [OF s'(4,2,3,5)] Exit by auto
  qed
next
  case Block
  then show ?thesis using block_inv [OF i] ok block_ends [OF i] by fastforce
next
  case (Wake p)
  show ?thesis
  proof (cases "p = NULL \<or> st s p \<noteq> Some PROCESS_BLOCKED")
    case True
    then show ?thesis
      using Wake i ok wake_inv [OF i, of p]
      by (cases "p = NULL") (auto simp: call_ends_def scheduler_wake_def)
  next
    case False
    then have "p \<noteq> current s" using proc_invD(7) [OF i] by auto
    then obtain s' where s': "scheduler_wake p s = Ret () s'" "mem_ok s'" "table_ok s'"
      "run_ok s' (qs @ [p]) {current s}" "view s' = set_st p PROCESS_READY (view s)" "core s' = core s"
      "current s' = current s"
      using wake_run [OF proc_invD(1-3) [OF i], of p] ok Wake False by auto
    have "frame s s'" by (rule frame_states [OF s'(6)]) (simp add: s'(5))
    then show ?thesis using s' Wake by (auto simp: call_ends_def proc_inv_def)
  qed
qed (use create_ends [OF i] wait_ends [OF i] timer_ends [OF i] schedule_ends [OF i] in auto)

section \<open>Processes in memory\<close>

text \<open>The memory of a process: its control block, its kernel stack, its context.\<close>

definition proc_memory :: "kstate \<Rightarrow> ptr \<Rightarrow> nat set list" where
  "proc_memory s p = [{unat p ..< unat p + 168}, {unat (stack_of s p) ..< unat (stack_of s p) + 4096},
     {unat (ctx_of s p) ..< unat (ctx_of s p) + 160}]"

definition layout_ok :: "kstate \<Rightarrow> bool" where
  "layout_ok s \<longleftrightarrow> (\<forall>p \<in> tasks s. ctx_of s p = p + 4264 \<and> stack_of s p = p + 168 \<and>
     unat (heap_addr s) \<le> unat p \<and> unat p + 4424 \<le> unat (heap_addr s) + unat (heap_used s) \<and>
     (\<forall>q \<in> tasks s. q \<noteq> p \<longrightarrow> unat p + 4424 \<le> unat q \<or> unat q + 4424 \<le> unat p))"

lemma frame_layout:
  assumes f: "frame s s'" and l: "layout_ok s" and k: "kmem_inv s"
  shows "layout_ok s'"
proof -
  have kl: "heap_addr s' = heap_addr s" "unat (heap_used s) \<le> unat (heap_used s')"
    "\<forall>p \<in> tasks s. stack_of s' p = stack_of s p \<and> ctx_of s' p = ctx_of s p"
    "\<forall>q \<in> tasks s' - tasks s. q = heap_addr s + heap_used s \<and> ctx_of s' q = q + 4264 \<and> stack_of s' q = q + 168 \<and>
       unat (heap_used s) + 4584 \<le> unat (heap_used s')"
    using f by (auto simp: frame_def kept_layout_def)
  have b: "unat (heap_addr s + heap_used s) = unat (heap_addr s) + unat (heap_used s)"
    by (rule kmem_ptr_unat [OF k])
  have old: "ctx_of s' p = p + 4264 \<and> stack_of s' p = p + 168 \<and> unat (heap_addr s) \<le> unat p \<and>
      unat p + 4424 \<le> unat (heap_addr s) + unat (heap_used s)" if "p \<in> tasks s" for p
    using that l kl(3) by (simp add: layout_ok_def)
  have new: "q = heap_addr s + heap_used s" "unat q = unat (heap_addr s) + unat (heap_used s)"
    "ctx_of s' q = q + 4264" "stack_of s' q = q + 168" "unat (heap_used s) + 4584 \<le> unat (heap_used s')"
    if "q \<in> tasks s'" "q \<notin> tasks s" for q using that kl(4) b by auto
  have "unat p + 4424 \<le> unat q \<or> unat q + 4424 \<le> unat p" if pq: "p \<in> tasks s'" "q \<in> tasks s'" "q \<noteq> p" for p q
  proof (cases "p \<in> tasks s"; cases "q \<in> tasks s")
    assume "p \<in> tasks s" "q \<in> tasks s"
    then show ?thesis using l pq(3) by (simp add: layout_ok_def)
  next
    assume "p \<in> tasks s" "q \<notin> tasks s"
    then show ?thesis using old [of p] new(2) [OF pq(2)] by simp
  next
    assume "p \<notin> tasks s" "q \<in> tasks s"
    then show ?thesis using old [of q] new(2) [OF pq(1)] by simp
  next
    assume "p \<notin> tasks s" "q \<notin> tasks s"
    then show ?thesis using new(1) [OF pq(1)] new(1) [OF pq(2)] pq(3) by simp
  qed
  moreover have "ctx_of s' p = p + 4264 \<and> stack_of s' p = p + 168 \<and> unat (heap_addr s') \<le> unat p \<and>
      unat p + 4424 \<le> unat (heap_addr s') + unat (heap_used s')" if "p \<in> tasks s'" for p
    using old [of p] new [OF that] kl(1,2) by (cases "p \<in> tasks s") auto
  ultimately show ?thesis unfolding layout_ok_def by blast
qed

lemma initial_layout: "heap_placed a \<Longrightarrow> layout_ok (initial a)"
  by (simp add: layout_ok_def tasks_def initial_def used_slots_def heap_placed_def ctx_of_def stack_of_def view_def
      boot_state_def)

lemma reachable_layout:
  assumes "reachable a s" "heap_placed a"
  shows "layout_ok s"
  using assms(1)
proof (induction rule: reachable.induct)
  case (start s)
  then have "s = initial a" using init_run [of a] assms(2) by (simp add: heap_placed_def)
  then show ?case using initial_layout [OF assms(2)] by simp
next
  case (call s c s')
  obtain qs where i: "proc_inv s qs" using reachable_inv [OF call(1) assms(2)] by blast
  have "frame s s'" using call_ends [OF i call(2)] call(3) by (auto simp: call_ends_def)
  then show ?case using frame_layout call.IH proc_invD(1) [OF i] by (auto simp: mem_ok_def)
next
  case (switch s c t s')
  obtain qs where i: "proc_inv s qs" using reachable_inv [OF switch(1) assms(2)] by blast
  have "frame s s'" using call_ends [OF i switch(2)] switch(3) by (auto simp: call_ends_def)
  then show ?case using frame_layout switch.IH proc_invD(1) [OF i] by (auto simp: mem_ok_def)
qed

lemma layout_memory:
  assumes l: "layout_ok s" and k: "kmem_inv s" and p: "p \<in> tasks s"
  shows "proc_memory s p = [{unat p ..< unat p + 168}, {unat p + 168 ..< unat p + 4264},
      {unat p + 4264 ..< unat p + 4424}]" "{unat p ..< unat p + 4424} \<subseteq> kmem_owned s"
proof -
  have d: "ctx_of s p = p + 4264" "stack_of s p = p + 168" "unat (heap_addr s) \<le> unat p"
    "unat p + 4424 \<le> unat (heap_addr s) + unat (heap_used s)" using l p by (auto simp: layout_ok_def)
  then have "unat p + 4424 < 2 ^ 64" using k by (simp add: kmem_inv_def)
  then have "unat (p + 4264) = unat p + 4264" "unat (p + 168) = unat p + 168"
    using unat_add_no_wrap [of p 4264] unat_add_no_wrap [of p 168] by simp_all
  then show "proc_memory s p = [{unat p ..< unat p + 168}, {unat p + 168 ..< unat p + 4264},
      {unat p + 4264 ..< unat p + 4424}]" by (simp add: proc_memory_def d add.commute)
  show "{unat p ..< unat p + 4424} \<subseteq> kmem_owned s" using d by (auto simp: kmem_owned_def)
qed

lemma layout_disjoint:
  assumes l: "layout_ok s" and k: "kmem_inv s" and p: "p \<in> tasks s" "q \<in> tasks s" "i < 3" "j < 3" "p \<noteq> q \<or> i \<noteq> j"
  shows "proc_memory s p ! i \<inter> proc_memory s q ! j = {}"
proof (cases "p = q")
  case True
  have "i = 0 \<or> i = 1 \<or> i = 2" "j = 0 \<or> j = 1 \<or> j = 2" "i \<noteq> j" using p(3-5) True by auto
  then show ?thesis unfolding True layout_memory(1) [OF l k p(2)] by auto
next
  case False
  have sub: "proc_memory s x ! n \<subseteq> {unat x ..< unat x + 4424}" if "x \<in> tasks s" "n < 3" for x n
  proof -
    have "n = 0 \<or> n = 1 \<or> n = 2" using that(2) by auto
    then show ?thesis unfolding layout_memory(1) [OF l k that(1)] by auto
  qed
  have "unat p + 4424 \<le> unat q \<or> unat q + 4424 \<le> unat p" using l p(1,2) False by (auto simp: layout_ok_def)
  then have "{unat p ..< unat p + 4424} \<inter> {unat q ..< unat q + 4424} = {}" by auto
  then show ?thesis using sub [OF p(1,3)] sub [OF p(2,4)] by blast
qed

section \<open>All reachable states\<close>

text \<open>C1. In every state the subsystem can reach from \<open>process_init\<close> by creating, ending, awaiting,
  blocking, waking, yielding and timer ticks (the idle process does not block, and a pointer to wake is
  null or in the table): exactly one process of the table is running and it is \<open>current\<close>; the ready
  processes are exactly those linked in the ready queue, each once; the idle process is in the table, and
  neither blocked nor terminated; and the control blocks, kernel stacks and contexts of the processes in the table
  lie in memory that \<open>kmalloc\<close> has handed out, no two of them overlapping.\<close>

theorem reachable_consistent:
  assumes "heap_placed a" "reachable a s"
  shows "\<exists>qs. queue_ok s qs \<and> current s \<in> tasks s \<and>
    {p \<in> tasks s. st s p = Some PROCESS_RUNNING} = {current s} \<and>
    {p \<in> tasks s. st s p = Some PROCESS_READY} = set qs \<and>
    idle_task s \<in> tasks s \<and> st s (idle_task s) \<in> {Some PROCESS_READY, Some PROCESS_RUNNING} \<and>
    kmem_inv s \<and> (\<forall>p \<in> tasks s. \<forall>m \<in> set (proc_memory s p). m \<subseteq> kmem_owned s) \<and>
    (\<forall>p \<in> tasks s. \<forall>q \<in> tasks s. \<forall>i < 3. \<forall>j < 3. p \<noteq> q \<or> i \<noteq> j \<longrightarrow>
       proc_memory s p ! i \<inter> proc_memory s q ! j = {})"
proof -
  obtain qs where i: "proc_inv s qs" using reachable_inv [OF assms(2,1)] by blast
  note d = proc_invD [OF i]
  have idle: "idle_task s \<in> tasks s" by (rule idle_in_tasks [OF d(2)])
  have k: "kmem_inv s" using d(1) by (simp add: mem_ok_def)
  note l = reachable_layout [OF assms(2,1)]
  note mem = layout_memory [OF l k]
  have inside: "\<forall>p \<in> tasks s. \<forall>m \<in> set (proc_memory s p). m \<subseteq> kmem_owned s"
  proof
    fix p assume "p \<in> tasks s"
    then show "\<forall>m \<in> set (proc_memory s p). m \<subseteq> kmem_owned s" using mem(2) [of p] by (auto simp: mem(1))
  qed
  have "proc_memory s p ! i \<inter> proc_memory s q ! j = {}"
    if "p \<in> tasks s" "q \<in> tasks s" "i < 3" "j < 3" "p \<noteq> q \<or> i \<noteq> j" for p q i j
    by (rule layout_disjoint [OF l k that])
  then show ?thesis using d(3,4,5) idle k inside by (intro exI [of _ qs]) (auto simp: run_ok_def)
qed

theorem reachable_consistent_witness:
  "\<exists>s. reachable 0x100000 s \<and> {p \<in> tasks s. st s p = Some PROCESS_RUNNING} = {0x101148} \<and>
     0x100000 \<in> {p \<in> tasks s. st s p = Some PROCESS_READY} \<and>
     proc_memory s 0x100000 ! 1 \<inter> proc_memory s 0x101148 ! 0 = {}"
proof -
  let ?a = "0x100000 :: ptr" and ?p = "0x101148 :: ptr"
  have i: "proc_inv (initial ?a) []" using initial_inv [of ?a] placed_demo by (simp add: heap_placed_def)
  have f: "task_count (initial ?a) = 1" "heap_used (initial ?a) = 4424" "heap_addr (initial ?a) = ?a"
    "current (initial ?a) = ?a"
    by (simp_all add: initial_def boot_state_def)
  obtain s1 where s1: "process_create 0x4000 7 1 (initial ?a) = Ret (next_pid (initial ?a)) s1" "proc_inv s1 [?p]"
    "relinked (task_insert ?p (created 0x4000 7 1 (initial ?a))) s1"
    using create_room_inv [OF i, of "0x4000" 7 1] f by auto
  have c1: "current s1 = ?a"
    using s1(3) f(4) by (auto simp: relinked_def task_insert_def created_def Let_def split: option.splits)
  have r1: "reachable ?a s1"
    using reachable.call [OF initial_reachable, of "Create 0x4000 7 1" s1] s1(1) by simp
  obtain s2 where s2: "schedule s1 = Xfer (switch_between s1 ?a ?p) s2" "proc_inv s2 [?a]" "current s2 = ?p"
    using schedule_inv [OF s1(2)] c1 by auto
  have r2: "reachable ?a s2" using reachable.switch [OF r1, of Yield] s2(1) by simp
  have t: "?a \<in> tasks s2" "?p \<in> tasks s2" using proc_invD(5,9) [OF s2(2)] s2(3) by auto
  have "st s2 ?a = Some PROCESS_READY" using proc_invD(3) [OF s2(2)] t(1) by (simp add: run_ok_def)
  moreover have "{p \<in> tasks s2. st s2 p = Some PROCESS_RUNNING} = {?p}"
    using reachable_consistent [OF placed_demo r2] unfolding s2(3) by (elim exE conjE)
  moreover have rc: "\<forall>p \<in> tasks s2. \<forall>q \<in> tasks s2. \<forall>i < 3. \<forall>j < 3. p \<noteq> q \<or> i \<noteq> j \<longrightarrow>
         proc_memory s2 p ! i \<inter> proc_memory s2 q ! j = {}"
    using reachable_consistent [OF placed_demo r2] by (elim exE conjE)
  moreover have "proc_memory s2 ?a ! 1 \<inter> proc_memory s2 ?p ! 0 = {}"
    using rc [rule_format, OF t, of 1 0] by simp
  ultimately show ?thesis using r2 t by (intro exI [of _ s2]) simp
qed

end
