(* ===== verification/Process_Run.thy ===== *)
theory Process_Run
  imports Process_Frame
begin

text \<open>
  The process subsystem and the context switch. A call into the subsystem ends by returning to its
  caller or with a transfer of control; here the transfer is carried out up to the call of
  \<open>context_restore\<close>: \<open>context_switch\<close> saves the registers into the context of the process that leaves
  and hands over the context of the process that comes in. What \<open>context_restore\<close> makes of it depends
  on the compiler (\<open>Context\<close>), so nothing here rests on it: the registers and the stack memory that
  the running process has at its next call are an argument of the run, whatever they are. The register
  \<open>op\<close> is the compiler's choice for the operand of \<open>context_save\<close>.
\<close>

section \<open>The machine\<close>

text \<open>The state of a run: the context last handed to \<open>context_restore\<close>, if the last call ended that way,
  and the state of the subsystem.\<close>

type_synonym mstate = "context_t option \<times> kstate"

definition transfer_run :: "gpr \<Rightarrow> transfer \<Rightarrow> cpu \<Rightarrow> kstate \<Rightarrow> (unit, mstate) exec" where
  "transfer_run op t cpu s =
     (case t of
        Context_switch from to \<Rightarrow>
          (case context_hand_over op from to cpu (ctxs s) of
             Inl f \<Rightarrow> Crash f
           | Inr (_, ct, h) \<Rightarrow> Ret () (Some ct, s\<lparr>ctxs := h\<rparr>))
      | Context_restore to \<Rightarrow>
          (case ctxs s to of None \<Rightarrow> Crash BadPtr | Some ct \<Rightarrow> Ret () (Some ct, s)))"

text \<open>A call by the running process, with the processor as it is when the first statement of
  \<open>context_save\<close> begins, if the call gets there.\<close>

fun machine_call :: "gpr \<Rightarrow> kcall \<times> cpu \<Rightarrow> mstate \<Rightarrow> (unit, mstate) exec" where
  "machine_call op (c, cpu) (_, s) =
     (case kcall_run c s of
        Ret _ s \<Rightarrow> Ret () (None, s)
      | Xfer t s \<Rightarrow> transfer_run op t cpu s
      | Spin s \<Rightarrow> Spin (None, s)
      | Crash f \<Rightarrow> Crash f)"

text \<open>What the caller has to respect: the idle process does not block, and a pointer to wake is null or
  that of a process in the table.\<close>

fun machine_ok :: "kcall \<times> cpu \<Rightarrow> mstate \<Rightarrow> bool" where
  "machine_ok (c, _) (_, s) = kcall_ok c s"

section \<open>The machine keeps the invariant\<close>

definition machine_inv :: "kstate \<Rightarrow> bool" where
  "machine_inv s \<longleftrightarrow> (\<exists>qs. proc_inv s qs) \<and> own_ctx s"

lemma ctxs_sel [simp]:
  "view (s\<lparr>ctxs := h\<rparr>) = view s" "st (s\<lparr>ctxs := h\<rparr>) = st s" "ctx_of (s\<lparr>ctxs := h\<rparr>) = ctx_of s"
  "tasks (s\<lparr>ctxs := h\<rparr>) = tasks s"
  by (simp_all add: view_def st_def ctx_of_def tasks_def fun_eq_iff)

lemma ctxs_own [simp]: "own_ctx (s\<lparr>ctxs := h\<rparr>) = own_ctx s"
  by (simp add: own_ctx_def)

lemma ctxs_inv [simp]:
  assumes "dom h = dom (ctxs s)"
  shows "proc_inv (s\<lparr>ctxs := h\<rparr>) qs = proc_inv s qs"
proof -
  let ?s = "s\<lparr>ctxs := h\<rparr>"
  have h: "(h p = None) = (ctxs s p = None)" for p using assms by (metis domIff)
  have "pid_of ?s = pid_of s" "in_heap ?s = in_heap s" "kmem_inv ?s = kmem_inv s"
    "proc_ok ?s = proc_ok s" "idle_task ?s = idle_task s" "queue_ok ?s = queue_ok s"
    using h by (auto simp: pid_of_def in_heap_def kmem_inv_def kmem_owned_def proc_ok_def
        idle_task_def queue_ok_def fun_eq_iff)
  then show ?thesis
    using h unfolding proc_inv_def mem_ok_def table_ok_def run_ok_def ctxs_sel by simp
qed

text \<open>A call on the machine, in full: either the caller goes on, or its registers are saved in its
  context and another process of the table goes on from its own.\<close>

lemma machine_call_cases:
  assumes m: "machine_inv s" and ok: "kcall_ok c s"
  obtains (returns) s' where "machine_call op (c, cpu) (x, s) = Ret () (None, s')" "machine_inv s'"
      "frame s s'" "current s' = current s" "kcall_run c s = Ret () s'"
  | (switches) s1 s' b cb n cn where
      "machine_call op (c, cpu) (x, s) = Ret () (Some cn, s')"
      "s' = s1\<lparr>ctxs := (ctxs s1)(b \<mapsto> snd (context_save op b cpu cb))\<rparr>" "machine_inv s'" "frame s s1"
      "current s' = n" "n \<in> tasks s - {current s}" "b = ctx_of s (current s)" "ctxs s b = Some cb"
      "ctxs s (ctx_of s n) = Some cn" "kcall_run c s = Xfer (switch_between s (current s) n) s1"
proof -
  obtain qs where i: "proc_inv s qs" and o: "own_ctx s" using m by (auto simp: machine_inv_def)
  note t = proc_invD(2) [OF i]
  obtain s1 where s1: "call_ends (kcall_run c s) s s1" using call_ends [OF i ok] by blast
  then obtain qs' where i1: "proc_inv s1 qs'" and f: "frame s s1" by (auto simp: call_ends_def)
  have o1: "own_ctx s1" by (rule frame_own [OF f o t])
  show thesis
  proof (cases "kcall_run c s = Ret () s1 \<and> current s1 = current s")
    case True
    then show ?thesis using returns [of s1] i1 o1 f by (auto simp: machine_inv_def)
  next
    case False
    let ?n = "current s1" and ?b = "ctx_of s (current s)"
    have n: "kcall_run c s = Xfer (switch_between s (current s) ?n) s1" "?n \<in> tasks s - {current s}"
      using s1 False by (auto simp: call_ends_def)
    obtain cb where cb: "ctxs s ?b = Some cb" "?b \<noteq> NULL"
      using task_ctx [OF t proc_invD(5) [OF i]] by auto
    obtain cn where cn: "ctxs s (ctx_of s ?n) = Some cn" using task_ctx(1) [OF t, of ?n] n(2) by auto
    have ne: "ctx_of s ?n \<noteq> ?b"
      using o n(2) proc_invD(5) [OF i] by (auto simp: own_ctx_def inj_on_def)
    have c1: "ctxs s1 ?b = Some cb" "ctxs s1 (ctx_of s ?n) = Some cn"
      using f cb(1) cn by (auto simp: frame_def map_le_def dom_def)
    let ?s = "s1\<lparr>ctxs := (ctxs s1)(?b \<mapsto> snd (context_save op ?b cpu cb))\<rparr>"
    have "dom ((ctxs s1)(?b \<mapsto> snd (context_save op ?b cpu cb))) = dom (ctxs s1)" using c1(1) by auto
    then have "machine_inv ?s" using i1 o1 by (auto simp: machine_inv_def)
    moreover have "machine_call op (c, cpu) (x, s) = Ret () (Some cn, ?s)"
      using n(1) cb(2) c1 ne
      by (simp add: transfer_run_def switch_between_def context_hand_over_def Let_def split: prod.split)
    ultimately show ?thesis using switches [of cn ?s s1 ?b cb ?n] f n cb(1) cn by simp
  qed
qed

text \<open>The context handed over last is the one the store has for the process that runs.\<close>

definition machine_ok_state :: "mstate \<Rightarrow> bool" where
  "machine_ok_state m \<longleftrightarrow> machine_inv (snd m) \<and>
     (\<forall>c. fst m = Some c \<longrightarrow> ctxs (snd m) (ctx_of (snd m) (current (snd m))) = Some c)"

interpretation machine: safe_calls "machine_call op" machine_ok machine_ok_state for op
proof
  fix m :: mstate and c assume *: "machine_ok_state m" "machine_ok c m"
  obtain k cpu x s where c: "c = (k, cpu)" "m = (x, s)" by (cases c, cases m) blast
  then have "machine_inv s" "kcall_ok k s" using * by (simp_all add: machine_ok_state_def)
  then show "\<exists>m'. hands_on (machine_call op c m) m' \<and> machine_ok_state m'"
    unfolding c
  proof (cases rule: machine_call_cases [where op = op and cpu = cpu and x = x])
    case (returns s')
    then show "\<exists>m'. hands_on (machine_call op (k, cpu) (x, s)) m' \<and> machine_ok_state m'"
      by (auto simp: hands_on_def machine_ok_state_def simp del: machine_call.simps)
  next
    case (switches s1 s' b cb n cn)
    have f: "ctx_of s1 n = ctx_of s n" "ctxs s1 (ctx_of s n) = Some cn"
      using switches(4,6,9) by (auto simp: frame_def map_le_def dom_def)
    have "current s \<in> tasks s" "own_ctx s" using \<open>machine_inv s\<close> proc_invD(5) by (auto simp: machine_inv_def)
    then have "ctx_of s n \<noteq> b" using switches(6,7) by (auto simp: own_ctx_def inj_on_def)
    then have "machine_ok_state (Some cn, s')" using switches(2,3,5) f by (simp add: machine_ok_state_def)
    then show "\<exists>m'. hands_on (machine_call op (k, cpu) (x, s)) m' \<and> machine_ok_state m'"
      using switches(1) by (auto simp: hands_on_def simp del: machine_call.simps)
  qed
qed

section \<open>A process that is switched out\<close>

text \<open>Process \<open>p\<close> does not run and its context, at \<open>b\<close>, holds \<open>c0\<close>.\<close>

definition parked :: "ptr \<Rightarrow> ptr \<Rightarrow> context_t \<Rightarrow> kstate \<Rightarrow> bool" where
  "parked p b c0 s \<longleftrightarrow> machine_inv s \<and> p \<noteq> current s \<and> p \<in> dom (procs s) \<and> ctxs s b = Some c0 \<and>
     (\<forall>q \<in> tasks s. ctx_of s q = b \<longleftrightarrow> q = p)"

text \<open>An allowed call of a process other than \<open>p\<close>.\<close>

fun others_call :: "ptr \<Rightarrow> kcall \<times> cpu \<Rightarrow> mstate \<Rightarrow> bool" where
  "others_call p k (x, s) = (machine_ok k (x, s) \<and> current s \<noteq> p)"

lemma frame_ctx_iff:
  assumes f: "frame s s'" and p: "p \<in> dom (procs s)" "\<forall>q \<in> tasks s. ctx_of s q = b \<longleftrightarrow> q = p"
    and c: "ctxs s b = Some c0"
  shows "p \<in> dom (procs s')" "\<forall>q \<in> tasks s'. ctx_of s' q = b \<longleftrightarrow> q = p" "ctxs s' b = Some c0"
proof -
  show "p \<in> dom (procs s')" "ctxs s' b = Some c0"
    using f p(1) c by (auto simp: frame_def map_le_def dom_def)
  show "\<forall>q \<in> tasks s'. ctx_of s' q = b \<longleftrightarrow> q = p"
  proof
    fix q assume q: "q \<in> tasks s'"
    show "ctx_of s' q = b \<longleftrightarrow> q = p"
    proof (cases "q \<in> tasks s")
      case True
      then show ?thesis using f p(2) by (simp add: frame_def)
    next
      case False
      then have "q \<notin> dom (procs s)" "ctxs s (ctx_of s' q) = None" using f q by (simp_all add: frame_def)
      then show ?thesis using p(1) c by auto
    qed
  qed
qed

lemma parked_step:
  assumes k: "parked p b c0 s" and ok: "kcall_ok c s"
  shows "\<exists>x1 s1. machine_call op (c, cpu) (x, s) = Ret () (x1, s1) \<and>
    (if current s1 = p then x1 = Some c0 else parked p b c0 s1)"
proof -
  have m: "machine_inv s" using k by (simp add: parked_def)
  have kd: "p \<noteq> current s" "p \<in> dom (procs s)" "\<forall>q \<in> tasks s. ctx_of s q = b \<longleftrightarrow> q = p"
    "ctxs s b = Some c0" using k by (auto simp: parked_def)
  show ?thesis
    using m ok
  proof (cases rule: machine_call_cases [where op = op and cpu = cpu and x = x])
    case (returns s')
    then show ?thesis
      using frame_ctx_iff [OF returns(3) kd(2-4)] kd(1) by (auto simp: parked_def simp del: machine_call.simps)
  next
    case (switches s1 s' b' cb n cn)
    note f = frame_ctx_iff [OF switches(4) kd(2-4)]
    have "current s \<in> tasks s" using m proc_invD(5) by (auto simp: machine_inv_def)
    then have b': "b' \<noteq> b" using kd(1,3) switches(7) by auto
    show ?thesis
    proof (cases "n = p")
      case True
      then have "ctx_of s n = b" "cn = c0" using kd(3,4) switches(6,9) by auto
      then show ?thesis using switches(1,5) True by (auto simp del: machine_call.simps)
    next
      case False
      then have "parked p b c0 s'"
        using f switches(2,3,5) b' by (simp add: parked_def dom_def)
      then show ?thesis using switches(1,5) False by (auto simp del: machine_call.simps)
    qed
  qed
qed

lemma parked_run:
  assumes "parked p b c0 s" "all_allowed (others_call p) (machine_call op) ks (x, s)"
    and "run_calls (machine_call op) ks (x, s) = Some (x2, s2)" "current s2 = p"
  shows "x2 = Some c0"
  using assms
proof (induction ks arbitrary: x s)
  case Nil
  then show ?case by (simp add: parked_def)
next
  case (Cons k ks)
  obtain c cpu where k: "k = (c, cpu)" by (cases k)
  then have "kcall_ok c s" using Cons.prems(2) by simp
  then obtain x1 s1 where s1: "machine_call op k (x, s) = Ret () (x1, s1)"
    "if current s1 = p then x1 = Some c0 else parked p b c0 s1"
    using parked_step [OF Cons.prems(1)] unfolding k by blast
  have rest: "all_allowed (others_call p) (machine_call op) ks (x1, s1)"
    "run_calls (machine_call op) ks (x1, s1) = Some (x2, s2)"
    using Cons.prems(2,3) s1(1) by simp_all
  show ?case
  proof (cases "current s1 = p")
    case True
    then have "ks = []" using rest(1) by (cases ks) auto
    then show ?thesis using s1(2) rest(2) True by simp
  next
    case False
    then show ?thesis using Cons.IH rest s1(2) Cons.prems(4) by simp
  qed
qed

text \<open>A switch parks the process that leaves, with its registers saved and its old program counter.\<close>

lemma switch_parks:
  assumes m: "machine_inv s" and ok: "kcall_ok c s" and p: "p = current s"
    and s1: "machine_call op (c, cpu) (x, s) = Ret () (x1, s1)" "current s1 \<noteq> p"
  obtains cb where "ctxs s (ctx_of s p) = Some cb"
    "parked p (ctx_of s p) (snd (context_save op (ctx_of s p) cpu cb)) s1"
  using m ok
proof (cases rule: machine_call_cases [where op = op and cpu = cpu and x = x])
  case (returns s')
  then show ?thesis using s1 p by (simp del: machine_call.simps)
next
  case (switches s0 s' b cb n cn)
  have e: "s1 = s'" using switches(1) s1(1) by (simp del: machine_call.simps)
  obtain qs where i: "proc_inv s qs" and o: "own_ctx s" using m by (auto simp: machine_inv_def)
  have t: "p \<in> tasks s" using proc_invD(5) [OF i] p by simp
  obtain pr where pr: "procs s p = Some pr"
    using tasks_valid [OF proc_invD(2) [OF i] t] by (auto simp: valid_proc_def)
  have "\<forall>q \<in> tasks s. ctx_of s q = b \<longleftrightarrow> q = p"
    using o t p switches(7) unfolding own_ctx_def inj_on_def by metis
  then have "parked p b (snd (context_save op b cpu cb)) s1"
    using frame_ctx_iff [OF switches(4) _ _ switches(8), of p] pr switches(2,3) s1(2)
    by (auto simp: e parked_def)
  then show ?thesis using that switches(7,8) p by simp
qed

section \<open>Reaching the new process\<close>

lemma machine_yield:
  assumes i: "proc_inv s (n # ns)" and o: "own_ctx s"
  shows "\<exists>x1 s1. machine_call op (Yield, cpu) (x, s) = Ret () (x1, s1) \<and>
    proc_inv s1 (ns @ [current s]) \<and> own_ctx s1 \<and> current s1 = n"
proof -
  obtain s0 where s0: "schedule s = Xfer (switch_between s (current s) n) s0"
    "proc_inv s0 (ns @ [current s])" "current s0 = n"
    using schedule_inv [OF i] by blast
  have m: "machine_inv s" "kcall_ok Yield s" using i o by (auto simp: machine_inv_def)
  then show ?thesis
  proof (cases rule: machine_call_cases [where op = op and cpu = cpu and x = x])
    case (returns s')
    then show ?thesis using s0(1) by simp
  next
    case (switches s1 s' b cb m cn)
    then have "s1 = s0" using s0(1) by simp
    moreover have "ctxs s1 b \<noteq> None" using switches(4,8) by (auto simp: frame_def map_le_def dom_def)
    then have "dom (ctxs s') = dom (ctxs s1)" using switches(2) by auto
    then have "proc_inv s' (ns @ [current s])" using switches(2) s0(2) \<open>s1 = s0\<close> by simp
    ultimately show ?thesis
      using switches(1,2,3) s0(3) by (auto simp: machine_inv_def simp del: machine_call.simps)
  qed
qed

lemma yields_reach:
  assumes "proc_inv s (as @ p # bs)" "own_ctx s" "length cpus = Suc (length as)"
  shows "\<exists>x2 s2. run_calls (machine_call op) (map (Pair Yield) cpus) (x, s) = Some (x2, s2) \<and>
    machine_inv s2 \<and> current s2 = p \<and>
    all_allowed (others_call p) (machine_call op) (map (Pair Yield) cpus) (x, s)"
  using assms
proof (induction as arbitrary: s bs cpus x)
  case Nil
  then obtain cpu where "cpus = [cpu]" by (cases cpus) auto
  moreover obtain x1 s1 where "machine_call op (Yield, cpu) (x, s) = Ret () (x1, s1)"
    "proc_inv s1 (bs @ [current s])" "own_ctx s1" "current s1 = p"
    using machine_yield [of s p bs op cpu x] Nil by auto
  moreover have "current s \<noteq> p" using proc_invD(6) [OF Nil(1)] by auto
  ultimately show ?case by (auto simp: machine_inv_def simp del: machine_call.simps)
next
  case (Cons a as)
  then obtain cpu cs where x: "cpus = cpu # cs" "length cs = Suc (length as)" by (cases cpus) auto
  obtain x1 s1 where s1: "machine_call op (Yield, cpu) (x, s) = Ret () (x1, s1)"
    "proc_inv s1 (as @ p # bs @ [current s])" "own_ctx s1" "current s1 = a"
    using machine_yield [of s a "as @ p # bs" op cpu x] Cons.prems by auto
  have "current s \<noteq> p" using proc_invD(6) [OF Cons.prems(1)] by auto
  then show ?case
    using Cons.IH [OF s1(2,3) x(2), of x1] s1(1) x(1) by (auto simp del: machine_call.simps)
qed

section \<open>Properties\<close>

lemma initial_machine_inv:
  assumes "heap_placed a"
  shows "machine_inv (initial a)"
proof -
  have "tasks (initial a) = {a}"
    using assms by (simp add: tasks_def initial_def used_slots_def heap_placed_def)
  then show ?thesis
    using assms initial_inv [of a] by (auto simp: machine_inv_def own_ctx_def heap_placed_def)
qed

text \<open>A created process waits in its own context, made for its entry function and argument.\<close>

lemma create_parks:
  assumes i: "proc_inv s qs" and o: "own_ctx s" and e: "entry \<noteq> NULL" and c: "task_count s < 64"
    and h: "unat (heap_used s) + 4584 \<le> 1048576" and b: "b = heap_addr s + heap_used s"
  obtains s1 where "process_create entry arg priority s = Ret (next_pid s) s1" "proc_inv s1 (qs @ [b])"
    "own_ctx s1" "parked b (b + 4264) (context_init entry arg (b + 4264)) s1"
    "view s1 b = Some (unlinked (new_proc priority s))" "b \<notin> tasks s" "task_count s1 \<le> task_count s + 1"
    "heap_addr s1 = heap_addr s" "heap_used s1 = heap_used s + 4584" "next_pid s1 = next_pid s + 1"
proof -
  let ?s = "created entry arg priority s"
  note d = proc_invD [OF i] and n = created_new [OF i h]
  obtain s1 where s1: "process_create entry arg priority s = Ret (next_pid s) s1"
      "proc_inv s1 (qs @ [b])" "relinked (task_insert b ?s) s1"
    using create_room_inv [OF i e c h] unfolding b by blast
  have "call_ends (kcall_run (Create entry arg priority) s) s s1"
    using create_ends [OF i, of entry arg priority] s1(1) by (auto simp: call_ends_def)
  then have o1: "own_ctx s1" using frame_own [OF _ o d(2)] by (auto simp: call_ends_def)
  have co: "core s1 = core (task_insert b ?s)" using s1(3) by (simp add: relinked_def)
  have vw: "view s1 = view ?s" "ctxs s1 = ctxs ?s" "heap_addr s1 = heap_addr s" "next_pid s1 = next_pid s + 1"
    "heap_used s1 = heap_used s + 4584"
    using s1(3) core_eqD [OF co]
    by (auto simp: relinked_def task_insert_def created_def Let_def view_def fun_eq_iff split: option.splits)
  have new: "view s1 b = Some (unlinked (new_proc priority s))" "ctx_of s1 b = b + 4264"
    "ctxs s1 (b + 4264) = Some (context_init entry arg (b + 4264))"
    by (simp_all add: vw ctx_of_def) (simp_all add: view_def created_def new_proc_def Let_def b)
  have t: "b \<in> tasks s1" "b \<noteq> current s1" using proc_invD(6,9) [OF s1(2)] by auto
  have "\<forall>q \<in> tasks s1. ctx_of s1 q = b + 4264 \<longleftrightarrow> q = b"
    using o1 t(1) new(2) unfolding own_ctx_def inj_on_def by metis
  then have k: "parked b (b + 4264) (context_init entry arg (b + 4264)) s1"
    using s1(2) o1 t new view_procs [OF new(1)] by (auto simp: parked_def machine_inv_def)
  have "table_ok ?s" "task_count ?s < 64" "b \<noteq> NULL" using proc_invD(2) [OF n(1)] n(3,4) c b by simp_all
  then obtain i where "first_null (task ?s) = Some i" "i \<le> task_count ?s" by (rule insert_slots)
  then have "task_count s1 \<le> task_count s + 1"
    using core_eqD(8) [OF co] n(3) by (auto simp: task_insert_def)
  then show thesis using that s1(1,2) o1 k new(1) n(5) vw(3-5) unfolding b by blast
qed


text \<open>A run that creates a process and switches to it.\<close>

lemma create_yield:
  "\<exists>s. run_calls (machine_call op) [(Create 0x4000 7 1, cpu), (Yield, cpu)] (None, initial 0x100000) =
      Some (Some (context_init 0x4000 7 0x1021F0), s) \<and> current s = 0x101148"
proof -
  let ?a = "0x100000 :: ptr" and ?b = "heap_addr (initial 0x100000) + heap_used (initial 0x100000)"
  have f: "task_count (initial ?a) < 64" "unat (heap_used (initial ?a)) + 4584 \<le> 1048576" "?b = 0x101148" "(0x4000 :: ptr) \<noteq> NULL"
    by (simp_all add: initial_def boot_state_def)
  have i: "proc_inv (initial ?a) []" using initial_inv [of ?a] placed_demo by (simp add: heap_placed_def)
  have o: "own_ctx (initial ?a)" using initial_machine_inv [OF placed_demo] by (simp add: machine_inv_def)
  obtain s1 where s1: "process_create 0x4000 7 1 (initial ?a) = Ret (next_pid (initial ?a)) s1" "proc_inv s1 ([] @ [?b])"
    "own_ctx s1" "parked ?b (?b + 4264) (context_init 0x4000 7 (?b + 4264)) s1"
    by (rule create_parks [OF i o f(4,1,2) refl])
  obtain x2 s2 where s2: "machine_call op (Yield, cpu) (None, s1) = Ret () (x2, s2)" "current s2 = ?b"
    using machine_yield [of s1 ?b "[]" op cpu None] s1(2,3) by auto
  have "x2 = Some (context_init 0x4000 7 (?b + 4264))"
    using parked_step [OF s1(4), of Yield op cpu None] s2 by auto
  then have "x2 = Some (context_init 0x4000 7 0x1021F0)" "current s2 = 0x101148" using f(3) s2(2) by simp_all
  then show ?thesis using s1(1) s2(1) by (auto simp del: machine_call.simps simp: machine_call.simps [of op "Create _ _ _"])
qed


text \<open>C7. A new process gets its turn with the context it was created for: when \<open>process_create\<close> succeeds and
  the processes before it in the ready queue give up the processor in turn, whatever is in their
  registers, the new process becomes \<open>current\<close> and \<open>context_restore\<close> is handed a context with the
  entry function as program counter, the argument in the first parameter register, the stack pointer at the top of
  the new process's own stack, interrupts enabled and every other general register 0.\<close>

theorem created_process_handed_over:
  assumes i: "proc_inv s qs" and o: "own_ctx s" and e: "entry \<noteq> NULL" and c: "task_count s < 64"
    and h: "unat (heap_used s) + 4584 \<le> unat HEAP_SIZE" and cpus: "length cpus = length qs + 1"
  shows "\<exists>p pr s1 ct s2. process_create entry arg priority s = Ret (next_pid s) s1 \<and>
    p \<notin> tasks s \<and> view s1 p = Some pr \<and> p_pid pr = next_pid s \<and>
    run_calls (machine_call op) (map (Pair Yield) cpus) (x, s1) = Some (Some ct, s2) \<and> current s2 = p \<and>
    c_rip ct = entry \<and> c_gpr ct = (\<lambda>_. 0)(RDI := arg, RSP := p_kernel_stack pr + 4096) \<and>
    c_rflags ct = 0x202 \<and> c_cs ct = 0x08 \<and> c_ds ct = 0x10 \<and> c_ss ct = 0x10"
proof -
  let ?b = "heap_addr s + heap_used s"
  have h': "unat (heap_used s) + 4584 \<le> 1048576" using h by simp
  obtain s1 where s1: "process_create entry arg priority s = Ret (next_pid s) s1" "proc_inv s1 (qs @ [?b])"
    and o1: "own_ctx s1" and k: "parked ?b (?b + 4264) (context_init entry arg (?b + 4264)) s1"
    and new: "view s1 ?b = Some (unlinked (new_proc priority s))" and nt: "?b \<notin> tasks s"
    by (rule create_parks [OF i o e c h' refl])
  obtain x2 s2 where r: "run_calls (machine_call op) (map (Pair Yield) cpus) (x, s1) = Some (x2, s2)"
    "current s2 = ?b" "all_allowed (others_call ?b) (machine_call op) (map (Pair Yield) cpus) (x, s1)"
    using yields_reach [of s1 qs ?b "[]" cpus op x] s1(2) o1 cpus by auto
  have x: "x2 = Some (context_init entry arg (?b + 4264))" by (rule parked_run [OF k r(3,1,2)])
  have "p_kernel_stack (new_proc priority s) + 4096 = ?b + 4264" "p_pid (new_proc priority s) = next_pid s"
    by (simp_all add: new_proc_def Let_def add.commute)
  then show ?thesis
    using s1(1) nt new r(1,2) x
    by (intro exI [of _ ?b] exI) (auto simp: context_init_def zero_context_def Let_def fun_eq_iff)
qed

lemma demo_own: "own_ctx demo"
  unfolding own_ctx_def demo_facts(3) by (simp add: ctx_of_def demo_view demo_proc_def zero_process_def)

theorem created_process_handed_over_witness:
  "\<exists>s1 ct s2. process_create 0x4000 7 1 demo = Ret 4 s1 \<and>
     run_calls (machine_call RAX) [(Yield, cpu0), (Yield, cpu0)] (None, s1) = Some (Some ct, s2) \<and>
     c_rip ct = 0x4000 \<and> c_gpr ct RDI = 7"
proof -
  have "task_count demo < 64" "unat (heap_used demo) + 4584 \<le> unat HEAP_SIZE" "next_pid demo = 4"
    by (simp_all add: demo_def)
  then show ?thesis
    using created_process_handed_over [OF demo_inv demo_own, of "0x4000" "[cpu0, cpu0]" 7 1 RAX None]
    by fastforce
qed

text \<open>C31. What a process loses and keeps when it is switched out: whatever allowed calls the other processes
  make until its next turn, with whatever in their registers, the context handed to \<open>context_restore\<close> then
  has all general registers, the segment registers and the flags as they were when \<open>context_save\<close> began
  (the flags as \<open>pushfq\<close> stores them), with one exception: the
  register that \<open>context_save\<close> uses as operand has the address of the context. The program counter is not that
  of the call but the one the context had before, since \<open>context_save\<close> does not store it.\<close>

theorem switched_out_context:
  assumes m: "machine_inv s" and ok: "kcall_ok c s" and p: "p = current s"
    and s1: "machine_call op (c, cpu) (x, s) = Ret () (x1, s1)" "current s1 \<noteq> p"
    and ks: "all_allowed (others_call p) (machine_call op) ks (x1, s1)"
      "run_calls (machine_call op) ks (x1, s1) = Some (x2, s2)" "current s2 = p"
  shows "\<exists>cp ct. ctxs s (ctx_of s p) = Some cp \<and> x2 = Some ct \<and>
    c_gpr ct = (regs cpu)(op := ctx_of s p) \<and> c_rflags ct = pushfq_flags (rflags cpu) \<and>
    c_cs ct = seg_cs cpu \<and> c_ds ct = seg_ds cpu \<and> c_es ct = seg_es cpu \<and> c_fs ct = seg_fs cpu \<and>
    c_gs ct = seg_gs cpu \<and> c_ss ct = seg_ss cpu \<and> c_rip ct = c_rip cp"
proof -
  let ?b = "ctx_of s p"
  obtain cb where cb: "ctxs s ?b = Some cb" "parked p ?b (snd (context_save op ?b cpu cb)) s1"
    by (rule switch_parks [OF m ok p s1])
  have "x2 = Some (snd (context_save op ?b cpu cb))" by (rule parked_run [OF cb(2) ks])
  then show ?thesis using cb(1) by (simp add: context_save_ctx)
qed

theorem switched_out_context_witness:
  "\<exists>x1 s1 ct s2. machine_call RAX (Yield, cpu0) (None, demo) = Ret () (x1, s1) \<and>
     machine_call RAX (Yield, cpu0) (x1, s1) = Ret () (Some ct, s2) \<and> current s2 = 0x101148 \<and>
     c_gpr ct R12 = regs cpu0 R12 \<and> c_gpr ct RAX = 0x1021F0 \<and> c_rip ct = 0"
proof -
  obtain x1 s1 where s1: "machine_call RAX (Yield, cpu0) (None, demo) = Ret () (x1, s1)"
    "proc_inv s1 [0x101148]" "own_ctx s1" "current s1 = 0x100000"
    using machine_yield [OF demo_inv demo_own, of RAX cpu0 None] demo_facts(1) by auto
  obtain x2 s2 where s2: "machine_call RAX (Yield, cpu0) (x1, s1) = Ret () (x2, s2)"
    "current s2 = 0x101148"
    using machine_yield [OF s1(2,3), of RAX cpu0 x1] by auto
  have a: "all_allowed (others_call 0x101148) (machine_call RAX) [(Yield, cpu0)] (x1, s1)"
    using s1(4) by (auto split: option.split simp del: machine_call.simps)
  have r: "run_calls (machine_call RAX) [(Yield, cpu0)] (x1, s1) = Some (x2, s2)"
    using s2(1) by (simp del: machine_call.simps)
  have m: "machine_inv demo" using demo_inv demo_own by (auto simp: machine_inv_def)
  have b: "ctx_of demo 0x101148 = 0x1021F0" by (simp add: ctx_of_def demo_view demo_proc_def zero_process_def)
  then have z: "ctxs demo (ctx_of demo 0x101148) = Some zero_context" by (simp add: demo_def)
  obtain ct where "x2 = Some ct" "c_gpr ct = (regs cpu0)(RAX := 0x1021F0)" "c_rip ct = 0"
    using switched_out_context [OF m _ _ s1(1) _ a r s2(2)] demo_facts(1) s1(4) b z
    by (auto simp: zero_context_def)
  then show ?thesis using s1(1) s2 by (intro exI [of _ x1] exI [of _ s1] exI [of _ ct] exI [of _ s2]) auto
qed

end
