(* ===== verification/Unit_Tests.thy ===== *)
theory Unit_Tests
  imports Process_MM Process
begin

text \<open>
  The repository's unit tests, \<open>tests/process/test_scheduler_unit.c\<close>,
  \<open>tests/process/test_process_unit.c\<close> and \<open>tests/memory/test_kmalloc_unit.c\<close>, run on the model. A test
  case is a function of the state whose value tells whether all its assertions held; a failed
  assertion returns at once, as the macros of \<open>tests/template/test_framework.h\<close> do. The objects that
  the tests get from the C library's \<open>malloc\<close> are given by their addresses, different and not null.
\<close>

section \<open>The framework\<close>

text \<open>An assertion: the rest of the test, or failure.\<close>

definition ASSERT :: "bool \<Rightarrow> 's \<Rightarrow> (bool, 's) exec \<Rightarrow> (bool, 's) exec" where
  "ASSERT test s k = (if test then k else Ret False s)"

record test_stats =
  tests_run :: nat
  tests_passed :: nat
  tests_failed :: nat

fun RUN_TESTS :: "('s \<Rightarrow> (bool, 's) exec) list \<Rightarrow> test_stats \<Rightarrow> 's \<Rightarrow> (test_stats, 's) exec" where
  "RUN_TESTS [] n s = Ret n s"
| "RUN_TESTS (t # ts) n s =
     and_then (t s) (\<lambda>ok s. RUN_TESTS ts
       (n\<lparr>tests_run := tests_run n + 1,
           tests_passed := (if ok then tests_passed n + 1 else tests_passed n),
           tests_failed := (if ok then tests_failed n else tests_failed n + 1)\<rparr>) s)"

definition no_tests :: test_stats where
  "no_tests = \<lparr>tests_run = 0, tests_passed = 0, tests_failed = 0\<rparr>"

section \<open>The scheduler\<close>

definition sched_proc :: "nat \<Rightarrow> process_t" where
  "sched_proc i = zero_process\<lparr>p_pid := of_nat (i + 1), p_state := PROCESS_READY, p_priority := of_nat (3 - i),
     p_counter := of_nat (i + 1), p_name := ''process_'' @ dec_int (int i + 1)\<rparr>"

definition setup_scheduler :: "ptr \<Rightarrow> ptr \<Rightarrow> ptr \<Rightarrow> kstate \<Rightarrow> kstate" where
  "setup_scheduler a b c s =
     scheduler_init (put_proc c (sched_proc 2) (put_proc b (sched_proc 1) (put_proc a (sched_proc 0) s)))"

definition test_scheduler_queue :: "ptr \<Rightarrow> ptr \<Rightarrow> ptr \<Rightarrow> kstate \<Rightarrow> (bool, kstate) exec" where
  "test_scheduler_queue a b c s =
     and_then (scheduler_add a s) (\<lambda>_ s.
     and_then (scheduler_add b s) (\<lambda>_ s.
     and_then (scheduler_next s) (\<lambda>nx s.
     ASSERT (nx \<noteq> NULL) s (deref s nx (\<lambda>n. deref s a (\<lambda>pa.
     ASSERT (p_pid n = p_pid pa) s (
     and_then (scheduler_add c s) (\<lambda>_ s.
     and_then (scheduler_remove a s) (\<lambda>_ s.
     and_then (scheduler_next s) (\<lambda>nx s.
     ASSERT (nx \<noteq> NULL) s (deref s nx (\<lambda>n. deref s b (\<lambda>pb.
     ASSERT (p_pid n = p_pid pb) s (Ret True s)))))))))))))) "

fun ready_all :: "ptr list \<Rightarrow> kstate \<Rightarrow> (unit, kstate) exec" where
  "ready_all [] s = Ret () s"
| "ready_all (p # ps) s =
     deref s p (\<lambda>_. and_then (scheduler_add p (upd_proc p (p_state_update (\<lambda>_. PROCESS_READY)) s))
       (\<lambda>_ s. ready_all ps s))"

definition test_sjf_scheduling :: "ptr \<Rightarrow> ptr \<Rightarrow> ptr \<Rightarrow> kstate \<Rightarrow> (bool, kstate) exec" where
  "test_sjf_scheduling a b c s =
     and_then (ready_all [a, b, c] s) (\<lambda>_ s.
     let s = process_set_current NULL s
     in and_then (scheduler_next s) (\<lambda>nx s.
        ASSERT (nx \<noteq> NULL) s (deref s nx (\<lambda>n. deref s a (\<lambda>pa.
        ASSERT (p_pid n = p_pid pa) s (Ret True s))))))"

text \<open>The loop \<open>while (current->counter > 0) do_timer();\<close>, with the number of rounds as fuel; a round
  that does not return ends the test.\<close>

fun tick_loop :: "nat \<Rightarrow> ptr \<Rightarrow> kstate \<Rightarrow> (unit, kstate) exec" where
  "tick_loop 0 p s = Spin s"
| "tick_loop (Suc k) p s =
     deref s p (\<lambda>pr. if p_counter pr > 0 then and_then (do_timer s) (\<lambda>_ s. tick_loop k p s) else Ret () s)"

definition test_timer_tick :: "nat \<Rightarrow> ptr \<Rightarrow> kstate \<Rightarrow> (bool, kstate) exec" where
  "test_timer_tick fuel b s =
     (let s = process_set_current b s
      in deref s b (\<lambda>pb.
         let s = upd_proc b (p_state_update (\<lambda>_. PROCESS_RUNNING)) s;
             initial_counter = p_counter pb
         in and_then (do_timer s) (\<lambda>_ s. deref s b (\<lambda>pb.
            ASSERT (p_counter pb = initial_counter - 1) s (
            and_then (tick_loop fuel b s) (\<lambda>_ s. deref s b (\<lambda>pb.
            ASSERT (p_counter pb = 0) s (Ret True s))))))))"

definition scheduler_suite :: "ptr \<Rightarrow> ptr \<Rightarrow> ptr \<Rightarrow> kstate \<Rightarrow> (test_stats, kstate) exec" where
  "scheduler_suite a b c s =
     RUN_TESTS [test_scheduler_queue a b c, test_sjf_scheduling a b c, test_timer_tick 8 b] no_tests
       (setup_scheduler a b c s)"

lemmas test_simps = ASSERT_def exec_simps scheduler_add_def scheduler_next_def scheduler_remove_def
  process_get_current_def process_set_current_def deref_def Let_def upd_proc_def

text \<open>The addresses of the test processes, in the form the simplifier uses.\<close>

lemma test_ptrs:
  assumes "distinct [a, b, c]" "NULL \<notin> {a, b, c}"
  shows "a \<noteq> b" "b \<noteq> a" "a \<noteq> c" "c \<noteq> a" "b \<noteq> c" "c \<noteq> b" "a \<noteq> NULL" "b \<noteq> NULL" "c \<noteq> NULL"
  using assms by auto

lemma sched_proc_sel:
  "p_pid (sched_proc i) = of_nat (i + 1)" "p_state (sched_proc i) = PROCESS_READY"
  "p_counter (sched_proc i) = of_nat (i + 1)" "p_next (sched_proc i) = NULL"
  by (simp_all add: sched_proc_def zero_process_def)

text \<open>Alone each test passes.\<close>

lemma queue_test:
  assumes "distinct [a, b, c]" "NULL \<notin> {a, b, c}"
  shows "\<exists>s'. test_scheduler_queue a b c (setup_scheduler a b c s) = Ret True s' \<and>
    rq_head s' = b \<and> rq_tail s' = c \<and>
    procs s' a = Some ((sched_proc 0)\<lparr>p_next := b\<rparr>) \<and> procs s' b = Some ((sched_proc 1)\<lparr>p_next := c\<rparr>) \<and>
    procs s' c = Some ((sched_proc 2)\<lparr>p_next := NULL\<rparr>)"
  using test_ptrs [OF assms]
  by (simp add: test_scheduler_queue_def test_simps setup_scheduler_def scheduler_init_def put_proc_def sched_proc_sel)

lemma sjf_test_alone:
  assumes "distinct [a, b, c]" "NULL \<notin> {a, b, c}"
  shows "\<exists>s'. test_sjf_scheduling a b c (setup_scheduler a b c s) = Ret True s'"
  using test_ptrs [OF assms]
  by (simp add: test_sjf_scheduling_def test_simps setup_scheduler_def scheduler_init_def put_proc_def sched_proc_sel)

text \<open>After the queue test two of the processes are still queued. Adding them again unlinks the first one:
  the queue starts with the second process.\<close>

lemma sjf_test_after:
  assumes d: "distinct [a, b, c]" "NULL \<notin> {a, b, c}"
    and q: "rq_head s = b" "rq_tail s = c" "procs s a = Some pa" "procs s b = Some pb" "procs s c = Some pc"
    and p: "p_pid pa \<noteq> p_pid pb"
  shows "\<exists>s' pb'. test_sjf_scheduling a b c s = Ret False s' \<and> rq_head s' = b \<and> procs s' b = Some pb' \<and>
    p_counter pb' = p_counter pb"
  using test_ptrs [OF d] q p
  by (simp add: test_sjf_scheduling_def test_simps)

lemma do_timer_head:
  assumes "procs s b = Some pb" "b \<noteq> NULL" "current s = b" "rq_head s = b" "p_counter pb > 0"
  shows "\<exists>s' pb'. do_timer s = Ret () s' \<and> procs s' b = Some pb' \<and> current s' = b \<and> rq_head s' = b \<and>
    p_counter pb' = p_counter pb - 1"
  using assms
  by (auto simp: do_timer_def schedule_def scheduler_next_def process_get_current_def deref_def Let_def)

lemma timer_test:
  assumes "procs s b = Some pb" "b \<noteq> NULL" "rq_head s = b" "p_counter pb = 2"
  shows "\<exists>s'. test_timer_tick 8 b s = Ret True s'"
proof -
  let ?s = "upd_proc b (p_state_update (\<lambda>_. PROCESS_RUNNING)) (process_set_current b s)"
  obtain s1 p1 where s1: "do_timer ?s = Ret () s1" "procs s1 b = Some p1" "current s1 = b" "rq_head s1 = b"
    "p_counter p1 = 1"
    using do_timer_head [of ?s b] assms by (auto simp: process_set_current_def)
  obtain s2 p2 where s2: "do_timer s1 = Ret () s2" "procs s2 b = Some p2" "p_counter p2 = 0"
    using do_timer_head [OF s1(2) assms(2) s1(3,4)] s1(5) by auto
  have "tick_loop 8 b s1 = Ret () s2"
    using s1(2,5) s2 assms(2) by (simp add: eval_nat_numeral deref_def)
  moreover have "procs (process_set_current b s) b = Some pb" using assms(1) by (simp add: process_set_current_def)
  ultimately show ?thesis
    using s1(1,2,5) s2 assms(2,4) by (simp add: test_timer_tick_def deref_def ASSERT_def Let_def)
qed

text \<open>The scheduler's unit tests on the model: of the three tests two pass and one, the one for
  shortest-job-first scheduling, fails, because the suite sets up the processes once and the test adds
  processes that the test before it left in the queue; on a fresh set-up it passes. (It does not call
  the shortest-job-first scheduler at all, but \<open>scheduler_next\<close>.)\<close>

theorem scheduler_tests:
  assumes "distinct [a, b, c]" "NULL \<notin> {a, b, c}"
  shows "(\<exists>s'. scheduler_suite a b c s = Ret \<lparr>tests_run = 3, tests_passed = 2, tests_failed = 1\<rparr> s') \<and>
    (\<exists>s'. test_sjf_scheduling a b c (setup_scheduler a b c s) = Ret True s')"
proof -
  obtain s1 where s1: "test_scheduler_queue a b c (setup_scheduler a b c s) = Ret True s1"
    "rq_head s1 = b" "rq_tail s1 = c" "procs s1 a = Some ((sched_proc 0)\<lparr>p_next := b\<rparr>)"
    "procs s1 b = Some ((sched_proc 1)\<lparr>p_next := c\<rparr>)" "procs s1 c = Some ((sched_proc 2)\<lparr>p_next := NULL\<rparr>)"
    using queue_test [OF assms] by blast
  obtain s2 pb where s2: "test_sjf_scheduling a b c s1 = Ret False s2" "rq_head s2 = b" "procs s2 b = Some pb"
    "p_counter pb = 2"
    using sjf_test_after [OF assms s1(2-6)] by (auto simp: sched_proc_sel)
  obtain s3 where "test_timer_tick 8 b s2 = Ret True s3"
    using timer_test [OF s2(3) _ s2(2,4)] assms(2) by auto
  then show ?thesis
    using s1(1) s2(1) sjf_test_alone [OF assms] by (simp add: scheduler_suite_def no_tests_def)
qed

theorem scheduler_tests_witness:
  "\<exists>s'. scheduler_suite 0x1000 0x2000 0x3000 (boot_state 0x100000) =
     Ret \<lparr>tests_run = 3, tests_passed = 2, tests_failed = 1\<rparr> s'"
  using scheduler_tests [of "0x1000" "0x2000" "0x3000" "boot_state 0x100000"] by auto

section \<open>Process states\<close>

definition setup_process :: "ptr \<Rightarrow> kstate \<Rightarrow> kstate" where
  "setup_process p s = put_proc p (zero_process\<lparr>p_pid := 1, p_state := PROCESS_CREATED, p_priority := 2,
     p_counter := 5, p_name := ''test_process''\<rparr>) s"

fun set_and_check :: "ptr \<Rightarrow> process_state_t list \<Rightarrow> kstate \<Rightarrow> (bool, kstate) exec" where
  "set_and_check p [] s = Ret True s"
| "set_and_check p (x # xs) s =
     and_then (process_set_state p x s) (\<lambda>_ s. deref s p (\<lambda>pr. ASSERT (p_state pr = x) s (set_and_check p xs s)))"

definition test_process_state :: "ptr \<Rightarrow> kstate \<Rightarrow> (bool, kstate) exec" where
  "test_process_state p s =
     ASSERT (map process_state_to_string
         [PROCESS_CREATED, PROCESS_READY, PROCESS_RUNNING, PROCESS_BLOCKED, PROCESS_TERMINATED] =
         [''CREATED'', ''READY'', ''RUNNING'', ''BLOCKED'', ''TERMINATED'']) s
       (set_and_check p [PROCESS_READY, PROCESS_RUNNING, PROCESS_BLOCKED] s)"

fun set_and_alive :: "ptr \<Rightarrow> (process_state_t \<times> bool) list \<Rightarrow> kstate \<Rightarrow> (bool, kstate) exec" where
  "set_and_alive p [] s = Ret True s"
| "set_and_alive p ((x, alive) # xs) s =
     and_then (process_set_state p x s) (\<lambda>_ s. and_then (process_is_alive p s) (\<lambda>r s.
       ASSERT (r = alive) s (set_and_alive p xs s)))"

definition test_process_is_alive :: "ptr \<Rightarrow> kstate \<Rightarrow> (bool, kstate) exec" where
  "test_process_is_alive p s =
     and_then (set_and_alive p [(PROCESS_CREATED, True), (PROCESS_READY, True), (PROCESS_RUNNING, True),
         (PROCESS_BLOCKED, True), (PROCESS_TERMINATED, False)] s)
       (\<lambda>ok s. ASSERT ok s (and_then (process_is_alive NULL s) (\<lambda>r s. ASSERT (\<not> r) s (Ret True s))))"

definition process_suite :: "ptr \<Rightarrow> kstate \<Rightarrow> (test_stats, kstate) exec" where
  "process_suite p s = RUN_TESTS [test_process_state p, test_process_is_alive p] no_tests (setup_process p s)"

theorem process_tests:
  assumes "p \<noteq> NULL"
  shows "\<exists>s'. process_suite p s = Ret \<lparr>tests_run = 2, tests_passed = 2, tests_failed = 0\<rparr> s'"
  using assms
  by (simp add: process_suite_def test_process_state_def test_process_is_alive_def setup_process_def put_proc_def
      no_tests_def ASSERT_def process_set_state_def process_is_alive_def deref_def)

section \<open>The allocator\<close>

text \<open>The tests write to the memory they get; the state is the allocator's and the bytes. The loops over
  \<open>kfree\<close> are folds.\<close>

type_synonym mem_state = "kmem \<times> (ptr \<Rightarrow> u8)"

definition test_kmalloc_basic :: "mem_state \<Rightarrow> (bool, mem_state) exec" where
  "test_kmalloc_basic = (\<lambda>(k, m).
     case kmalloc 10 k of (ptr, k) \<Rightarrow>
     ASSERT (ptr \<noteq> NULL) (k, m) (
     let m = fold (\<lambda>i m. m(ptr + of_nat i := 65)) [0..<10] m
     in ASSERT (\<forall>i \<in> set [0..<10]. m (ptr + of_nat i) = 65) (k, m) (Ret True (kfree ptr k, m))))"

definition test_kmalloc_sizes :: "mem_state \<Rightarrow> (bool, mem_state) exec" where
  "test_kmalloc_sizes = (\<lambda>(k, m).
     case kmalloc 1 k of (ptr1, k) \<Rightarrow> ASSERT (ptr1 \<noteq> NULL) (k, m) (
     case kmalloc 100 k of (ptr2, k) \<Rightarrow> ASSERT (ptr2 \<noteq> NULL) (k, m) (
     case kmalloc 1000 k of (ptr3, k) \<Rightarrow> ASSERT (ptr3 \<noteq> NULL) (k, m) (
     let diff1 = sint (ptr2 - ptr1); diff2 = sint (ptr3 - ptr2)
     in ASSERT (diff1 > 0 \<and> diff2 > 0 \<and> diff1 \<ge> 1 \<and> diff2 \<ge> 100) (k, m)
          (Ret True (kfree ptr3 (kfree ptr2 (kfree ptr1 k)), m))))))"

definition test_kmalloc_alignment :: "mem_state \<Rightarrow> (bool, mem_state) exec" where
  "test_kmalloc_alignment = (\<lambda>(k, m).
     case kmalloc 1 k of (ptr1, k) \<Rightarrow> case kmalloc 3 k of (ptr2, k) \<Rightarrow>
     case kmalloc 7 k of (ptr3, k) \<Rightarrow> case kmalloc 4 k of (ptr4, k) \<Rightarrow>
     ASSERT (\<forall>p \<in> set [ptr1, ptr2, ptr3, ptr4]. p mod 4 = 0) (k, m)
       (Ret True (kfree ptr4 (kfree ptr3 (kfree ptr2 (kfree ptr1 k))), m)))"

definition test_kmalloc_edge_cases :: "mem_state \<Rightarrow> (bool, mem_state) exec" where
  "test_kmalloc_edge_cases = (\<lambda>(k, m).
     case kmalloc 0 k of (ptr1, k) \<Rightarrow> ASSERT (ptr1 \<noteq> NULL) (k, m) (
     case kmalloc (10 * 1024 * 1024) k of (ptr2, k) \<Rightarrow> ASSERT (ptr2 = NULL) (k, m)
       (Ret True (kfree ptr1 k, m))))"

fun alloc_tests :: "nat list \<Rightarrow> ptr list \<Rightarrow> mem_state \<Rightarrow> (ptr list option, mem_state) exec" where
  "alloc_tests [] ps s = Ret (Some ps) s"
| "alloc_tests (i # is) ps (k, m) =
     (case kmalloc (10 + of_nat i) k of (p, k) \<Rightarrow>
      if p = NULL then Ret None (k, m) else alloc_tests is (ps @ [p]) (k, m))"

definition test_kmalloc_multiple :: "mem_state \<Rightarrow> (bool, mem_state) exec" where
  "test_kmalloc_multiple s =
     and_then (alloc_tests [0..<10] [] s) (\<lambda>r s. case r of None \<Rightarrow> Ret False s
       | Some ps \<Rightarrow> ASSERT (distinct ps) s (Ret True (fold kfree ps (fst s), snd s)))"

definition kmalloc_suite :: "mem_state \<Rightarrow> (test_stats, mem_state) exec" where
  "kmalloc_suite = RUN_TESTS [test_kmalloc_basic, test_kmalloc_sizes, test_kmalloc_alignment,
     test_kmalloc_edge_cases, test_kmalloc_multiple] no_tests"

definition kmem_at :: "ptr \<Rightarrow> kmem" where
  "kmem_at a = \<lparr>heap_addr = a, heap_used = 0, free_log = [], mms = Map.empty, vmas = Map.empty\<rparr>"

theorem kmalloc_tests:
  "\<exists>s'. kmalloc_suite (kmem_at 0x100000, m) = Ret \<lparr>tests_run = 5, tests_passed = 5, tests_failed = 0\<rparr> s'"
  by (simp add: kmalloc_suite_def kmem_at_def no_tests_def ASSERT_def test_kmalloc_basic_def test_kmalloc_sizes_def
      test_kmalloc_alignment_def test_kmalloc_edge_cases_def test_kmalloc_multiple_def kmalloc_def HEAP_SIZE_def kfree_def
      upt_rec Let_def)

end
