(* ===== verification/Process_Tests.thy ===== *)
theory Process_Tests
  imports Process_Run Unit_Tests
begin

text \<open>
  The test programs that run the process subsystem as a whole, \<open>tests/process/process_test.c\<close> and
  \<open>tests/process/test_process_integration.c\<close>. They call \<open>schedule\<close> from the code that called
  \<open>process_init\<close>, which is the idle process, and expect to go on after the switch. The addresses of the
  process functions and of their arguments are parameters, and so are the counters the processes leave
  behind, which a test reads at its end. Loops that only pass the time have no effect.
\<close>

section \<open>The test programs\<close>

text \<open>The loop that calls \<open>schedule\<close> a number of times.\<close>

fun schedule_loop :: "nat \<Rightarrow> kstate \<Rightarrow> (unit, kstate) exec" where
  "schedule_loop 0 s = Ret () s"
| "schedule_loop (Suc k) s = and_then (schedule s) (\<lambda>_ s. schedule_loop k s)"

lemma schedule_loop_switch: "schedule s = Xfer t s' \<Longrightarrow> 0 < n \<Longrightarrow> schedule_loop n s = Xfer t s'"
  by (cases n) simp_all

definition test_process_creation :: "ptr \<Rightarrow> ptr \<Rightarrow> ptr \<Rightarrow> ptr \<Rightarrow> kstate \<Rightarrow> (unit, kstate) exec" where
  "test_process_creation test_process name1 name2 name3 s =
     and_then (process_init s) (\<lambda>_ s.
     and_then (process_create test_process name1 1 s) (\<lambda>pid1 s.
     and_then (process_create test_process name2 2 s) (\<lambda>pid2 s.
     and_then (process_create test_process name3 1 s) (\<lambda>pid3 s. schedule_loop 10 s))))"

definition test_process_state_transitions :: "kstate \<Rightarrow> (unit, kstate) exec" where
  "test_process_state_transitions s =
     (let cur = process_get_current s
      in if cur \<noteq> NULL
         then deref s cur (\<lambda>_.
           and_then (process_set_state cur PROCESS_BLOCKED s) (\<lambda>_ s.
           and_then (scheduler_wake cur s) (\<lambda>_ s. deref s cur (\<lambda>_. Ret () s))))
         else Ret () s)"

definition test_priority_scheduling :: "ptr \<Rightarrow> ptr \<Rightarrow> ptr \<Rightarrow> ptr \<Rightarrow> kstate \<Rightarrow> (unit, kstate) exec" where
  "test_priority_scheduling test_process high med low s =
     and_then (process_create test_process high 3 s) (\<lambda>high_prio s.
     and_then (process_create test_process med 2 s) (\<lambda>med_prio s.
     and_then (process_create test_process low 1 s) (\<lambda>low_prio s. schedule_loop 10 s)))"

text \<open>The six argument strings, by number.\<close>

definition run_process_tests :: "ptr \<Rightarrow> (nat \<Rightarrow> ptr) \<Rightarrow> kstate \<Rightarrow> (unit, kstate) exec" where
  "run_process_tests test_process str s =
     and_then (test_process_creation test_process (str 0) (str 1) (str 2) s) (\<lambda>_ s.
     and_then (test_process_state_transitions s) (\<lambda>_ s.
     test_priority_scheduling test_process (str 3) (str 4) (str 5) s))"

fun lifecycle_creates :: "ptr \<Rightarrow> (nat \<Rightarrow> ptr) \<Rightarrow> nat list \<Rightarrow> kstate \<Rightarrow> (bool, kstate) exec" where
  "lifecycle_creates entry args [] s = Ret True s"
| "lifecycle_creates entry args (i # is) s =
     and_then (process_create entry (args i) (of_nat (i + 1)) s) (\<lambda>pid s.
       ASSERT (0 < sint pid) s (lifecycle_creates entry args is s))"

definition test_process_lifecycle ::
  "ptr \<Rightarrow> (nat \<Rightarrow> ptr) \<Rightarrow> (nat \<Rightarrow> s32) \<Rightarrow> kstate \<Rightarrow> (bool, kstate) exec" where
  "test_process_lifecycle entry args run_counts s =
     and_then (process_init s) (\<lambda>_ s.
     and_then (lifecycle_creates entry args [0, 1, 2] s) (\<lambda>ok s.
     ASSERT ok s (and_then (schedule_loop 10 s) (\<lambda>_ s.
       Ret (list_all (\<lambda>i. 0 < sint (run_counts i)) [0, 1, 2]) s))))"

text \<open>\<open>shared_counter\<close> is the value the shared counter has when the test reads it.\<close>

definition test_process_coordination :: "ptr \<Rightarrow> ptr \<Rightarrow> s32 \<Rightarrow> kstate \<Rightarrow> (bool, kstate) exec" where
  "test_process_coordination incrementer reader shared_counter s =
     (case kmalloc 4 s of (counter_at, s) \<Rightarrow>
      if counter_at = NULL then Crash NullDeref
      else
        and_then (process_create incrementer NULL 2 s) (\<lambda>incrementer_pid s.
        and_then (process_create reader NULL 1 s) (\<lambda>reader_pid s.
        ASSERT (0 < sint incrementer_pid) s (
        ASSERT (0 < sint reader_pid) s (
        and_then (schedule_loop 8 s) (\<lambda>_ s.
        ASSERT (0 < sint shared_counter) s (Ret True (kfree counter_at s))))))))"

definition integration_suite ::
  "ptr \<Rightarrow> (nat \<Rightarrow> ptr) \<Rightarrow> (nat \<Rightarrow> s32) \<Rightarrow> ptr \<Rightarrow> ptr \<Rightarrow> s32 \<Rightarrow> kstate \<Rightarrow> (test_stats, kstate) exec" where
  "integration_suite entry args run_counts incrementer reader shared_counter s =
     RUN_TESTS [test_process_lifecycle entry args run_counts,
       test_process_coordination incrementer reader shared_counter] no_tests s"

section \<open>The program that called \<open>process_init\<close>\<close>

text \<open>It runs as the idle process, whose context \<open>process_init\<close> has cleared. \<open>n\<close> more processes fit.\<close>

definition main_runs :: "ptr \<Rightarrow> nat \<Rightarrow> ptr list \<Rightarrow> kstate \<Rightarrow> bool" where
  "main_runs a n qs s \<longleftrightarrow> proc_inv s qs \<and> own_ctx s \<and> current s = a \<and> ctx_of s a = a + 4264 \<and>
     ctxs s (a + 4264) = Some zero_context \<and> task_count s + n \<le> 64 \<and> unat (heap_used s) + 4584 * n \<le> 1048576"

lemma main_starts:
  assumes "heap_placed a"
  shows "process_init (boot_state a) = Ret () (initial a)" "main_runs a 3 [] (initial a)"
proof -
  have a: "a \<noteq> NULL" "unat a + 1048576 < 2 ^ 64" using assms by (simp_all add: heap_placed_def)
  show "process_init (boot_state a) = Ret () (initial a)" by (rule init_run [OF a])
  have "own_ctx (initial a)" using initial_machine_inv [OF assms] by (simp add: machine_inv_def)
  moreover have "ctx_of (initial a) a = a + 4264" "ctxs (initial a) (a + 4264) = Some zero_context"
    "current (initial a) = a" "task_count (initial a) = 1" "heap_used (initial a) = 4424"
    by (simp_all add: initial_def ctx_of_def view_def)
  ultimately show "main_runs a 3 [] (initial a)" using initial_inv [OF a] by (simp add: main_runs_def)
qed

lemma main_creates:
  assumes m: "main_runs a (Suc n) qs s" and e: "entry \<noteq> NULL"
  shows "\<exists>v s1 p b c. process_create entry arg priority s = Ret v s1 \<and> 0 < sint v \<and> main_runs a n (qs @ [p]) s1 \<and>
    parked p b (context_init entry arg c) s1 \<and> (\<forall>p b c. parked p b c s \<longrightarrow> parked p b c s1)"
proof -
  have i: "proc_inv s qs" and o: "own_ctx s" and r: "task_count s < 64" "unat (heap_used s) + 4584 \<le> 1048576"
    and h: "unat (heap_used s) + 4584 * Suc n \<le> 1048576" "task_count s + Suc n \<le> 64" "current s = a"
    "ctx_of s a = a + 4264" "ctxs s (a + 4264) = Some zero_context"
    using m by (auto simp: main_runs_def)
  let ?b = "heap_addr s + heap_used s" and ?call = "Create entry arg priority"
  obtain s1 where s1: "process_create entry arg priority s = Ret (next_pid s) s1" "proc_inv s1 (qs @ [?b])"
    "own_ctx s1" "parked ?b (?b + 4264) (context_init entry arg (?b + 4264)) s1"
    "task_count s1 \<le> task_count s + 1" "heap_used s1 = heap_used s + 4584"
    by (rule create_parks [OF i o e r refl])
  have ce: "call_ends (kcall_run ?call s) s s1"
    using create_ends [OF i, of entry arg priority] s1(1) by (auto simp: call_ends_def)
  then have f: "frame s s1" and cur: "current s1 = current s" using s1(1) by (auto simp: call_ends_def)
  have "ctx_of s1 a = a + 4264" "ctxs s1 (a + 4264) = Some zero_context"
    using f h(3-5) proc_invD(5) [OF i] by (auto simp: frame_def map_le_def dom_def)
  moreover have "unat (heap_used s1) = unat (heap_used s) + 4584"
    using r(2) unfolding s1(6) by (simp add: unat_plus_if_size word_size)
  ultimately have "main_runs a n (qs @ [?b]) s1" using s1(2,3,5) h cur by (simp add: main_runs_def)
  moreover have "parked p b c s1" if k: "parked p b c s" for p b c
    using parked_step [OF k, of ?call RAX cpu0 None] s1(1) cur k by (auto simp: parked_def)
  moreover have "unat (next_pid s) < 6243" "next_pid s \<noteq> 0"
    using next_pid_small(1) proc_invD(1) [OF i] by (auto simp: mem_ok_def)
  then have "0 < sint (next_pid s)" using sint_pos_small [of "next_pid s"] by simp
  ultimately show ?thesis using s1(1,4) by blast
qed

text \<open>The idle process can be chosen again, and whenever it is, whatever calls the others have made, the
  context handed to \<open>context_restore\<close> continues at address 0, not in the program.\<close>

definition never_returns :: "gpr \<Rightarrow> ptr \<Rightarrow> mstate \<Rightarrow> bool" where
  "never_returns op a m \<longleftrightarrow> (\<exists>ks x s. all_allowed (others_call a) (machine_call op) ks m \<and>
     run_calls (machine_call op) ks m = Some (x, s) \<and> current s = a) \<and>
   (\<forall>ks x s. all_allowed (others_call a) (machine_call op) ks m \<longrightarrow>
     run_calls (machine_call op) ks m = Some (x, s) \<longrightarrow> current s = a \<longrightarrow> (\<exists>ct. x = Some ct \<and> c_rip ct = 0))"

lemma main_lost:
  assumes m: "main_runs a n (p # ps) s" and k: "parked p b (context_init entry arg c) s"
  shows "\<exists>t s' s1. schedule s = Xfer t s' \<and> transfer_run op t cpu s' = Ret () (Some (context_init entry arg c), s1) \<and>
    current s1 = p \<and> never_returns op a (Some (context_init entry arg c), s1)"
proof -
  have i: "proc_inv s (p # ps)" "own_ctx s" and h: "current s = a" "ctx_of s a = a + 4264"
    "ctxs s (a + 4264) = Some zero_context" using m by (simp_all add: main_runs_def)
  then have mi: "machine_inv s" by (auto simp: machine_inv_def)
  obtain x1 s1 where s1: "machine_call op (Yield, cpu) (None, s) = Ret () (x1, s1)" "current s1 = p"
    and queued: "proc_inv s1 (ps @ [a])" "own_ctx s1"
    using machine_yield [OF i] h(1) by metis
  have pa: "p \<noteq> a" using proc_invD(6) [OF i(1)] h(1) by auto
  have x: "x1 = Some (context_init entry arg c)"
    using parked_step [OF k, of Yield op cpu None] s1 by auto
  obtain cb where "ctxs s (ctx_of s a) = Some cb" "parked a (ctx_of s a) (snd (context_save op (ctx_of s a) cpu cb)) s1"
    using switch_parks [OF mi _ h(1) [symmetric] s1(1)] s1(2) pa by auto
  then have park: "parked a (a + 4264) (snd (context_save op (a + 4264) cpu zero_context)) s1" using h by simp
  have "\<exists>ct. x2 = Some ct \<and> c_rip ct = 0" if "all_allowed (others_call a) (machine_call op) ks (x1, s1)"
    "run_calls (machine_call op) ks (x1, s1) = Some (x2, s2)" "current s2 = a" for ks x2 s2
    using parked_run [OF park that] by (simp add: context_save_ctx zero_context_def)
  then have "never_returns op a (x1, s1)"
    unfolding never_returns_def using yields_reach [of s1 ps a "[]" "replicate (Suc (length ps)) cpu" op x1] queued
    by (metis append_Nil2 length_replicate append_Cons append_Nil)
  moreover obtain t s' where "schedule s = Xfer t s'" using schedule_inv [OF i(1)] by blast
  ultimately show ?thesis using s1 x by auto
qed

text \<open>C32. The programs that test the process subsystem as a whole give up control at their first \<open>schedule\<close>, with
  nothing to come back to: both create their processes and then switch to the first of them, handing \<open>context_restore\<close> a context
  with the test's process function as program counter and its argument; the idle process (the test program itself) can be chosen
  again, and whenever it is, whatever calls the processes have made, the context handed over has
  program counter 0 instead of the point after the call of \<open>schedule\<close>.
  (The calls respect the obligations of \<open>kcall_ok\<close>.)\<close>

theorem process_tests_lost:
  assumes a: "heap_placed a" and e: "entry \<noteq> NULL"
  shows "(\<exists>t s ct s1. run_process_tests entry str (boot_state a) = Xfer t s \<and>
      transfer_run op t cpu s = Ret () (Some ct, s1) \<and> c_rip ct = entry \<and> c_gpr ct RDI = str 0 \<and>
      never_returns op a (Some ct, s1)) \<and>
    (\<exists>t s ct s1. integration_suite entry args counts inc rd shared (boot_state a) = Xfer t s \<and>
      transfer_run op t cpu s = Ret () (Some ct, s1) \<and> c_rip ct = entry \<and> c_gpr ct RDI = args 0 \<and>
      never_returns op a (Some ct, s1))"
proof -
  note init = main_starts [OF a]
  have ci: "c_rip (context_init entry x c) = entry" "c_gpr (context_init entry x c) RDI = x" for x c
    by (simp_all add: context_init_def Let_def)
  have three: "\<exists>v1 s1 v2 s2 v3 s3 t s ct m. process_create entry x1 p1 (initial a) = Ret v1 s1 \<and> 0 < sint v1 \<and>
      process_create entry x2 p2 s1 = Ret v2 s2 \<and> 0 < sint v2 \<and> process_create entry x3 p3 s2 = Ret v3 s3 \<and> 0 < sint v3 \<and>
      schedule s3 = Xfer t s \<and> transfer_run op t cpu s = Ret () (Some ct, m) \<and> c_rip ct = entry \<and> c_gpr ct RDI = x1 \<and>
      never_returns op a (Some ct, m)" for x1 x2 x3 p1 p2 p3
  proof -
    obtain v1 s1 p b c where s1: "process_create entry x1 p1 (initial a) = Ret v1 s1" "0 < sint v1"
      "main_runs a 2 [p] s1" "parked p b (context_init entry x1 c) s1"
      using main_creates [of a 2 "[]" "initial a" entry x1 p1] init(2) e by (auto simp: numeral_eq_Suc)
    obtain v2 s2 q where s2: "process_create entry x2 p2 s1 = Ret v2 s2" "0 < sint v2" "main_runs a 1 [p, q] s2"
      "parked p b (context_init entry x1 c) s2"
      using main_creates [of a 1 "[p]" s1 entry x2 p2] s1(3,4) e by (auto simp: numeral_eq_Suc)
    obtain v3 s3 r where s3: "process_create entry x3 p3 s2 = Ret v3 s3" "0 < sint v3" "main_runs a 0 [p, q, r] s3"
      "parked p b (context_init entry x1 c) s3"
      using main_creates [of a 0 "[p, q]" s2 entry x3 p3] s2(3,4) e by (auto simp: numeral_eq_Suc)
    show ?thesis using main_lost [OF s3(3,4), of op cpu] s1(1,2) s2(1,2) s3(1,2) ci [of x1 c] by blast
  qed
  show ?thesis
    using three [of "str 0" 1 "str 1" 2 "str 2" 1] three [of "args 0" 1 "args 1" 2 "args 2" 3] init(1)
    by (intro conjI) (fastforce simp: run_process_tests_def test_process_creation_def schedule_loop_switch,
      fastforce simp: integration_suite_def test_process_lifecycle_def ASSERT_def schedule_loop_switch)
qed

theorem process_tests_lost_witness:
  "\<exists>t s ct s1. run_process_tests 0x2000 (\<lambda>i. 0x3000 + of_nat i) (boot_state 0x100000) = Xfer t s \<and>
     transfer_run RAX t cpu0 s = Ret () (Some ct, s1) \<and> c_rip ct = 0x2000 \<and> c_gpr ct RDI = 0x3000 \<and>
     never_returns RAX 0x100000 (Some ct, s1)"
  using process_tests_lost [OF placed_demo, of "0x2000" "\<lambda>i. 0x3000 + of_nat i" RAX cpu0]
  by simp

end
