(* ===== verification/Cache.thy ===== *)
theory Cache
  imports Kmem
begin

text \<open>
  The block cache of the file system, \<open>kernel/fs/cache.c\<close>: 256 slots, looked up by block number,
  reference counted, evicted least recently used first. \<open>kmalloc\<close> and \<open>kfree\<close> are parameters of
  the definitions (the repository has several); their contract is the locale below.
  \<open>block_count\<close> is a \<open>uint32_t\<close> that never exceeds 256 and is kept as a natural number.
  Reading a block from disk and writing it back are comments in the source.
\<close>

section \<open>Data\<close>

record cache_block =
  c_block_id :: u64
  c_data :: ptr
  c_size :: u32
  c_status :: u8
  c_reference_count :: u32
  c_last_access :: u64
  c_next :: ptr
  c_prev :: ptr

record 'm cache =
  blocks :: "ptr list"
  block_count :: nat
  hit_count :: u64
  miss_count :: u64
  access_time :: u64
  cblk :: "ptr \<Rightarrow> cache_block option"
  heap :: 'm

definition MAX_CACHE_BLOCKS :: nat where
  "MAX_CACHE_BLOCKS = 256"

definition CACHE_CLEAN :: u8 where
  "CACHE_CLEAN = 0"

definition CACHE_DIRTY :: u8 where
  "CACHE_DIRTY = 1"

definition sizeof_cache_block :: u64 where
  "sizeof_cache_block = 56"

definition with_blk :: "'m cache \<Rightarrow> ptr \<Rightarrow> (cache_block \<Rightarrow> ('a, 'm cache) exec) \<Rightarrow> ('a, 'm cache) exec" where
  "with_blk s p k = (case cblk s p of None \<Rightarrow> Crash BadPtr | Some b \<Rightarrow> k b)"

definition upd_blk :: "ptr \<Rightarrow> (cache_block \<Rightarrow> cache_block) \<Rightarrow> 'm cache \<Rightarrow> 'm cache" where
  "upd_blk p f s = s\<lparr>cblk := (cblk s)(p := map_option f (cblk s p))\<rparr>"

section \<open>Operations\<close>

definition cache_init :: "'m cache \<Rightarrow> 'm cache" where
  "cache_init s = s\<lparr>block_count := 0, hit_count := 0, miss_count := 0, access_time := 0,
     blocks := replicate MAX_CACHE_BLOCKS NULL\<rparr>"

fun find_loop :: "ptr list \<Rightarrow> u64 \<Rightarrow> 'm cache \<Rightarrow> (ptr, 'm cache) exec" where
  "find_loop [] block_id s = Ret NULL s"
| "find_loop (p # ps) block_id s =
     (if p = NULL then find_loop ps block_id s
      else with_blk s p (\<lambda>b. if c_block_id b = block_id then Ret p s else find_loop ps block_id s))"

definition find_cache_block :: "u64 \<Rightarrow> 'm cache \<Rightarrow> (ptr, 'm cache) exec" where
  "find_cache_block block_id s = find_loop (take (block_count s) (blocks s)) block_id s"

text \<open>The search for the block to evict; \<open>None\<close> is the index -1.\<close>

fun lru_loop :: "nat \<Rightarrow> ptr list \<Rightarrow> u64 \<Rightarrow> nat option \<Rightarrow> 'm cache \<Rightarrow> (nat option, 'm cache) exec" where
  "lru_loop i [] oldest_time oldest_index s = Ret oldest_index s"
| "lru_loop i (p # ps) oldest_time oldest_index s =
     (if p = NULL then lru_loop (Suc i) ps oldest_time oldest_index s
      else with_blk s p (\<lambda>b.
        if c_reference_count b = 0 \<and> c_last_access b < oldest_time
        then lru_loop (Suc i) ps (c_last_access b) (Some i) s
        else lru_loop (Suc i) ps oldest_time oldest_index s))"

definition insert_block :: "ptr \<Rightarrow> 'm cache \<Rightarrow> 'm cache" where
  "insert_block p s =
     (case first_null (blocks s) of
        None \<Rightarrow> s
      | Some i \<Rightarrow> s\<lparr>blocks := (blocks s)[i := p],
                   block_count := (if i \<ge> block_count s then i + 1 else block_count s)\<rparr>)"

definition evict_block :: "(ptr \<Rightarrow> 'm \<Rightarrow> 'm) \<Rightarrow> 'm cache \<Rightarrow> (bool, 'm cache) exec" where
  "evict_block free s =
     and_then (lru_loop 0 (take (block_count s) (blocks s)) 0xFFFFFFFFFFFFFFFF None s)
       (\<lambda>oldest_index s.
         case oldest_index of
           None \<Rightarrow> Ret False s
         | Some i \<Rightarrow>
             let p = blocks s ! i
             in with_blk s p (\<lambda>b.
                  Ret True (s\<lparr>heap := free p (free (c_data b) (heap s)), blocks := (blocks s)[i := NULL]\<rparr>)))"

text \<open>The part of \<open>allocate_cache_block\<close> after a slot is known to be free. The pointer \<open>kmalloc\<close> returns is
  taken as it is. The file has no declaration of \<open>kmalloc\<close> in scope, so a compiler that accepts it takes
  the result for an \<open>int\<close>; the two agree for memory below \<open>2^31\<close>.\<close>

definition new_cache_block ::
  "(u64 \<Rightarrow> 'm \<Rightarrow> ptr \<times> 'm) \<Rightarrow> (ptr \<Rightarrow> 'm \<Rightarrow> 'm) \<Rightarrow> u64 \<Rightarrow> u32 \<Rightarrow> 'm cache \<Rightarrow> (ptr, 'm cache) exec" where
  "new_cache_block alloc free block_id sz s =
     (case alloc sizeof_cache_block (heap s) of (block, m) \<Rightarrow>
        let s = s\<lparr>heap := m\<rparr>
        in if block = NULL then Ret NULL s
           else case alloc (ucast sz) (heap s) of (data, m) \<Rightarrow>
             let s = s\<lparr>heap := m\<rparr>
             in if data = NULL then Ret NULL (s\<lparr>heap := free block (heap s)\<rparr>)
                else
                  let s = s\<lparr>access_time := access_time s + 1\<rparr>;
                      b = \<lparr>c_block_id = block_id, c_data = data, c_size = sz, c_status = CACHE_CLEAN,
                           c_reference_count = 1, c_last_access = access_time s, c_next = NULL, c_prev = NULL\<rparr>;
                      s = s\<lparr>cblk := (cblk s)(block \<mapsto> b)\<rparr>
                  in Ret block (insert_block block s))"

definition allocate_cache_block ::
  "(u64 \<Rightarrow> 'm \<Rightarrow> ptr \<times> 'm) \<Rightarrow> (ptr \<Rightarrow> 'm \<Rightarrow> 'm) \<Rightarrow> u64 \<Rightarrow> u32 \<Rightarrow> 'm cache \<Rightarrow> (ptr, 'm cache) exec" where
  "allocate_cache_block alloc free block_id sz s =
     and_then (if block_count s \<ge> MAX_CACHE_BLOCKS then evict_block free s else Ret True s)
       (\<lambda>ok s. if \<not> ok then Ret NULL s else new_cache_block alloc free block_id sz s)"

definition cache_get_block ::
  "(u64 \<Rightarrow> 'm \<Rightarrow> ptr \<times> 'm) \<Rightarrow> (ptr \<Rightarrow> 'm \<Rightarrow> 'm) \<Rightarrow> u64 \<Rightarrow> u32 \<Rightarrow> 'm cache \<Rightarrow> (ptr, 'm cache) exec" where
  "cache_get_block alloc free block_id sz s =
     and_then (find_cache_block block_id s) (\<lambda>block s.
       if block \<noteq> NULL then
         let s = s\<lparr>hit_count := hit_count s + 1\<rparr>;
             s = s\<lparr>access_time := access_time s + 1\<rparr>;
             s = upd_blk block (\<lambda>b. b\<lparr>c_last_access := access_time s,
                                      c_reference_count := c_reference_count b + 1\<rparr>) s
         in Ret block s
       else
         let s = s\<lparr>miss_count := miss_count s + 1\<rparr>
         in and_then (allocate_cache_block alloc free block_id sz s) (\<lambda>block s. Ret block s))"

definition cache_release_block :: "ptr \<Rightarrow> 'm cache \<Rightarrow> (unit, 'm cache) exec" where
  "cache_release_block block s =
     (if block = NULL then Ret () s
      else with_blk s block (\<lambda>b.
        Ret () (if c_reference_count b > 0
                then upd_blk block (\<lambda>b. b\<lparr>c_reference_count := c_reference_count b - 1\<rparr>) s else s)))"

definition cache_mark_dirty :: "ptr \<Rightarrow> 'm cache \<Rightarrow> (unit, 'm cache) exec" where
  "cache_mark_dirty block s =
     (if block \<noteq> NULL
      then with_blk s block (\<lambda>_. Ret () (upd_blk block (c_status_update (\<lambda>_. CACHE_DIRTY)) s))
      else Ret () s)"

definition cache_sync_block :: "ptr \<Rightarrow> 'm cache \<Rightarrow> (s32, 'm cache) exec" where
  "cache_sync_block block s =
     (if block = NULL then Ret 0 s
      else with_blk s block (\<lambda>b.
        if c_status b \<noteq> CACHE_DIRTY then Ret 0 s
        else Ret 0 (upd_blk block (c_status_update (\<lambda>_. CACHE_CLEAN)) s)))"

fun sync_loop :: "ptr list \<Rightarrow> 'm cache \<Rightarrow> (s32, 'm cache) exec" where
  "sync_loop [] s = Ret 0 s"
| "sync_loop (p # ps) s =
     (if p = NULL then sync_loop ps s
      else with_blk s p (\<lambda>b.
        if c_status b = CACHE_DIRTY
        then and_then (cache_sync_block p s) (\<lambda>r s. if r \<noteq> 0 then Ret r s else sync_loop ps s)
        else sync_loop ps s))"

definition cache_sync_all :: "'m cache \<Rightarrow> (s32, 'm cache) exec" where
  "cache_sync_all s = sync_loop (take (block_count s) (blocks s)) s"

end
