(* ===== verification/Cache_Inv.thy ===== *)
theory Cache_Inv
  imports Cache Safe_Calls
begin

text \<open>
  The invariant of the block cache and its preservation. The contract of the allocator the cache
  calls is the locale \<open>permanent_allocator\<close>: \<open>kfree\<close> gives nothing back, as in
  \<open>kernel/process/memory.c\<close>.
\<close>

section \<open>Views of the cache\<close>

definition cached :: "'m cache \<Rightarrow> ptr set" where
  "cached s = set (used_slots (blocks s))"

definition cb :: "'m cache \<Rightarrow> ptr \<Rightarrow> cache_block" where
  "cb s p = the (cblk s p)"

definition holds_block :: "u64 \<Rightarrow> 'm cache \<Rightarrow> ptr \<Rightarrow> bool" where
  "holds_block block_id s p \<longleftrightarrow> p \<in> cached s \<and> c_block_id (cb s p) = block_id"

text \<open>The memory of a cached block: its header and its data.\<close>

definition footprint :: "'m cache \<Rightarrow> ptr \<Rightarrow> nat set" where
  "footprint s p = region p sizeof_cache_block \<union> region (c_data (cb s p)) (ucast (c_size (cb s p)))"

text \<open>The header does not overlap the data.\<close>

definition two_parts :: "'m cache \<Rightarrow> ptr \<Rightarrow> bool" where
  "two_parts s p \<longleftrightarrow> region p sizeof_cache_block \<inter> region (c_data (cb s p)) (ucast (c_size (cb s p))) = {}"

definition evictable :: "'m cache \<Rightarrow> ptr \<Rightarrow> bool" where
  "evictable s p \<longleftrightarrow> p \<in> cached s \<and> c_reference_count (cb s p) = 0 \<and>
     c_last_access (cb s p) < 0xFFFFFFFFFFFFFFFF"

definition cache_table :: "'m cache \<Rightarrow> bool" where
  "cache_table s \<longleftrightarrow>
     length (blocks s) = MAX_CACHE_BLOCKS \<and> block_count s \<le> MAX_CACHE_BLOCKS \<and>
     (\<forall>p \<in> set (drop (block_count s) (blocks s)). p = NULL) \<and>
     distinct (used_slots (blocks s)) \<and> (\<forall>p \<in> cached s. cblk s p \<noteq> None) \<and>
     inj_on (\<lambda>p. c_block_id (cb s p)) (cached s)"

definition cache_memory :: "('m \<Rightarrow> nat set) \<Rightarrow> 'm cache \<Rightarrow> bool" where
  "cache_memory owned s \<longleftrightarrow>
     (\<forall>p \<in> cached s. footprint s p \<subseteq> owned (heap s) \<and> two_parts s p) \<and>
     (\<forall>p \<in> cached s. \<forall>q \<in> cached s. p \<noteq> q \<longrightarrow> footprint s p \<inter> footprint s q = {})"

definition cache_ok :: "('m \<Rightarrow> bool) \<Rightarrow> ('m \<Rightarrow> nat set) \<Rightarrow> 'm cache \<Rightarrow> bool" where
  "cache_ok ainv owned s \<longleftrightarrow> ainv (heap s) \<and> cache_table s \<and> cache_memory owned s"

section \<open>The table\<close>

lemma used_slots_drop:
  assumes "cache_table s"
  shows "used_slots (take (block_count s) (blocks s)) = used_slots (blocks s)"
proof -
  have "filter (\<lambda>p. p \<noteq> NULL) (drop (block_count s) (blocks s)) = []"
    using assms by (simp add: cache_table_def filter_empty_conv)
  then have "filter (\<lambda>p. p \<noteq> NULL) (take (block_count s) (blocks s) @ drop (block_count s) (blocks s))
      = filter (\<lambda>p. p \<noteq> NULL) (take (block_count s) (blocks s))"
    by (simp only: filter_append append_Nil2)
  then show ?thesis by (simp add: used_slots_def)
qed

lemma cached_nonnull: "p \<in> cached s \<Longrightarrow> p \<noteq> NULL"
  by (simp add: cached_def used_slots_def)

lemma cached_cblk: "cache_table s \<Longrightarrow> p \<in> cached s \<Longrightarrow> cblk s p = Some (cb s p)"
  by (auto simp: cache_table_def cb_def)

lemma with_blk_cached [exec_simps]: "cache_table s \<Longrightarrow> p \<in> cached s \<Longrightarrow> with_blk s p k = k (cb s p)"
  using cached_cblk [of s p] by (simp add: with_blk_def)

lemma with_blk_Some: "cblk s p = Some b \<Longrightarrow> with_blk s p k = k b"
  by (simp add: with_blk_def)

lemma used_slots_clear_nth:
  assumes "i < length ps" "ps ! i \<noteq> NULL" "distinct (used_slots ps)"
  shows "used_slots (ps[i := NULL]) = remove1 (ps ! i) (used_slots ps)"
proof -
  have ps: "ps = take i ps @ ps ! i # drop (Suc i) ps" using assms(1) by (rule id_take_nth_drop)
  have "used_slots ps = used_slots (take i ps @ ps ! i # drop (Suc i) ps)" using ps by simp
  then have u: "used_slots ps = used_slots (take i ps) @ ps ! i # used_slots (drop (Suc i) ps)"
    using assms(2) by (simp add: used_slots_def)
  then have "ps ! i \<notin> set (used_slots (take i ps))" using assms(3) by simp
  moreover have "used_slots (ps[i := NULL]) = used_slots (take i ps) @ used_slots (drop (Suc i) ps)"
    by (simp add: upd_conv_take_nth_drop [OF assms(1)] used_slots_def)
  ultimately show ?thesis using u by (simp add: remove1_append)
qed

section \<open>The two searches\<close>

lemma find_loop_run:
  assumes "\<forall>p \<in> set (used_slots ps). cblk s p \<noteq> None"
  shows "find_loop ps block_id s =
    Ret (case find (\<lambda>p. c_block_id (cb s p) = block_id) (used_slots ps) of None \<Rightarrow> NULL | Some p \<Rightarrow> p) s"
  using assms by (induction ps) (auto simp: used_slots_def with_blk_def cb_def)

lemma find_block_run:
  assumes "cache_table s"
  shows "find_cache_block block_id s =
    Ret (case find (\<lambda>p. c_block_id (cb s p) = block_id) (used_slots (blocks s)) of None \<Rightarrow> NULL | Some p \<Rightarrow> p) s"
  unfolding find_cache_block_def used_slots_drop [OF assms, symmetric]
  by (rule find_loop_run) (use assms in \<open>simp add: used_slots_drop cache_table_def cached_def\<close>)

lemma find_hit:
  assumes "cache_table s" "holds_block block_id s p"
  shows "find_cache_block block_id s = Ret p s"
proof -
  obtain q where q: "find (\<lambda>q. c_block_id (cb s q) = block_id) (used_slots (blocks s)) = Some q"
    using assms(2) by (fastforce simp: holds_block_def cached_def find_None_iff simp flip: not_None_eq)
  then have "q \<in> cached s" "c_block_id (cb s q) = block_id"
    by (auto simp: find_Some_iff cached_def)
  then have "q = p"
    using assms by (auto simp: holds_block_def cache_table_def inj_on_def)
  then show ?thesis using q assms(1) by (simp add: find_block_run)
qed

lemma find_miss:
  assumes "cache_table s" "\<nexists>p. holds_block block_id s p"
  shows "find_cache_block block_id s = Ret NULL s"
proof -
  have "find (\<lambda>q. c_block_id (cb s q) = block_id) (used_slots (blocks s)) = None"
    using assms(2) by (auto simp: holds_block_def cached_def find_None_iff)
  then show ?thesis using assms(1) by (simp add: find_block_run)
qed

text \<open>What the search for a victim returns: its start value if nothing in the list is older, else
  the index of an unreferenced block that no unreferenced block of the list is older than.\<close>

definition oldest :: "'m cache \<Rightarrow> ptr list \<Rightarrow> ptr \<Rightarrow> bool" where
  "oldest s ps p \<longleftrightarrow> p \<noteq> NULL \<and> c_reference_count (cb s p) = 0 \<and>
     (\<forall>q \<in> set (used_slots ps). c_reference_count (cb s q) = 0 \<longrightarrow> c_last_access (cb s p) \<le> c_last_access (cb s q))"

definition none_older :: "'m cache \<Rightarrow> ptr list \<Rightarrow> u64 \<Rightarrow> bool" where
  "none_older s ps t \<longleftrightarrow>
     (\<forall>q \<in> set (used_slots ps). c_reference_count (cb s q) = 0 \<longrightarrow> t \<le> c_last_access (cb s q))"

definition lru_result :: "nat \<Rightarrow> ptr list \<Rightarrow> u64 \<Rightarrow> nat option \<Rightarrow> 'm cache \<Rightarrow> nat option \<Rightarrow> bool" where
  "lru_result i ps t o0 s r \<longleftrightarrow>
     (r = o0 \<and> none_older s ps t \<or>
      (\<exists>j < length ps. r = Some (i + j) \<and> oldest s ps (ps ! j) \<and> c_last_access (cb s (ps ! j)) < t))"

lemma lru_resultE:
  assumes "lru_result i ps t o0 s r"
  obtains "r = o0" "none_older s ps t"
  | j where "j < length ps" "r = Some (i + j)" "oldest s ps (ps ! j)" "c_last_access (cb s (ps ! j)) < t"
  using assms by (auto simp: lru_result_def)

lemma lru_result_at:
  "j < length ps \<Longrightarrow> oldest s ps (ps ! j) \<Longrightarrow> c_last_access (cb s (ps ! j)) < t \<Longrightarrow>
    lru_result i ps t o0 s (Some (i + j))"
  by (auto simp: lru_result_def)

lemma oldest_Cons:
  assumes "oldest s ps x" "p \<noteq> NULL \<Longrightarrow> c_reference_count (cb s p) = 0 \<Longrightarrow> c_last_access (cb s x) \<le> c_last_access (cb s p)"
  shows "oldest s (p # ps) x"
  using assms by (auto simp: oldest_def used_slots_def)

lemma lru_result_skip:
  assumes "lru_result (Suc i) ps t o0 s r"
    and "p \<noteq> NULL \<Longrightarrow> c_reference_count (cb s p) = 0 \<Longrightarrow> t \<le> c_last_access (cb s p)"
  shows "lru_result i (p # ps) t o0 s r"
  using assms(1)
proof (cases rule: lru_resultE)
  case 1
  then show ?thesis using assms(2) by (auto simp: lru_result_def none_older_def used_slots_def)
next
  case (2 j)
  have "oldest s (p # ps) (ps ! j)"
    using oldest_Cons [OF 2(3)] assms(2) 2(4) by (meson order.strict_implies_order order_trans)
  then show ?thesis using 2 lru_result_at [of "Suc j" "p # ps" s t i o0] by simp
qed

lemma lru_result_take:
  assumes "lru_result (Suc i) ps (c_last_access (cb s p)) (Some i) s r"
    and "p \<noteq> NULL" "c_reference_count (cb s p) = 0" "c_last_access (cb s p) < t"
  shows "lru_result i (p # ps) t o0 s r"
  using assms(1)
proof (cases rule: lru_resultE)
  case 1
  then show ?thesis
    using assms(2-4) lru_result_at [of "0" "p # ps" s t i o0]
    by (auto simp: oldest_def none_older_def used_slots_def)
next
  case (2 j)
  have "oldest s (p # ps) (ps ! j)"
    using oldest_Cons [OF 2(3)] 2(4) by (simp add: order.strict_implies_order)
  then show ?thesis
    using 2 assms(4) lru_result_at [of "Suc j" "p # ps" s t i o0] by (simp add: order.strict_trans)
qed

lemma lru_loop_run:
  assumes "\<forall>p \<in> set (used_slots ps). cblk s p \<noteq> None"
  shows "\<exists>r. lru_loop i ps t o0 s = Ret r s \<and> lru_result i ps t o0 s r"
  using assms
proof (induction ps arbitrary: i t o0)
  case Nil
  then show ?case by (simp add: lru_result_def none_older_def used_slots_def)
next
  case (Cons p ps)
  have ps: "\<forall>p \<in> set (used_slots ps). cblk s p \<noteq> None"
    using Cons.prems by (auto simp: used_slots_def)
  let ?take = "p \<noteq> NULL \<and> c_reference_count (cb s p) = 0 \<and> c_last_access (cb s p) < t"
  show ?case
  proof (cases ?take)
    case True
    then have "cblk s p = Some (cb s p)" using Cons.prems by (auto simp: used_slots_def cb_def)
    then show ?thesis
      using True Cons.IH [OF ps, of "Suc i" "c_last_access (cb s p)" "Some i"] lru_result_take
      by (fastforce simp: with_blk_def)
  next
    case False
    then have "lru_loop i (p # ps) t o0 s = lru_loop (Suc i) ps t o0 s"
      using Cons.prems by (auto simp: used_slots_def with_blk_def cb_def)
    then show ?thesis
      using False Cons.IH [OF ps, of "Suc i" t o0] lru_result_skip [of i ps t o0 s _ p] by fastforce
  qed
qed

section \<open>Eviction\<close>

definition evicted :: "(ptr \<Rightarrow> 'm \<Rightarrow> 'm) \<Rightarrow> nat \<Rightarrow> 'm cache \<Rightarrow> 'm cache" where
  "evicted free i s = s\<lparr>heap := free (blocks s ! i) (free (c_data (cb s (blocks s ! i))) (heap s)),
     blocks := (blocks s)[i := NULL]\<rparr>"

definition victim :: "'m cache \<Rightarrow> ptr \<Rightarrow> bool" where
  "victim s p \<longleftrightarrow> evictable s p \<and> (\<forall>q. evictable s q \<longrightarrow> c_last_access (cb s p) \<le> c_last_access (cb s q))"

lemma evict_cases:
  assumes "cache_table s"
  obtains (none) "evict_block free s = Ret False s" "\<nexists>p. evictable s p"
  | (victim) i where "i < block_count s" "victim s (blocks s ! i)"
      "evict_block free s = Ret True (evicted free i s)"
proof -
  let ?ps = "take (block_count s) (blocks s)"
  have u: "used_slots ?ps = used_slots (blocks s)" using assms by (rule used_slots_drop)
  then have "\<forall>p \<in> set (used_slots ?ps). cblk s p \<noteq> None"
    using assms by (simp add: cache_table_def cached_def)
  from lru_loop_run [OF this, of "0" "0xFFFFFFFFFFFFFFFF" None]
  obtain r where run: "lru_loop 0 ?ps 0xFFFFFFFFFFFFFFFF None s = Ret r s"
    and res: "lru_result 0 ?ps 0xFFFFFFFFFFFFFFFF None s r" by blast
  from res show thesis
  proof (cases rule: lru_resultE)
    case 1
    have "\<nexists>p. evictable s p"
      using 1(2) by (auto simp: evictable_def none_older_def u cached_def simp flip: not_less)
    then show thesis using none run 1(1) by (simp add: evict_block_def)
  next
    case (2 j)
    have len: "j < block_count s" "j < length (blocks s)" "?ps ! j = blocks s ! j" using 2(1) by auto
    then have p: "blocks s ! j \<in> cached s" "blocks s ! j \<noteq> NULL"
      using 2(3) by (auto simp: cached_def used_slots_def oldest_def)
    have "victim s (blocks s ! j)"
      using 2(3,4) p(1) len(3) by (auto simp: victim_def evictable_def oldest_def u cached_def)
    moreover have "evict_block free s = Ret True (evicted free j s)"
      using run 2(2) with_blk_cached [OF assms p(1)] by (simp add: evict_block_def evicted_def Let_def)
    ultimately show thesis using victim len(1) by blast
  qed
qed

lemma evicted_table:
  assumes "cache_table s" "i < block_count s" "blocks s ! i \<noteq> NULL"
  shows "cache_table (evicted free i s)" "cached (evicted free i s) = cached s - {blocks s ! i}"
    "NULL \<in> set (blocks (evicted free i s))"
proof -
  have i: "i < length (blocks s)" using assms by (simp add: cache_table_def)
  have u: "used_slots (blocks (evicted free i s)) = remove1 (blocks s ! i) (used_slots (blocks s))"
    using used_slots_clear_nth [OF i assms(3)] assms(1) by (simp add: evicted_def cache_table_def)
  show c: "cached (evicted free i s) = cached s - {blocks s ! i}"
    using u assms(1) by (simp add: cached_def cache_table_def)
  show "NULL \<in> set (blocks (evicted free i s))"
    using i by (simp add: evicted_def set_update_memI)
  have cb: "cb (evicted free i s) = cb s" by (simp add: fun_eq_iff cb_def evicted_def)
  have d: "drop (block_count s) ((blocks s)[i := NULL]) = drop (block_count s) (blocks s)"
    using assms(2) by (rule drop_update_cancel)
  have inj: "inj_on (\<lambda>p. c_block_id (cb s p)) (cached s - {blocks s ! i})"
    using assms(1) by (auto simp: cache_table_def intro: inj_on_subset)
  show "cache_table (evicted free i s)"
    using assms(1) u inj unfolding cache_table_def c cb by (simp add: evicted_def d)
qed

section \<open>Blocks that keep their identity\<close>

definition same_block :: "cache_block \<Rightarrow> cache_block \<Rightarrow> bool" where
  "same_block b c \<longleftrightarrow> c_block_id b = c_block_id c \<and> c_data b = c_data c \<and> c_size b = c_size c"

lemma cache_ok_cong:
  assumes "cache_ok ainv owned s" "heap s' = heap s" "blocks s' = blocks s" "block_count s' = block_count s"
    and b: "\<And>p. p \<in> cached s \<Longrightarrow> cblk s' p \<noteq> None \<and> same_block (cb s' p) (cb s p)"
  shows "cache_ok ainv owned s'"
proof -
  have c: "cached s' = cached s" using assms by (simp add: cached_def)
  have "inj_on (\<lambda>p. c_block_id (cb s' p)) (cached s) = inj_on (\<lambda>p. c_block_id (cb s p)) (cached s)"
    using b by (intro inj_on_cong) (simp add: same_block_def)
  moreover have "footprint s' p = footprint s p" "two_parts s' p = two_parts s p" if "p \<in> cached s" for p
    using b [OF that] by (simp_all add: footprint_def two_parts_def same_block_def)
  ultimately show ?thesis
    using assms by (simp add: cache_ok_def cache_table_def cache_memory_def c)
qed

lemma upd_blk_sel [simp]:
  "blocks (upd_blk p f s) = blocks s" "block_count (upd_blk p f s) = block_count s"
  "hit_count (upd_blk p f s) = hit_count s" "miss_count (upd_blk p f s) = miss_count s"
  "access_time (upd_blk p f s) = access_time s" "heap (upd_blk p f s) = heap s"
  "cached (upd_blk p f s) = cached s"
  by (simp_all add: upd_blk_def cached_def)

lemma upd_blk_cb: "cblk s q \<noteq> None \<Longrightarrow>
  cblk (upd_blk p f s) q = Some (cb (upd_blk p f s) q) \<and> cb (upd_blk p f s) q = (if q = p then f (cb s q) else cb s q)"
  by (auto simp: upd_blk_def cb_def)

section \<open>New blocks\<close>

lemma insert_block_run:
  assumes t: "cache_table s" and null: "NULL \<in> set (blocks s)" and p: "p \<noteq> NULL" "p \<notin> cached s"
    and b: "cblk s p = Some b" and id: "\<nexists>q. holds_block (c_block_id b) s q"
  shows "cache_table (insert_block p s)" "cached (insert_block p s) = insert p (cached s)"
    "cblk (insert_block p s) = cblk s" "heap (insert_block p s) = heap s"
proof -
  obtain i where i: "first_null (blocks s) = Some i"
    using null first_null_None by (cases "first_null (blocks s)") auto
  then have il: "i < length (blocks s)" by (simp add: first_null_Some)
  obtain as bs where u: "used_slots (blocks s) = as @ bs" "used_slots ((blocks s)[i := p]) = as @ p # bs"
    using used_slots_update [OF i p(1)] by blast
  have bl: "blocks (insert_block p s) = (blocks s)[i := p]"
    and bc: "block_count (insert_block p s) = (if i \<ge> block_count s then i + 1 else block_count s)"
    by (simp_all add: insert_block_def i)
  show c: "cached (insert_block p s) = insert p (cached s)" by (auto simp: cached_def bl u)
  show k: "cblk (insert_block p s) = cblk s" "heap (insert_block p s) = heap s"
    by (simp_all add: insert_block_def i)
  then have cb: "cb (insert_block p s) = cb s" by (simp add: fun_eq_iff cb_def)
  have dist: "distinct (as @ p # bs)" using t p(2) u(1) by (auto simp: cache_table_def cached_def)
  have drop: "drop (block_count (insert_block p s)) ((blocks s)[i := p]) =
      drop (block_count (insert_block p s)) (blocks s)"
    by (rule drop_update_cancel) (simp add: bc)
  have "set (drop (block_count (insert_block p s)) (blocks s)) \<subseteq> set (drop (block_count s) (blocks s))"
    by (rule set_drop_subset_set_drop) (simp add: bc)
  then have dn: "\<forall>q \<in> set (drop (block_count (insert_block p s)) (blocks s)). q = NULL"
    using t by (auto simp: cache_table_def)
  have inj: "inj_on (\<lambda>p. c_block_id (cb s p)) (insert p (cached s))"
    using t id b p(2) by (auto simp: cache_table_def holds_block_def cb_def inj_on_insert)
  show "cache_table (insert_block p s)"
    using t u il b p dist inj dn unfolding cache_table_def c k cb bl drop by (auto simp: bc)
qed

lemma cache_ok_grow:
  assumes "cache_ok ainv owned s" "ainv m" "owned (heap s) \<subseteq> owned m"
  shows "cache_ok ainv owned (s\<lparr>heap := m\<rparr>)"
proof -
  have same: "cached (s\<lparr>heap := m\<rparr>) = cached s" "cb (s\<lparr>heap := m\<rparr>) = cb s"
    "footprint (s\<lparr>heap := m\<rparr>) = footprint s" "two_parts (s\<lparr>heap := m\<rparr>) = two_parts s"
    by (simp_all add: fun_eq_iff cached_def cb_def footprint_def two_parts_def)
  have "\<forall>p \<in> cached s. footprint s p \<subseteq> owned m"
    using assms by (auto simp: cache_ok_def cache_memory_def)
  then show ?thesis using assms by (simp add: same cache_ok_def cache_table_def cache_memory_def)
qed

text \<open>The block made for a header at \<open>p\<close> and data at \<open>d\<close>, and the cache with it.\<close>

definition new_blk :: "u64 \<Rightarrow> ptr \<Rightarrow> u32 \<Rightarrow> u64 \<Rightarrow> cache_block" where
  "new_blk block_id d sz t = \<lparr>c_block_id = block_id, c_data = d, c_size = sz, c_status = CACHE_CLEAN,
     c_reference_count = 1, c_last_access = t, c_next = NULL, c_prev = NULL\<rparr>"

definition with_new :: "ptr \<Rightarrow> ptr \<Rightarrow> u64 \<Rightarrow> u32 \<Rightarrow> 'm \<Rightarrow> 'm cache \<Rightarrow> 'm cache" where
  "with_new p d block_id sz m s = insert_block p (s\<lparr>heap := m, access_time := access_time s + 1,
     cblk := (cblk s)(p \<mapsto> new_blk block_id d sz (access_time s + 1))\<rparr>)"

lemma new_block_run:
  assumes "alloc sizeof_cache_block (heap s) = (p, m1)" "alloc (ucast sz) m1 = (d, m2)"
  shows "new_cache_block alloc free block_id sz s =
    (if p = NULL then Ret NULL (s\<lparr>heap := m1\<rparr>)
     else if d = NULL then Ret NULL (s\<lparr>heap := free p m2\<rparr>)
     else Ret p (with_new p d block_id sz m2 s))"
  using assms by (simp add: new_cache_block_def with_new_def new_blk_def Let_def)

text \<open>What a new block looks like to the clients of the cache.\<close>

definition fresh_block :: "u64 \<Rightarrow> u32 \<Rightarrow> 'm cache \<Rightarrow> ptr \<Rightarrow> 'm cache \<Rightarrow> cache_block \<Rightarrow> bool" where
  "fresh_block block_id sz s p s' b \<longleftrightarrow> p \<noteq> NULL \<and> p \<notin> cached s \<and> cached s' = insert p (cached s) \<and>
     cblk s' = (cblk s)(p \<mapsto> b) \<and> c_block_id b = block_id \<and> c_size b = sz \<and> c_status b = CACHE_CLEAN \<and>
     c_reference_count b = 1 \<and> c_last_access b = access_time s + 1 \<and> access_time s' = access_time s + 1 \<and>
     hit_count s' = hit_count s \<and> miss_count s' = miss_count s"

lemma with_new_table:
  fixes d :: ptr and sz :: u32 and m :: 'm
  assumes tab: "cache_table s" and null: "NULL \<in> set (blocks s)" and p: "p \<noteq> NULL" "p \<notin> cached s"
    and id: "\<nexists>q. holds_block block_id s q"
  defines "s' \<equiv> with_new p d block_id sz m s"
  shows "cache_table s'" "heap s' = m" "cached s' = insert p (cached s)"
    "cb s' q = (if q = p then new_blk block_id d sz (access_time s + 1) else cb s q)"
    "fresh_block block_id sz s p s' (new_blk block_id d sz (access_time s + 1))"
proof -
  let ?b = "new_blk block_id d sz (access_time s + 1)"
  let ?s = "s\<lparr>heap := m, access_time := access_time s + 1, cblk := (cblk s)(p \<mapsto> ?b)\<rparr>"
  have cs: "cached ?s = cached s" by (simp add: cached_def)
  have cb: "cb ?s q = (if q = p then ?b else cb s q)" for q by (simp add: cb_def)
  have "inj_on (\<lambda>q. c_block_id (cb ?s q)) (cached s) = inj_on (\<lambda>q. c_block_id (cb s q)) (cached s)"
    using p(2) by (intro inj_on_cong) (auto simp: cb)
  then have "cache_table ?s" using tab p(2) unfolding cache_table_def cs by auto
  moreover have "\<nexists>q. holds_block (c_block_id ?b) ?s q"
    using id p(2) unfolding holds_block_def cs cb by (auto simp: new_blk_def)
  ultimately have ins: "cache_table s'" "cached s' = insert p (cached s)" "cblk s' = (cblk s)(p \<mapsto> ?b)" "heap s' = m"
    using insert_block_run [of ?s p ?b] null p unfolding s'_def with_new_def by (auto simp: cs)
  then show "cache_table s'" "heap s' = m" "cached s' = insert p (cached s)" by simp_all
  show "cb s' q = (if q = p then ?b else cb s q)" by (simp add: cb_def ins(3))
  have "access_time s' = access_time s + 1" "hit_count s' = hit_count s" "miss_count s' = miss_count s"
    by (simp_all add: s'_def with_new_def insert_block_def split: option.splits)
  then show "fresh_block block_id sz s p s' ?b"
    using ins p by (simp add: fresh_block_def) (simp add: new_blk_def)
qed

lemma cache_ok_new:
  assumes ok: "cache_ok ainv owned s" and null: "NULL \<in> set (blocks s)" and p: "p \<noteq> NULL"
    and id: "\<nexists>q. holds_block block_id s q"
    and fresh: "region p sizeof_cache_block \<inter> owned (heap s) = {}" "region d (ucast sz) \<inter> owned (heap s) = {}"
      "region p sizeof_cache_block \<inter> region d (ucast sz) = {}"
    and m: "ainv m" "owned (heap s) \<subseteq> owned m" "region p sizeof_cache_block \<subseteq> owned m" "region d (ucast sz) \<subseteq> owned m"
  shows "p \<notin> cached s" "cache_ok ainv owned (with_new p d block_id sz m s)"
proof -
  let ?s = "with_new p d block_id sz m s"
  have tab: "cache_table s" and mem: "cache_memory owned s" using ok by (simp_all add: cache_ok_def)
  have "unat p \<in> region p sizeof_cache_block" by (simp add: region_def sizeof_cache_block_def)
  then show pc: "p \<notin> cached s" using fresh(1) mem by (auto simp: cache_memory_def footprint_def)
  note ins = with_new_table [OF tab null p pc id, where d = d and sz = sz and m = m]
  have old: "footprint ?s q = footprint s q" "footprint s q \<subseteq> owned (heap s)" if "q \<in> cached s" for q
    using that pc mem by (auto simp: footprint_def ins(4) cache_memory_def)
  have new: "footprint ?s p = region p sizeof_cache_block \<union> region d (ucast sz)"
    by (simp add: footprint_def ins(4) new_blk_def)
  have apart: "footprint ?s p \<inter> footprint s q = {}" if "q \<in> cached s" for q
    using fresh(1,2) old(2) [OF that] unfolding new by blast
  have "footprint ?s q \<subseteq> owned m" if "q \<in> insert p (cached s)" for q
    using that m old new by blast
  moreover have "two_parts ?s q" if "q \<in> insert p (cached s)" for q
    using that fresh(3) mem pc by (auto simp: two_parts_def ins(4) new_blk_def cache_memory_def)
  moreover have "footprint ?s q \<inter> footprint ?s r = {}"
    if "q \<in> insert p (cached s)" "r \<in> insert p (cached s)" "q \<noteq> r" for q r
    using that apart old(1) mem unfolding cache_memory_def by (metis Int_commute insert_iff)
  ultimately show "cache_ok ainv owned ?s"
    using ins(1-3) m(1) by (simp add: cache_ok_def cache_memory_def)
qed

end
