(* ===== verification/Cache_Calls.thy ===== *)
theory Cache_Calls
  imports Cache_Inv
begin

text \<open>
  The calls into the cache, over any allocator for which an invariant \<open>cok\<close> of the cache survives
  eviction and the making of a block. The locale \<open>cache_store\<close> states what is needed; the theories of
  the cache on the two allocators of the kernel interpret it.
\<close>

section \<open>Making room\<close>

definition makes_room :: "'m cache \<Rightarrow> ptr set \<Rightarrow> bool" where
  "makes_room s V \<longleftrightarrow>
     (if block_count s < MAX_CACHE_BLOCKS then V = {} else \<exists>v. V = {v} \<and> victim s v)"

lemma miss_count_views:
  "cached (s\<lparr>miss_count := n\<rparr>) = cached s" "cb (s\<lparr>miss_count := n\<rparr>) = cb s"
  "holds_block i (s\<lparr>miss_count := n\<rparr>) = holds_block i s" "evictable (s\<lparr>miss_count := n\<rparr>) = evictable s"
  "victim (s\<lparr>miss_count := n\<rparr>) = victim s" "makes_room (s\<lparr>miss_count := n\<rparr>) = makes_room s"
  by (simp_all add: fun_eq_iff cached_def cb_def holds_block_def evictable_def victim_def makes_room_def)

section \<open>Hits and write-back\<close>

definition touched :: "ptr \<Rightarrow> 'm cache \<Rightarrow> 'm cache" where
  "touched p s = upd_blk p (\<lambda>b. b\<lparr>c_last_access := access_time s + 1, c_reference_count := c_reference_count b + 1\<rparr>)
     (s\<lparr>hit_count := hit_count s + 1, access_time := access_time s + 1\<rparr>)"

lemma get_hit:
  assumes "cache_table s" "holds_block block_id s p"
  shows "cache_get_block alloc free block_id sz s = Ret p (touched p s)"
proof -
  have "p \<noteq> NULL" using assms(2) cached_nonnull by (auto simp: holds_block_def)
  then show ?thesis using find_hit [OF assms] by (simp add: cache_get_block_def touched_def)
qed

text \<open>Writing back a list of blocks cleans exactly these.\<close>

definition clean_block :: "cache_block \<Rightarrow> cache_block" where
  "clean_block b = (if c_status b = CACHE_DIRTY then b\<lparr>c_status := CACHE_CLEAN\<rparr> else b)"

definition cleaned :: "ptr set \<Rightarrow> 'm cache \<Rightarrow> 'm cache" where
  "cleaned P s = s\<lparr>cblk := (\<lambda>p. if p \<in> P then map_option clean_block (cblk s p) else cblk s p)\<rparr>"

lemma clean_block_idem [simp]: "clean_block (clean_block b) = clean_block b"
  by (simp add: clean_block_def CACHE_DIRTY_def CACHE_CLEAN_def)

lemma cleaned_sel [simp]:
  "blocks (cleaned P s) = blocks s" "block_count (cleaned P s) = block_count s" "heap (cleaned P s) = heap s"
  "hit_count (cleaned P s) = hit_count s" "miss_count (cleaned P s) = miss_count s"
  "access_time (cleaned P s) = access_time s"
  "cblk (cleaned P s) p = (if p \<in> P then map_option clean_block (cblk s p) else cblk s p)"
  by (simp_all add: cleaned_def)

lemma cleaned_insert: "cleaned P (cleaned {p} s) = cleaned (insert p P) s"
  by (rule cache.equality) (auto simp: fun_eq_iff option.map_comp comp_def)

lemma cleaned_none:
  assumes "cblk s p = Some b" "c_status b \<noteq> CACHE_DIRTY"
  shows "cleaned {p} s = s"
  by (rule cache.equality) (use assms in \<open>auto simp: fun_eq_iff clean_block_def\<close>)

lemma sync_block_run:
  assumes "cblk s p = Some b" "p \<noteq> NULL"
  shows "cache_sync_block p s = Ret 0 (cleaned {p} s)"
proof (cases "c_status b = CACHE_DIRTY")
  case True
  have "upd_blk p (c_status_update (\<lambda>_. CACHE_CLEAN)) s = cleaned {p} s"
    by (rule cache.equality) (use True assms(1) in \<open>auto simp: fun_eq_iff clean_block_def upd_blk_def\<close>)
  then show ?thesis using True assms by (simp add: cache_sync_block_def with_blk_def)
next
  case False
  then show ?thesis
    using assms cleaned_none [OF assms(1) False] by (simp add: cache_sync_block_def with_blk_def)
qed

lemma sync_loop_run:
  assumes "\<forall>p \<in> set (used_slots ps). cblk s p \<noteq> None"
  shows "sync_loop ps s = Ret 0 (cleaned (set (used_slots ps)) s)"
  using assms
proof (induction ps arbitrary: s)
  case Nil
  have "cleaned {} s = s" by (rule cache.equality) (simp_all add: fun_eq_iff)
  then show ?case by (simp add: used_slots_def)
next
  case (Cons p ps)
  show ?case
  proof (cases "p = NULL")
    case True
    then show ?thesis using Cons by (simp add: used_slots_def)
  next
    case False
    then obtain b where b: "cblk s p = Some b" using Cons.prems by (auto simp: used_slots_def)
    have "\<forall>q \<in> set (used_slots ps). cblk (cleaned {p} s) q \<noteq> None"
      using Cons.prems by (auto simp: used_slots_def)
    note ih = Cons.IH [OF this]
    have u: "set (used_slots (p # ps)) = insert p (set (used_slots ps))" using False by (simp add: used_slots_def)
    show ?thesis
      using ih sync_block_run [OF b False] cleaned_none [OF b] cleaned_insert [of "set (used_slots ps)" p s] False b u
      by (auto simp: with_blk_def)
  qed
qed

section \<open>Calls into the cache\<close>

datatype cache_call = Get u64 u32 | Release ptr | Dirty ptr | Sync ptr | Sync_all

fun cache_call_run ::
  "(u64 \<Rightarrow> 'm \<Rightarrow> ptr \<times> 'm) \<Rightarrow> (ptr \<Rightarrow> 'm \<Rightarrow> 'm) \<Rightarrow> cache_call \<Rightarrow> 'm cache \<Rightarrow> (unit, 'm cache) exec" where
  "cache_call_run alloc free (Get block_id sz) s =
     and_then (cache_get_block alloc free block_id sz s) (\<lambda>_ s. Ret () s)"
| "cache_call_run alloc free (Release p) s = cache_release_block p s"
| "cache_call_run alloc free (Dirty p) s = cache_mark_dirty p s"
| "cache_call_run alloc free (Sync p) s = and_then (cache_sync_block p s) (\<lambda>_ s. Ret () s)"
| "cache_call_run alloc free Sync_all s = and_then (cache_sync_all s) (\<lambda>_ s. Ret () s)"

text \<open>A pointer a client passes in is null or a block that is still cached; the code cannot check
  this.\<close>

fun cache_call_ok :: "cache_call \<Rightarrow> 'm cache \<Rightarrow> bool" where
  "cache_call_ok (Release p) s = (p = NULL \<or> p \<in> cached s)"
| "cache_call_ok (Dirty p) s = (p = NULL \<or> p \<in> cached s)"
| "cache_call_ok (Sync p) s = (p = NULL \<or> p \<in> cached s)"
| "cache_call_ok _ s = True"

section \<open>The cache over an allocator\<close>

locale cache_store =
  fixes alloc :: "u64 \<Rightarrow> 'm \<Rightarrow> ptr \<times> 'm"
    and free :: "ptr \<Rightarrow> 'm \<Rightarrow> 'm"
    and cok :: "'m cache \<Rightarrow> bool"
  assumes cok_table: "cok s \<Longrightarrow> cache_table s"
    and cok_cong: "cok s \<Longrightarrow> heap s' = heap s \<Longrightarrow> blocks s' = blocks s \<Longrightarrow> block_count s' = block_count s \<Longrightarrow>
      (\<And>p. p \<in> cached s \<Longrightarrow> cblk s' p \<noteq> None \<and> same_block (cb s' p) (cb s p)) \<Longrightarrow> cok s'"
    and cok_evict: "cok s \<Longrightarrow> i < block_count s \<Longrightarrow> blocks s ! i \<noteq> NULL \<Longrightarrow> cok (evicted free i s)"
    and cok_new: "cok s \<Longrightarrow> NULL \<in> set (blocks s) \<Longrightarrow> \<nexists>q. holds_block block_id s q \<Longrightarrow>
      (\<exists>m. new_cache_block alloc free block_id sz s = Ret NULL (s\<lparr>heap := m\<rparr>) \<and> cok (s\<lparr>heap := m\<rparr>) \<and>
        (fst (alloc sizeof_cache_block (heap s)) = NULL \<or>
         fst (alloc (ucast sz) (snd (alloc sizeof_cache_block (heap s)))) = NULL)) \<or>
      (\<exists>p s' b. new_cache_block alloc free block_id sz s = Ret p s' \<and> cok s' \<and> fresh_block block_id sz s p s' b)"
begin

lemma cok_same:
  assumes "cok s" "heap s' = heap s" "blocks s' = blocks s" "block_count s' = block_count s"
    and "\<And>p. cblk s p \<noteq> None \<Longrightarrow> cblk s' p \<noteq> None \<and> same_block (cb s' p) (cb s p)"
  shows "cok s'"
proof (rule cok_cong [OF assms(1-4)])
  fix p assume "p \<in> cached s"
  then show "cblk s' p \<noteq> None \<and> same_block (cb s' p) (cb s p)"
    using assms(5) cok_table [OF assms(1)] by (simp add: cache_table_def)
qed

lemma upd_ok:
  assumes "cok s" "\<And>b. same_block (f b) b"
  shows "cok (upd_blk p f s)"
proof (rule cok_same [OF assms(1)])
  fix q assume "cblk s q \<noteq> None"
  then show "cblk (upd_blk p f s) q \<noteq> None \<and> same_block (cb (upd_blk p f s) q) (cb s q)"
    using upd_blk_cb [of s q p f] assms(2) by (auto simp: same_block_def)
qed simp_all

lemma miss_ok:
  assumes "cok s"
  shows "cok (s\<lparr>miss_count := n\<rparr>)"
  by (rule cok_same [OF assms]) (simp_all add: cb_def same_block_def)

lemma touched_ok:
  assumes "cok s"
  shows "cok (touched p s)"
proof -
  have "cok (s\<lparr>hit_count := hit_count s + 1, access_time := access_time s + 1\<rparr>)"
    by (rule cok_same [OF assms]) (simp_all add: cb_def same_block_def)
  then show ?thesis unfolding touched_def by (rule upd_ok) (simp add: same_block_def)
qed

lemma sync_all_run:
  assumes "cok s"
  shows "cache_sync_all s = Ret 0 (cleaned (cached s) s)" "cok (cleaned (cached s) s)"
proof -
  note t = cok_table [OF assms]
  then have "\<forall>p \<in> set (used_slots (take (block_count s) (blocks s))). cblk s p \<noteq> None"
    by (simp add: used_slots_drop cached_def cache_table_def)
  then show "cache_sync_all s = Ret 0 (cleaned (cached s) s)"
    using sync_loop_run [of "take (block_count s) (blocks s)" s] t
    by (simp add: cache_sync_all_def used_slots_drop cached_def)
  show "cok (cleaned (cached s) s)"
    by (rule cok_same [OF assms]) (auto simp: cb_def same_block_def clean_block_def)
qed

text \<open>A slot becomes free: there is one, or the victim is evicted, or all blocks are in use.\<close>

lemma room_cases:
  assumes ok: "cok s"
  defines "r \<equiv> if block_count s \<ge> MAX_CACHE_BLOCKS then evict_block free s else Ret True s"
  obtains (full) "r = Ret False s" "MAX_CACHE_BLOCKS \<le> block_count s" "\<nexists>p. evictable s p"
  | (room) V t where "r = Ret True t" "makes_room s V" "cok t" "cached t = cached s - V"
      "cblk t = cblk s" "NULL \<in> set (blocks t)" "access_time t = access_time s" "hit_count t = hit_count s"
      "miss_count t = miss_count s" "heap t = heap s \<or> (\<exists>p q. heap t = free p (free q (heap s)))"
proof (cases "MAX_CACHE_BLOCKS \<le> block_count s")
  case False
  note t = cok_table [OF ok]
  then have "blocks s ! block_count s \<in> set (drop (block_count s) (blocks s))"
    using False by (metis Cons_nth_drop_Suc cache_table_def list.set_intros(1) not_le)
  then have "NULL \<in> set (blocks s)" using t in_set_dropD unfolding cache_table_def by metis
  then show thesis using room [of s "{}"] False ok by (simp add: r_def makes_room_def)
next
  case True
  note t = cok_table [OF ok]
  show thesis
    using t
  proof (cases rule: evict_cases [where free = free])
    case none
    then show thesis using full True by (simp add: r_def)
  next
    case (victim i)
    have n: "blocks s ! i \<noteq> NULL" using victim(2) cached_nonnull by (auto simp: victim_def evictable_def)
    have "makes_room s {blocks s ! i}" using victim(2) True by (simp add: makes_room_def)
    then show thesis
      using room [of "evicted free i s" "{blocks s ! i}"] victim(3) True n
        evicted_table [OF t victim(1) n, of free] cok_evict [OF ok victim(1) n]
      by (auto simp: r_def evicted_def)
  qed
qed

lemma get_miss_cases:
  assumes ok: "cok s" and id: "\<nexists>q. holds_block block_id s q"
  obtains (full) "cache_get_block alloc free block_id sz s = Ret NULL (s\<lparr>miss_count := miss_count s + 1\<rparr>)"
      "MAX_CACHE_BLOCKS \<le> block_count s" "\<nexists>p. evictable s p"
  | (fail) V s' m where "cache_get_block alloc free block_id sz s = Ret NULL s'" "makes_room s V"
      "cok s'" "cached s' = cached s - V" "cblk s' = cblk s"
      "hit_count s' = hit_count s" "miss_count s' = miss_count s + 1"
      "m = heap s \<or> (\<exists>p q. m = free p (free q (heap s)))"
      "fst (alloc sizeof_cache_block m) = NULL \<or>
       fst (alloc (ucast sz) (snd (alloc sizeof_cache_block m))) = NULL"
  | (new) V p s' b where "cache_get_block alloc free block_id sz s = Ret p s'" "p \<noteq> NULL" "p \<notin> cached s - V"
      "makes_room s V" "cok s'" "cached s' = insert p (cached s - V)" "cblk s' = (cblk s)(p \<mapsto> b)"
      "c_block_id b = block_id" "c_size b = sz" "c_status b = CACHE_CLEAN" "c_reference_count b = 1"
      "hit_count s' = hit_count s" "miss_count s' = miss_count s + 1"
proof -
  let ?s = "s\<lparr>miss_count := miss_count s + 1\<rparr>"
  note t = cok_table [OF ok]
  have run: "cache_get_block alloc free block_id sz s = allocate_cache_block alloc free block_id sz ?s"
    using find_miss [OF t id]
    by (cases "allocate_cache_block alloc free block_id sz ?s") (simp_all add: cache_get_block_def Let_def)
  have ok1: "cok ?s" by (rule miss_ok [OF ok])
  from ok1 show thesis
  proof (cases rule: room_cases)
    case full
    then show thesis
      using that(1) run by (simp add: allocate_cache_block_def miss_count_views)
  next
    case (room V u)
    have run': "cache_get_block alloc free block_id sz s = new_cache_block alloc free block_id sz u"
      using run room(1) by (simp add: allocate_cache_block_def)
    have "cb u = cb s" using room(5) by (simp add: fun_eq_iff cb_def)
    then have id': "\<nexists>q. holds_block block_id u q"
      using id room(4) by (auto simp: holds_block_def miss_count_views)
    note keeps = room(2-5,7-10) [unfolded miss_count_views]
    consider
      (fail) m where "new_cache_block alloc free block_id sz u = Ret NULL (u\<lparr>heap := m\<rparr>)"
        "cok (u\<lparr>heap := m\<rparr>)" "fst (alloc sizeof_cache_block (heap u)) = NULL \<or>
         fst (alloc (ucast sz) (snd (alloc sizeof_cache_block (heap u)))) = NULL"
    | (new) p s' b where "new_cache_block alloc free block_id sz u = Ret p s'" "cok s'"
        "fresh_block block_id sz u p s' b"
      using cok_new [OF room(3,6) id', of sz] by blast
    then show thesis
    proof cases
      case (fail m)
      have "cached (u\<lparr>heap := m\<rparr>) = cached u" by (simp add: cached_def)
      then show thesis using that(2) [of "u\<lparr>heap := m\<rparr>" V "heap u"] run' fail keeps by simp
    next
      case (new p s' b)
      then show thesis using that(3) [of p s' V b] run' keeps by (simp add: fresh_block_def)
    qed
  qed
qed

text \<open>Every allowed call ends and keeps the invariant.\<close>

lemma cache_call_safe:
  assumes ok: "cok s" and c: "cache_call_ok c s"
  shows "\<exists>s'. cache_call_run alloc free c s = Ret () s' \<and> cok s'"
proof -
  note t = cok_table [OF ok]
  show ?thesis
  proof (cases c)
    case (Get block_id sz)
    show ?thesis
    proof (cases "\<exists>p. holds_block block_id s p")
      case True
      then obtain p where "holds_block block_id s p" by blast
      then show ?thesis using Get get_hit [OF t] touched_ok [OF ok] by simp
    next
      case False
      from ok False show ?thesis
        by (cases rule: get_miss_cases [where sz = sz]) (use Get miss_ok [OF ok] in auto)
    qed
  next
    case (Release p)
    then show ?thesis
      using c ok by (auto simp: cache_release_block_def with_blk_cached [OF t] same_block_def intro!: upd_ok)
  next
    case (Dirty p)
    then show ?thesis
      using c ok by (auto simp: cache_mark_dirty_def with_blk_cached [OF t] same_block_def intro!: upd_ok)
  next
    case (Sync p)
    then show ?thesis
      using c ok by (auto simp: cache_sync_block_def with_blk_cached [OF t] same_block_def intro!: upd_ok)
  next
    case Sync_all
    then show ?thesis using sync_all_run [OF ok] by auto
  qed
qed

end

end
