(* ===== verification/Cache_Props.thy ===== *)
theory Cache_Props
  imports Cache_Calls
begin

text \<open>
  The cache on top of an allocator that keeps what it handed out, and the properties of the cache
  on the kernel allocator of \<open>kernel/process/memory.c\<close>.
\<close>

section \<open>An allocator that keeps what it handed out\<close>

locale permanent_allocator = allocator +
  fixes free :: "ptr \<Rightarrow> 'a \<Rightarrow> 'a"
  assumes free_inv: "inv m \<Longrightarrow> inv (free p m)"
    and free_owned: "owned (free p m) = owned m"
begin

lemma evicted_ok:
  assumes "cache_ok inv owned s" "i < block_count s" "blocks s ! i \<noteq> NULL"
  shows "cache_ok inv owned (evicted free i s)"
proof -
  have t: "cache_table s" using assms by (simp add: cache_ok_def)
  have "footprint (evicted free i s) = footprint s" "two_parts (evicted free i s) = two_parts s"
    by (simp_all add: fun_eq_iff footprint_def two_parts_def cb_def evicted_def)
  then show ?thesis
    using assms evicted_table [OF t assms(2,3), of free]
    by (auto simp: cache_ok_def cache_memory_def evicted_def free_inv free_owned)
qed

lemma new_ok:
  assumes ok: "cache_ok inv owned s" and null: "NULL \<in> set (blocks s)"
    and id: "\<nexists>q. holds_block block_id s q"
  shows "(\<exists>m. new_cache_block alloc free block_id sz s = Ret NULL (s\<lparr>heap := m\<rparr>) \<and>
      cache_ok inv owned (s\<lparr>heap := m\<rparr>) \<and>
      (fst (alloc sizeof_cache_block (heap s)) = NULL \<or>
       fst (alloc (ucast sz) (snd (alloc sizeof_cache_block (heap s)))) = NULL)) \<or>
    (\<exists>p s' b. new_cache_block alloc free block_id sz s = Ret p s' \<and> cache_ok inv owned s' \<and>
      fresh_block block_id sz s p s' b)"
proof -
  have i0: "inv (heap s)" and t: "cache_table s" using ok by (simp_all add: cache_ok_def)
  have r1: "request_ok sizeof_cache_block" by (simp add: request_ok_def sizeof_cache_block_def)
  have r2: "request_ok (ucast sz)" using unat_u32_less [of sz] by (simp add: request_ok_def)
  obtain p m1 where a1: "alloc sizeof_cache_block (heap s) = (p, m1)" by fastforce
  obtain d m2 where a2: "alloc (ucast sz) m1 = (d, m2)" by fastforce
  note run = new_block_run [OF a1 a2, of free block_id]
  have i1: "inv m1" using alloc_inv [OF i0 r1 a1] .
  have i2: "inv m2" using alloc_inv [OF i1 r2 a2] .
  have o1: "owned (heap s) \<subseteq> owned m1" using alloc_owned_mono [OF i0 r1 a1] .
  have o2: "owned m1 \<subseteq> owned m2" using alloc_owned_mono [OF i1 r2 a2] .
  consider "p = NULL" | "p \<noteq> NULL" "d = NULL" | "p \<noteq> NULL" "d \<noteq> NULL" by blast
  then show ?thesis
  proof cases
    case 1
    then show ?thesis using run cache_ok_grow [OF ok i1 o1] a1 by auto
  next
    case 2
    have "cache_ok inv owned (s\<lparr>heap := free p m2\<rparr>)"
      using i2 o1 o2 by (intro cache_ok_grow [OF ok]) (auto simp: free_inv free_owned)
    then show ?thesis using run 2 a1 a2 by auto
  next
    case 3
    have fp: "region p sizeof_cache_block \<inter> owned (heap s) = {}" "region p sizeof_cache_block \<subseteq> owned m1"
      using alloc_fresh [OF i0 r1 a1] alloc_owned [OF i0 r1 a1] 3 by simp_all
    have fd: "region d (ucast sz) \<inter> owned m1 = {}" "region d (ucast sz) \<subseteq> owned m2"
      using alloc_fresh [OF i1 r2 a2] alloc_owned [OF i1 r2 a2] 3 by simp_all
    have pre: "region d (ucast sz) \<inter> owned (heap s) = {}" "owned (heap s) \<subseteq> owned m2"
      "region p sizeof_cache_block \<subseteq> owned m2" "region p sizeof_cache_block \<inter> region d (ucast sz) = {}"
      using fp fd o1 o2 by blast+
    note n = cache_ok_new [OF ok null 3(1) id fp(1) pre(1,4) i2 pre(2,3) fd(2)]
    show ?thesis
      using run 3 n(2) with_new_table(5) [OF t null 3(1) n(1) id] by auto
  qed
qed

end

sublocale permanent_allocator \<subseteq> cache_store alloc free "cache_ok inv owned"
proof
  fix s s' :: "'a cache"
  assume "cache_ok inv owned s" "heap s' = heap s" "blocks s' = blocks s" "block_count s' = block_count s"
    "\<And>p. p \<in> cached s \<Longrightarrow> cblk s' p \<noteq> None \<and> same_block (cb s' p) (cb s p)"
  then show "cache_ok inv owned s'" by (rule cache_ok_cong)
qed (rule cache_ok_def [THEN iffD1, THEN conjunct2, THEN conjunct1] evicted_ok new_ok; assumption)+

section \<open>The cache on the kernel allocator\<close>

interpretation kcache: permanent_allocator kmalloc kmem_inv kmem_owned kfree
  by unfold_locales (simp_all add: kfree_def kmem_inv_def kmem_owned_def)

interpretation cache_calls: safe_calls "cache_call_run kmalloc kfree" cache_call_ok "cache_ok kmem_inv kmem_owned"
  by unfold_locales (use kcache.cache_call_safe in \<open>fastforce simp: hands_on_def\<close>)

lemma cache_init_ok: "ainv (heap s) \<Longrightarrow> cache_ok ainv owned (cache_init s)"
  by (simp add: cache_ok_def cache_table_def cache_memory_def cache_init_def cached_def used_slots_def
      set_drop_subset filter_empty_conv)

lemma kmalloc_two_fit:
  assumes i: "kmem_inv m" and fit: "unat (heap_used m) + 56 + unat sz \<le> 1048576"
  shows "fst (kmalloc sizeof_cache_block m) \<noteq> NULL"
    "fst (kmalloc (ucast (sz :: u32)) (snd (kmalloc sizeof_cache_block m))) \<noteq> NULL"
proof -
  have k: "kmalloc sizeof_cache_block m = (heap_addr m + heap_used m, m\<lparr>heap_used := heap_used m + 56\<rparr>)"
    using kmalloc_aligned [OF i, of 56] fit by (simp add: sizeof_cache_block_def)
  have u: "unat (heap_used m + 56) = unat (heap_used m) + 56"
    using fit by (subst unat_add_no_wrap) simp_all
  have i': "kmem_inv (m\<lparr>heap_used := heap_used m + 56\<rparr>)"
    using i fit by (simp add: kmem_inv_def u)
  show "fst (kmalloc sizeof_cache_block m) \<noteq> NULL" using k kmem_ptr_nonnull [OF i] by simp
  have "request_ok (ucast sz)" using unat_u32_less [of sz] by (simp add: request_ok_def)
  then show "fst (kmalloc (ucast sz) (snd (kmalloc sizeof_cache_block m))) \<noteq> NULL"
    using kmalloc_null_iff [OF i'] fit k by (simp add: u)
qed

definition empty_cache :: "kmem cache" where
  "empty_cache = \<lparr>blocks = [], block_count = 0, hit_count = 0, miss_count = 0, access_time = 0,
     cblk = Map.empty, heap = kmem0\<rparr>"

definition one_block :: "kmem cache" where
  "one_block = (cache_init empty_cache)\<lparr>blocks := 0x100000 # replicate 255 NULL, block_count := 1,
     miss_count := 1, access_time := 1,
     cblk := [0x100000 \<mapsto> \<lparr>c_block_id = 7, c_data = 0x100038, c_size = 512, c_status = CACHE_DIRTY,
       c_reference_count = 1, c_last_access = 1, c_next = NULL, c_prev = NULL\<rparr>],
     heap := kmem0\<lparr>heap_used := 568\<rparr>\<rparr>"

text \<open>C15. After \<open>cache_init\<close> every sequence of calls into the cache (a pointer passed in being null or a
  cached block) ends without a fault, and the cache is consistent: at most 256 blocks, no slot used
  beyond \<open>block_count\<close>, no block number cached twice, and the headers and data of the cached blocks
  lie in the heap and never overlap, not those of different blocks and not the header and the data of
  the same block.\<close>

theorem cache_consistent:
  assumes "kmem_inv (heap s0)"
    and "all_allowed cache_call_ok (cache_call_run kmalloc kfree) cs (cache_init s0)"
  shows "\<exists>s. run_calls (cache_call_run kmalloc kfree) cs (cache_init s0) = Some s \<and>
    cache_ok kmem_inv kmem_owned s"
  using cache_calls.run_calls_inv [OF cache_init_ok [of kmem_inv, OF assms(1)] assms(2)] .

theorem cache_consistent_witness:
  "\<exists>s. run_calls (cache_call_run kmalloc kfree) [Get 7 512, Get 9 512, Sync_all, Get 7 512]
      (cache_init empty_cache) = Some s \<and> cache_ok kmem_inv kmem_owned s"
proof (rule cache_consistent)
  show "kmem_inv (heap empty_cache)" by (simp add: empty_cache_def kmem0_inv)
qed (simp split: option.splits)

text \<open>C17. A hit: asking for a cached block returns it and changes only its access time and its
  reference count, the clock and the hit counter.\<close>

theorem cache_get_hit:
  assumes "cache_ok kmem_inv kmem_owned s" "holds_block block_id s p"
  shows "\<exists>s'. cache_get_block kmalloc kfree block_id sz s = Ret p s' \<and>
    hit_count s' = hit_count s + 1 \<and> miss_count s' = miss_count s \<and> access_time s' = access_time s + 1 \<and>
    blocks s' = blocks s \<and> block_count s' = block_count s \<and> heap s' = heap s \<and>
    cblk s' = (cblk s)(p \<mapsto> (cb s p)\<lparr>c_last_access := access_time s + 1,
      c_reference_count := c_reference_count (cb s p) + 1\<rparr>)"
proof -
  have t: "cache_table s" using assms(1) by (simp add: cache_ok_def)
  then have "cblk s p = Some (cb s p)" using assms(2) cached_cblk by (auto simp: holds_block_def)
  then show ?thesis using get_hit [OF t assms(2)] by (simp add: touched_def upd_blk_def)
qed

lemma one_block_ok: "cache_ok kmem_inv kmem_owned one_block" "holds_block 7 one_block 0x100000"
proof -
  have u: "cached one_block = {0x100000}" by (simp add: cached_def one_block_def used_slots_def)
  show "holds_block 7 one_block 0x100000" unfolding holds_block_def u by (simp add: cb_def one_block_def)
  show "cache_ok kmem_inv kmem_owned one_block"
    unfolding cache_ok_def cache_table_def cache_memory_def u
    by (auto simp: one_block_def kmem_inv_def kmem0_def kmem_owned_def footprint_def two_parts_def cb_def region_def
        used_slots_def sizeof_cache_block_def MAX_CACHE_BLOCKS_def)
qed

theorem cache_get_hit_witness:
  "\<exists>s'. cache_get_block kmalloc kfree 7 512 one_block = Ret 0x100000 s' \<and> hit_count s' = 1 \<and>
    map_option c_reference_count (cblk s' 0x100000) = Some 2"
  using cache_get_hit [OF one_block_ok, of 512]
  by (auto simp: one_block_def cache_init_def empty_cache_def cb_def)

text \<open>C18. A miss: the new block gets a reference count of 1 and is clean; at most one cached block goes,
  only when all 256 slots are used, and it is one that nobody references and that was used least
  recently among those. When every block is referenced, or the heap is full, the result is
  \<open>NULL\<close>.\<close>

theorem cache_get_miss:
  assumes "cache_ok kmem_inv kmem_owned s" "\<nexists>p. holds_block block_id s p"
  shows "\<exists>p s' V. cache_get_block kmalloc kfree block_id sz s = Ret p s' \<and>
    cache_ok kmem_inv kmem_owned s' \<and> miss_count s' = miss_count s + 1 \<and> hit_count s' = hit_count s \<and>
    (if MAX_CACHE_BLOCKS \<le> block_count s \<and> (\<nexists>q. evictable s q)
     then p = NULL \<and> cached s' = cached s \<and> cblk s' = cblk s
     else makes_room s V \<and>
       (if p = NULL then cached s' = cached s - V \<and> cblk s' = cblk s
        else \<exists>b. cached s' = insert p (cached s - V) \<and> p \<notin> cached s - V \<and> cblk s' = (cblk s)(p \<mapsto> b) \<and>
          c_block_id b = block_id \<and> c_size b = sz \<and> c_status b = CACHE_CLEAN \<and> c_reference_count b = 1) \<and>
       (unat (heap_used (heap s)) + 56 + unat sz \<le> 1048576 \<longrightarrow> p \<noteq> NULL))"
  using assms
proof (cases rule: kcache.get_miss_cases [where sz = sz])
  case full
  then show ?thesis using assms(1)
    by (intro exI [of _ NULL] exI [of _ "s\<lparr>miss_count := miss_count s + 1\<rparr>"]) (simp add: miss_count_views kcache.miss_ok)
next
  case (fail V s' m)
  have "kmem_inv m" "heap_used m = heap_used (heap s)"
    using fail(8) assms(1) by (auto simp: cache_ok_def kfree_def kmem_inv_def)
  then have "\<not> unat (heap_used (heap s)) + 56 + unat sz \<le> 1048576"
    using fail(9) kmalloc_two_fit [of m sz] by auto
  moreover have "\<not> (MAX_CACHE_BLOCKS \<le> block_count s \<and> (\<nexists>q. evictable s q))"
    using fail(2) by (auto simp: makes_room_def victim_def split: if_splits)
  ultimately show ?thesis using fail(1-7) by (intro exI [of _ NULL] exI [of _ s'] exI [of _ V]) auto
next
  case (new V p s' b)
  have "\<not> (MAX_CACHE_BLOCKS \<le> block_count s \<and> (\<nexists>q. evictable s q))"
    using new(4) by (auto simp: makes_room_def victim_def split: if_splits)
  then show ?thesis using new by (intro exI [of _ p] exI [of _ s'] exI [of _ V]) auto
qed

lemma one_block_only: "holds_block i one_block p \<longleftrightarrow> i = 7 \<and> p = 0x100000"
proof -
  have u: "cached one_block = {0x100000}" by (simp add: cached_def one_block_def used_slots_def)
  show ?thesis unfolding holds_block_def u by (auto simp: cb_def one_block_def)
qed

theorem cache_get_miss_witness:
  "\<exists>p s'. cache_get_block kmalloc kfree 9 512 one_block = Ret p s' \<and> p \<noteq> NULL \<and>
    0x100000 \<in> cached s' \<and> p \<in> cached s' \<and> map_option c_block_id (cblk s' p) = Some 9"
proof -
  have n: "\<nexists>p. holds_block 9 one_block p" by (simp add: one_block_only)
  have c: "block_count one_block = 1" "unat (heap_used (heap one_block)) = 568"
    by (simp_all add: one_block_def kmem0_def)
  have "0x100000 \<in> cached one_block" using one_block_ok(2) by (simp add: holds_block_def)
  then show ?thesis
    using cache_get_miss [OF one_block_ok(1) n, of 512]
    by (auto simp: c makes_room_def MAX_CACHE_BLOCKS_def)
qed

text \<open>C16. A block somebody references is never thrown out: whatever block is asked for, a cached block
  with a reference count above zero stays cached under the same pointer, with the same number, data
  and status.\<close>

theorem cache_keeps_referenced:
  assumes ok: "cache_ok kmem_inv kmem_owned s" and q: "q \<in> cached s" "c_reference_count (cb s q) \<noteq> 0"
  shows "\<exists>p s'. cache_get_block kmalloc kfree block_id sz s = Ret p s' \<and> q \<in> cached s' \<and>
    same_block (cb s' q) (cb s q) \<and> c_status (cb s' q) = c_status (cb s q)"
proof (cases "\<exists>p. holds_block block_id s p")
  case True
  then obtain p where p: "holds_block block_id s p" by blast
  have t: "cache_table s" using ok by (simp add: cache_ok_def)
  have "cblk s q \<noteq> None" using cached_cblk [OF t q(1)] by simp
  then show ?thesis
    using get_hit [OF t p] q(1) by (auto simp: touched_def upd_blk_def cb_def cached_def same_block_def)
next
  case False
  have out: "q \<notin> V" if "makes_room s V" for V
    using that q by (auto simp: makes_room_def victim_def evictable_def split: if_splits)
  from ok False show ?thesis
  proof (cases rule: kcache.get_miss_cases [where sz = sz])
    case full
    then show ?thesis using q by (simp add: miss_count_views same_block_def)
  next
    case (fail V s' m)
    have "q \<in> cached s'" using fail(4) q(1) out [OF fail(2)] by simp
    then show ?thesis using fail(1,5) by (simp add: cb_def same_block_def)
  next
    case (new V p s' b)
    have "q \<in> cached s'" "p \<noteq> q" using new(3,6) q(1) out [OF new(4)] by auto
    then show ?thesis using new(1,7) by (simp add: cb_def same_block_def)
  qed
qed

theorem cache_keeps_referenced_witness:
  "\<exists>p s'. cache_get_block kmalloc kfree 9 512 one_block = Ret p s' \<and> 0x100000 \<in> cached s'"
proof -
  have "0x100000 \<in> cached one_block" using one_block_ok(2) by (simp add: holds_block_def)
  moreover have "c_reference_count (cb one_block 0x100000) \<noteq> 0" by (simp add: cb_def one_block_def)
  ultimately show ?thesis
    using cache_keeps_referenced [OF one_block_ok(1), of "0x100000" 9 512] by blast
qed

text \<open>What was read is found again: after \<open>cache_get_block\<close> has returned a block, asking for the same
  block number returns the same block as a hit. The size asked for the second time is ignored: the
  block keeps the size it was made with.\<close>

theorem cache_get_again:
  assumes "cache_ok kmem_inv kmem_owned s" "cache_get_block kmalloc kfree block_id sz s = Ret p s1" "p \<noteq> NULL"
  shows "\<exists>s2. cache_get_block kmalloc kfree block_id sz' s1 = Ret p s2 \<and> hit_count s2 = hit_count s1 + 1 \<and>
    c_block_id (cb s2 p) = block_id \<and> c_size (cb s2 p) = c_size (cb s1 p)"
proof -
  have t: "cache_table s" using assms(1) by (simp add: cache_ok_def)
  have "cache_ok kmem_inv kmem_owned s1 \<and> holds_block block_id s1 p"
  proof (cases "\<exists>p. holds_block block_id s p")
    case True
    then obtain q where q: "holds_block block_id s q" by blast
    have e: "q = p" "s1 = touched q s" using get_hit [OF t q, of kmalloc kfree sz] assms(2) by auto
    have "cblk s q = Some (cb s q)" using q cached_cblk [OF t] by (simp add: holds_block_def)
    then have "holds_block block_id s1 p"
      using q e by (cases "cblk s q") (simp_all add: touched_def holds_block_def cb_def upd_blk_def cached_def)
    then show ?thesis using kcache.touched_ok [OF assms(1)] e by simp
  next
    case False
    from assms(1) False show ?thesis
      by (cases rule: kcache.get_miss_cases [where sz = sz])
        (use assms(2,3) in \<open>auto simp: holds_block_def cb_def\<close>)
  qed
  then have k: "cache_table s1" "holds_block block_id s1 p" by (simp_all add: cache_ok_def)
  then have "cblk s1 p = Some (cb s1 p)" using cached_cblk by (auto simp: holds_block_def)
  then show ?thesis
    using get_hit [OF k, of kmalloc kfree sz'] k(2)
    by (cases "cblk s1 p") (simp_all add: touched_def upd_blk_def cb_def holds_block_def)
qed

theorem cache_get_again_witness:
  "\<exists>s1 s2. cache_get_block kmalloc kfree 7 512 one_block = Ret 0x100000 s1 \<and>
    cache_get_block kmalloc kfree 7 4096 s1 = Ret 0x100000 s2 \<and> c_size (cb s2 0x100000) = 512"
proof -
  have t: "cache_table one_block" using one_block_ok(1) by (simp add: cache_ok_def)
  have g: "cache_get_block kmalloc kfree 7 512 one_block = Ret 0x100000 (touched 0x100000 one_block)"
    using get_hit [OF t one_block_ok(2)] .
  have "c_size (cb (touched 0x100000 one_block) 0x100000) = 512"
    by (simp add: touched_def upd_blk_def cb_def one_block_def)
  then show ?thesis using cache_get_again [OF one_block_ok(1) g, of 4096] g by auto
qed

text \<open>\<open>cache_sync_all\<close> returns 0 and leaves no cached block dirty; apart from the status of the dirty
  blocks nothing changes.\<close>

theorem cache_sync_all_clean:
  assumes "cache_ok kmem_inv kmem_owned s"
  shows "\<exists>s'. cache_sync_all s = Ret 0 s' \<and> cache_ok kmem_inv kmem_owned s' \<and> cached s' = cached s \<and>
    (\<forall>p. p \<in> cached s \<longrightarrow> c_status (cb s' p) \<noteq> CACHE_DIRTY \<and>
      cb s' p = (if c_status (cb s p) = CACHE_DIRTY then (cb s p)\<lparr>c_status := CACHE_CLEAN\<rparr> else cb s p))"
proof -
  have t: "cache_table s" using assms by (simp add: cache_ok_def)
  have "cb (cleaned (cached s) s) p = clean_block (cb s p)" if "p \<in> cached s" for p
    using cached_cblk [OF t that] that by (cases "cblk s p") (simp_all add: cb_def)
  moreover have "cached (cleaned (cached s) s) = cached s" by (simp add: cached_def)
  ultimately show ?thesis
    using kcache.sync_all_run [OF assms]
    by (auto simp: clean_block_def CACHE_DIRTY_def CACHE_CLEAN_def)
qed

theorem cache_sync_all_clean_witness:
  "\<exists>s'. cache_sync_all one_block = Ret 0 s' \<and> c_status (cb s' 0x100000) = CACHE_CLEAN \<and>
    c_status (cb one_block 0x100000) = CACHE_DIRTY"
proof -
  have "0x100000 \<in> cached one_block" using one_block_ok(2) by (simp add: holds_block_def)
  moreover have "c_status (cb one_block 0x100000) = CACHE_DIRTY" by (simp add: cb_def one_block_def)
  ultimately show ?thesis using cache_sync_all_clean [OF one_block_ok(1)] by fastforce
qed

end
