(* ===== verification/Heap.thy ===== *)
theory Heap
  imports Allocator_Spec
begin

text \<open>
  The kernel heap, \<open>kernel/mm/heap.c\<close>: a first-fit allocator over a doubly linked list of blocks,
  each with a 32-byte header in front of its data. A header is kept in a typed store under its
  address; a header that a merge has absorbed stays in memory, as in the code.
\<close>

section \<open>Data\<close>

record block_header =
  b_size :: u32
  b_magic :: u32
  b_is_free :: u8
  b_next :: ptr
  b_prev :: ptr

record heap_manager =
  first_block :: ptr
  last_block :: ptr
  heap_start :: u64
  heap_end :: u64
  heap_size :: u64
  free_size :: u64
  hdrs :: "ptr \<Rightarrow> block_header option"

definition HEAP_MAGIC :: u32 where
  "HEAP_MAGIC = 0x12345678"

definition sizeof_block_header :: u64 where
  "sizeof_block_header = 32"

definition heap_manager0 :: heap_manager where
  "heap_manager0 = \<lparr>first_block = NULL, last_block = NULL, heap_start = 0, heap_end = 0, heap_size = 0,
     free_size = 0, hdrs = Map.empty\<rparr>"

definition upd_hdr :: "ptr \<Rightarrow> (block_header \<Rightarrow> block_header) \<Rightarrow> heap_manager \<Rightarrow> heap_manager" where
  "upd_hdr p f h = h\<lparr>hdrs := (hdrs h)(p := map_option f (hdrs h p))\<rparr>"

definition with_hdr :: "heap_manager \<Rightarrow> ptr \<Rightarrow> (block_header \<Rightarrow> ('a, heap_manager) exec) \<Rightarrow>
    ('a, heap_manager) exec" where
  "with_hdr h p k = (case hdrs h p of None \<Rightarrow> Crash BadPtr | Some b \<Rightarrow> k b)"

section \<open>Operations\<close>

definition heap_init :: "u64 \<Rightarrow> u64 \<Rightarrow> heap_manager \<Rightarrow> heap_manager" where
  "heap_init start sz h =
     (let adjust = 16 - (start AND 15);
          (start, sz) = (if start AND 15 \<noteq> 0 then (start + adjust, sz - adjust) else (start, sz));
          sz = sz AND NOT 15;
          h = h\<lparr>heap_start := start, heap_end := start + sz, heap_size := sz, free_size := sz\<rparr>;
          first = \<lparr>b_size = ucast (sz - sizeof_block_header), b_magic = HEAP_MAGIC, b_is_free = 1,
                   b_next = NULL, b_prev = NULL\<rparr>
      in h\<lparr>hdrs := (hdrs h)(start \<mapsto> first), first_block := start, last_block := start\<rparr>)"

text \<open>The body of the loop once a block that is large enough has been found.\<close>

definition heap_take :: "u64 \<Rightarrow> ptr \<Rightarrow> block_header \<Rightarrow> heap_manager \<Rightarrow> (ptr, heap_manager) exec" where
  "heap_take sz cur c h =
     and_then
       (if ucast (b_size c) > sz + sizeof_block_header + 16 then
          let new_block = cur + sizeof_block_header + sz;
              new = \<lparr>b_size = ucast (ucast (b_size c) - sz - sizeof_block_header), b_magic = HEAP_MAGIC,
                     b_is_free = 1, b_next = b_next c, b_prev = cur\<rparr>;
              h = h\<lparr>hdrs := (hdrs h)(new_block \<mapsto> new)\<rparr>;
              h = upd_hdr cur (\<lambda>b. b\<lparr>b_size := ucast sz, b_next := new_block\<rparr>) h
          in if b_next new \<noteq> NULL
             then with_hdr h (b_next new) (\<lambda>_. Ret () (upd_hdr (b_next new) (b_prev_update (\<lambda>_. new_block)) h))
             else Ret () (h\<lparr>last_block := new_block\<rparr>)
        else Ret () h)
       (\<lambda>_ h.
         let h = upd_hdr cur (b_is_free_update (\<lambda>_. 0)) h
         in with_hdr h cur (\<lambda>c.
              Ret (cur + sizeof_block_header)
                (h\<lparr>free_size := free_size h - (ucast (b_size c) + sizeof_block_header)\<rparr>)))"

partial_function (option) heap_find ::
  "u64 \<Rightarrow> ptr \<Rightarrow> heap_manager \<Rightarrow> (ptr, heap_manager) exec option" where
  "heap_find sz cur h =
     (if cur = NULL then Some (Ret NULL h)
      else case hdrs h cur of
        None \<Rightarrow> Some (Crash BadPtr)
      | Some c \<Rightarrow>
          if b_is_free c \<noteq> 0 \<and> ucast (b_size c) \<ge> sz then Some (heap_take sz cur c h)
          else heap_find sz (b_next c) h)"

definition heap_kmalloc :: "u64 \<Rightarrow> heap_manager \<Rightarrow> (ptr, heap_manager) exec" where
  "heap_kmalloc sz h =
     (let sz = (sz + 15) AND NOT 15
      in case heap_find sz (first_block h) h of None \<Rightarrow> Spin h | Some r \<Rightarrow> r)"

text \<open>Merging a block with its successor: \<open>keep\<close> absorbs \<open>gone\<close>, which follows it.\<close>

definition heap_absorb :: "ptr \<Rightarrow> ptr \<Rightarrow> heap_manager \<Rightarrow> (unit, heap_manager) exec" where
  "heap_absorb keep gone h =
     with_hdr h gone (\<lambda>g.
       let h = upd_hdr keep (\<lambda>b. b\<lparr>b_size := ucast (ucast (b_size b) + (ucast (b_size g) + sizeof_block_header)),
                                   b_next := b_next g\<rparr>) h
       in if b_next g \<noteq> NULL
          then with_hdr h (b_next g) (\<lambda>_. Ret () (upd_hdr (b_next g) (b_prev_update (\<lambda>_. keep)) h))
          else Ret () (h\<lparr>last_block := keep\<rparr>))"

definition heap_kfree :: "ptr \<Rightarrow> heap_manager \<Rightarrow> (unit, heap_manager) exec" where
  "heap_kfree ptr h =
     (if ptr = NULL then Ret () h
      else
        let block = ptr - sizeof_block_header
        in with_hdr h block (\<lambda>b.
           if b_magic b \<noteq> HEAP_MAGIC then Ret () h
           else
             let h = upd_hdr block (b_is_free_update (\<lambda>_. 1)) h;
                 h = h\<lparr>free_size := free_size h + (ucast (b_size b) + sizeof_block_header)\<rparr>
             in and_then
                  (if b_next b \<noteq> NULL
                   then with_hdr h (b_next b) (\<lambda>n.
                          if b_is_free n \<noteq> 0 then heap_absorb block (b_next b) h else Ret () h)
                   else Ret () h)
                  (\<lambda>_ h. with_hdr h block (\<lambda>b.
                    if b_prev b \<noteq> NULL
                    then with_hdr h (b_prev b) (\<lambda>p.
                           if b_is_free p \<noteq> 0 then heap_absorb (b_prev b) block h else Ret () h)
                    else Ret () h))))"

definition heap_stats :: "heap_manager \<Rightarrow> u64 \<times> u64" where
  "heap_stats h = (heap_size h, free_size h)"

end
