(* ===== verification/Heap_Inv.thy ===== *)
theory Heap_Inv
  imports Heap
begin

text \<open>
  The heap's block list as an abstract sequence of blocks that tile the heap, and the proof that
  \<open>kmalloc\<close> and \<open>kfree\<close> of \<open>heap.c\<close> implement first fit with splitting and coalescing on it.
\<close>

section \<open>Blocks\<close>

record block =
  at :: ptr
  len :: nat
  free :: bool

definition blk :: "ptr \<Rightarrow> nat \<Rightarrow> bool \<Rightarrow> block" where
  "blk a n f = \<lparr>at = a, len = n, free = f\<rparr>"

lemma blk_sel [simp]: "at (blk a n f) = a" "len (blk a n f) = n" "free (blk a n f) = f"
  by (simp_all add: blk_def)

lemma blk_eq [simp]: "blk a n f = blk a' n' f' \<longleftrightarrow> a = a' \<and> n = n' \<and> f = f'"
  by (simp add: blk_def)

lemma blk_exhaust: obtains a n f where "b = blk a n f"
  by (cases b) (simp add: blk_def)

text \<open>The header \<open>b\<close> stands for the block.\<close>

definition hdr_of :: "block \<Rightarrow> block_header \<Rightarrow> bool" where
  "hdr_of x b \<longleftrightarrow> unat (b_size b) = len x \<and> b_magic b = HEAP_MAGIC \<and> (b_is_free b \<noteq> 0 \<longleftrightarrow> free x)"

text \<open>A doubly linked segment: from \<open>p\<close>, whose predecessor is \<open>pv\<close>, through the blocks to \<open>q\<close>,
  whose predecessor is \<open>pv'\<close>.\<close>

fun bseg :: "(ptr \<Rightarrow> block_header option) \<Rightarrow> ptr \<Rightarrow> ptr \<Rightarrow> block list \<Rightarrow> ptr \<Rightarrow> ptr \<Rightarrow> bool" where
  "bseg h pv p [] pv' q = (pv = pv' \<and> p = q)"
| "bseg h pv p (x # xs) pv' q =
     (p = at x \<and> p \<noteq> NULL \<and>
      (case h p of None \<Rightarrow> False
       | Some b \<Rightarrow> hdr_of x b \<and> b_prev b = pv \<and> bseg h p (b_next b) xs pv' q))"

text \<open>The blocks tile the addresses from \<open>lo\<close> to \<open>hi\<close>.\<close>

fun tiles :: "nat \<Rightarrow> block list \<Rightarrow> nat \<Rightarrow> bool" where
  "tiles lo [] hi = (lo = hi)"
| "tiles lo (x # xs) hi = (unat (at x) = lo \<and> 16 dvd len x \<and> tiles (lo + 32 + len x) xs hi)"

fun no_free_pair :: "block list \<Rightarrow> bool" where
  "no_free_pair (x # y # ys) = (\<not> (free x \<and> free y) \<and> no_free_pair (y # ys))"
| "no_free_pair _ = True"

definition free_bytes :: "block list \<Rightarrow> nat" where
  "free_bytes xs = (\<Sum>x \<leftarrow> xs. if free x then len x + 32 else 0)"

definition heap_lnk :: "heap_manager \<Rightarrow> block list \<Rightarrow> bool" where
  "heap_lnk h xs \<longleftrightarrow> xs \<noteq> [] \<and> bseg (hdrs h) NULL (first_block h) xs (last_block h) NULL \<and>
     tiles (unat (heap_start h)) xs (unat (heap_end h)) \<and> heap_start h \<noteq> 0 \<and>
     16 dvd unat (heap_start h) \<and> unat (heap_end h) = unat (heap_start h) + unat (heap_size h) \<and>
     unat (heap_size h) < 2 ^ 32"

definition heap_ok :: "heap_manager \<Rightarrow> block list \<Rightarrow> bool" where
  "heap_ok h xs \<longleftrightarrow> heap_lnk h xs \<and> no_free_pair xs \<and> unat (free_size h) = free_bytes xs"

section \<open>Segments and tilings\<close>

lemma bseg_append:
  "bseg h pv p (xs @ ys) pv' q \<longleftrightarrow> (\<exists>m r. bseg h pv p xs m r \<and> bseg h m r ys pv' q)"
  by (induction xs arbitrary: pv p) (auto split: option.splits)

lemma bseg_upd [simp]: "a \<notin> at ` set xs \<Longrightarrow> bseg (h(a := v)) pv p xs pv' q = bseg h pv p xs pv' q"
  by (induction xs arbitrary: pv p) (auto split: option.splits)

lemma bseg_ends:
  "bseg h pv p xs pv' q \<Longrightarrow> p = (if xs = [] then q else at (hd xs)) \<and> pv' = (if xs = [] then pv else at (last xs))"
proof (induction xs arbitrary: pv p)
  case (Cons x xs)
  then show ?case by (cases xs) (auto split: option.splits)
qed simp

lemma bseg_nonnull: "bseg h pv p xs pv' q \<Longrightarrow> x \<in> set xs \<Longrightarrow> at x \<noteq> NULL"
  by (induction xs arbitrary: pv p) (auto split: option.splits)

lemma tiles_append: "tiles lo (xs @ ys) hi \<longleftrightarrow> (\<exists>m. tiles lo xs m \<and> tiles m ys hi)"
  by (induction xs arbitrary: lo) auto

lemma tiles_le: "tiles lo xs hi \<Longrightarrow> lo \<le> hi"
  by (induction xs arbitrary: lo) force+

lemma tiles_range:
  "tiles lo xs hi \<Longrightarrow> x \<in> set xs \<Longrightarrow> lo \<le> unat (at x) \<and> unat (at x) + 32 + len x \<le> hi"
proof (induction xs arbitrary: lo)
  case (Cons y ys)
  show ?case
  proof (cases "x = y")
    case True
    then show ?thesis using Cons.prems tiles_le [of "lo + 32 + len y" ys hi] by auto
  next
    case False
    then show ?thesis using Cons.prems Cons.IH [of "lo + 32 + len y"] by auto
  qed
qed simp

lemma tiles_distinct: "tiles lo xs hi \<Longrightarrow> distinct (map at xs)"
proof (induction xs arbitrary: lo)
  case (Cons x xs)
  then show ?case using tiles_range [of "lo + 32 + len x" xs hi] by force
qed simp

lemma tiles_sep:
  assumes "tiles lo (as @ x # bs) hi" "y \<in> set as \<union> set bs"
  shows "unat (at y) + 32 + len y \<le> unat (at x) \<or> unat (at x) + 32 + len x \<le> unat (at y)"
proof -
  obtain m where "tiles lo as m" "tiles m (x # bs) hi" using assms(1) by (auto simp: tiles_append)
  then show ?thesis using assms(2) tiles_range [of lo as m y] tiles_range [of "m + 32 + len x" bs hi y] by auto
qed

lemma no_free_pair_Cons:
  "no_free_pair (x # xs) \<longleftrightarrow> no_free_pair xs \<and> (xs \<noteq> [] \<longrightarrow> \<not> (free x \<and> free (hd xs)))"
  by (cases xs) auto

lemma no_free_pair_append:
  "no_free_pair (xs @ ys) \<longleftrightarrow> no_free_pair xs \<and> no_free_pair ys \<and>
     (xs \<noteq> [] \<longrightarrow> ys \<noteq> [] \<longrightarrow> \<not> (free (last xs) \<and> free (hd ys)))"
proof (induction xs)
  case (Cons x xs)
  then show ?case by (cases xs) (auto simp: no_free_pair_Cons)
qed simp

lemma free_bytes_simps [simp]:
  "free_bytes [] = 0" "free_bytes (x # xs) = (if free x then len x + 32 else 0) + free_bytes xs"
  "free_bytes (xs @ ys) = free_bytes xs + free_bytes ys"
  by (simp_all add: free_bytes_def)

lemma tiles_free_bytes: "tiles lo xs hi \<Longrightarrow> lo + free_bytes xs \<le> hi"
  by (induction xs arbitrary: lo) force+

section \<open>Allocating\<close>

text \<open>First fit on the abstract list: the first free block that is large enough is taken, and split
  when more than a header and 16 bytes would be left.\<close>

definition take_block :: "nat \<Rightarrow> block \<Rightarrow> block list" where
  "take_block n x =
     (if len x > n + 48 then [blk (at x) n False, blk (at x + 32 + of_nat n) (len x - n - 32) True]
      else [blk (at x) (len x) False])"

fun alloc_blocks :: "nat \<Rightarrow> block list \<Rightarrow> (ptr \<times> block list) option" where
  "alloc_blocks n [] = None"
| "alloc_blocks n (x # xs) =
     (if free x \<and> n \<le> len x then Some (at x + 32, take_block n x @ xs)
      else map_option (\<lambda>(p, ys). (p, x # ys)) (alloc_blocks n xs))"

definition fits :: "nat \<Rightarrow> block \<Rightarrow> bool" where
  "fits n x \<longleftrightarrow> free x \<and> n \<le> len x"

lemma alloc_blocks_None: "alloc_blocks n xs = None \<longleftrightarrow> (\<forall>x \<in> set xs. \<not> fits n x)"
  by (induction xs) (auto simp: fits_def)

lemma alloc_blocks_Some:
  assumes "alloc_blocks n xs = Some (p, ys)"
  obtains as x bs where "xs = as @ x # bs" "\<forall>y \<in> set as. \<not> fits n y" "fits n x" "p = at x + 32"
    "ys = as @ take_block n x @ bs"
proof -
  have "\<exists>as x bs. xs = as @ x # bs \<and> (\<forall>y \<in> set as. \<not> fits n y) \<and> fits n x \<and> p = at x + 32 \<and>
      ys = as @ take_block n x @ bs"
    using assms
  proof (induction xs arbitrary: ys)
    case (Cons z zs)
    show ?case
    proof (cases "fits n z")
      case True
      then show ?thesis using Cons.prems by (intro exI [of _ "[]"]) (auto simp: fits_def)
    next
      case False
      then obtain ys' where y: "alloc_blocks n zs = Some (p, ys')" "ys = z # ys'"
        using Cons.prems by (auto simp: fits_def)
      obtain as x bs where "zs = as @ x # bs" "\<forall>y \<in> set as. \<not> fits n y" "fits n x" "p = at x + 32"
        "ys' = as @ take_block n x @ bs" using Cons.IH [OF y(1)] by blast
      then show ?thesis using y(2) False by (intro exI [of _ "z # as"]) auto
    qed
  qed simp
  then show thesis using that by blast
qed

lemma find_none:
  assumes "bseg (hdrs h) pv p xs pv' NULL" "\<forall>x \<in> set xs. \<not> fits (unat sz) x"
  shows "heap_find sz p h = Some (Ret NULL h)"
  using assms
proof (induction xs arbitrary: pv p)
  case Nil
  then show ?case by (simp add: heap_find.simps)
next
  case (Cons x xs)
  then obtain b where b: "hdrs h p = Some b" "hdr_of x b" "p \<noteq> NULL" "bseg (hdrs h) p (b_next b) xs pv' NULL"
    by (auto split: option.splits)
  have "\<not> (b_is_free b \<noteq> 0 \<and> ucast (b_size b) \<ge> sz)"
    using b(2) Cons.prems(2) by (auto simp: hdr_of_def fits_def word_le_nat_alt)
  then show ?case
    using b Cons.IH [OF b(4)] Cons.prems(2) by (subst heap_find.simps) auto
qed

lemma find_first:
  assumes "bseg (hdrs h) pv p (as @ x # bs) pv' NULL" "\<forall>y \<in> set as. \<not> fits (unat sz) y" "fits (unat sz) x"
  shows "\<exists>c. hdrs h (at x) = Some c \<and> hdr_of x c \<and> heap_find sz p h = Some (heap_take sz (at x) c h)"
  using assms
proof (induction as arbitrary: pv p)
  case Nil
  then obtain b where b: "hdrs h p = Some b" "hdr_of x b" "p = at x" "p \<noteq> NULL" by (auto split: option.splits)
  then have "b_is_free b \<noteq> 0 \<and> ucast (b_size b) \<ge> sz"
    using Nil.prems(3) by (auto simp: hdr_of_def fits_def word_le_nat_alt)
  then show ?case using b by (subst heap_find.simps) auto
next
  case (Cons y as)
  then obtain b where b: "hdrs h p = Some b" "hdr_of y b" "p \<noteq> NULL"
    "bseg (hdrs h) p (b_next b) (as @ x # bs) pv' NULL"
    by (auto split: option.splits)
  have "\<not> (b_is_free b \<noteq> 0 \<and> ucast (b_size b) \<ge> sz)"
    using b(2) Cons.prems(2) by (auto simp: hdr_of_def fits_def word_le_nat_alt)
  then show ?case
    using b Cons.IH [OF b(4)] Cons.prems(2,3) by (subst heap_find.simps) auto
qed

text \<open>The invariant around one block of the list.\<close>

lemma heap_lnk_block:
  assumes ok: "heap_lnk h (as @ x # bs)"
  obtains c where "hdrs h (at x) = Some c" "hdr_of x c" "at x \<noteq> NULL"
    "bseg (hdrs h) NULL (first_block h) as (b_prev c) (at x)"
    "bseg (hdrs h) (at x) (b_next c) bs (last_block h) NULL"
    "b_next c = (if bs = [] then NULL else at (hd bs))"
    "b_prev c = (if as = [] then NULL else at (last as))"
    "at x \<notin> at ` set as" "at x \<notin> at ` set bs" "unat (at x) + 32 + len x < 2 ^ 64" "len x < 2 ^ 32"
    "at ` set as \<inter> at ` set bs = {}"
proof -
  obtain m where s: "bseg (hdrs h) NULL (first_block h) as m (at x)"
    "bseg (hdrs h) m (at x) (x # bs) (last_block h) NULL"
    using ok by (auto simp: heap_lnk_def bseg_append)
  then obtain c where c: "hdrs h (at x) = Some c" "hdr_of x c" "at x \<noteq> NULL" "b_prev c = m"
    "bseg (hdrs h) (at x) (b_next c) bs (last_block h) NULL"
    by (auto split: option.splits)
  have t: "tiles (unat (heap_start h)) (as @ x # bs) (unat (heap_end h))"
    using ok unfolding heap_lnk_def by blast
  have "unat (at x) + 32 + len x \<le> unat (heap_end h)" using tiles_range [OF t] by simp
  then have "unat (at x) + 32 + len x < 2 ^ 64" using unat_u64_less [of "heap_end h"] by simp
  moreover have "len x < 2 ^ 32" using c(2) unat_u32_less [of "b_size c"] by (simp add: hdr_of_def)
  moreover have "distinct (map at (as @ x # bs))" by (rule tiles_distinct [OF t])
  ultimately show thesis
    using that [OF c(1-3)] c(4,5) s(1) bseg_ends [OF s(1)] bseg_ends [OF c(5)] by auto
qed

lemma heap_okI:
  assumes "heap_ok h xs" "heap_start h' = heap_start h" "heap_end h' = heap_end h" "heap_size h' = heap_size h"
    and "xs' \<noteq> []" "bseg (hdrs h') NULL (first_block h') xs' (last_block h') NULL"
    and "tiles (unat (heap_start h)) xs' (unat (heap_end h))" "no_free_pair xs'"
    and "unat (free_size h') = free_bytes xs'"
  shows "heap_ok h' xs'"
  using assms unfolding heap_ok_def heap_lnk_def by simp

lemma heap_lnkI:
  assumes "heap_lnk h xs" "heap_start h' = heap_start h" "heap_end h' = heap_end h" "heap_size h' = heap_size h"
    and "xs' \<noteq> []" "bseg (hdrs h') NULL (first_block h') xs' (last_block h') NULL"
    and "tiles (unat (heap_start h)) xs' (unat (heap_end h))"
  shows "heap_lnk h' xs'"
  using assms unfolding heap_lnk_def by simp

lemma heap_ok_tiles:
  assumes "heap_ok h xs"
  shows "tiles (unat (heap_start h)) xs (unat (heap_end h))" "unat (free_size h) = free_bytes xs"
    "no_free_pair xs" "xs \<noteq> []"
  using assms unfolding heap_ok_def heap_lnk_def by blast+

lemmas heap_ok_lnk = heap_ok_def [THEN iffD1, THEN conjunct1]
lemmas heap_ok_block = heap_lnk_block [OF heap_ok_lnk]

text \<open>What \<open>heap_take\<close> charges to \<open>free_size\<close>.\<close>

lemma free_size_sub:
  fixes f :: u64 and s :: u32
  assumes "unat s + 32 \<le> unat f"
  shows "unat (f - (ucast s + sizeof_block_header)) = unat f - (unat s + 32)"
proof -
  have "unat (ucast s + (32 :: u64)) = unat s + 32"
    using unat_u32_less [of s] by (subst unat_add_no_wrap) simp_all
  then show ?thesis using assms by (simp add: sizeof_block_header_def unat_sub_le)
qed

lemma upd_hdr_sel [simp]:
  "first_block (upd_hdr p f h) = first_block h" "last_block (upd_hdr p f h) = last_block h"
  "heap_start (upd_hdr p f h) = heap_start h" "heap_end (upd_hdr p f h) = heap_end h"
  "heap_size (upd_hdr p f h) = heap_size h" "free_size (upd_hdr p f h) = free_size h"
  "hdrs (upd_hdr p f h) = (hdrs h)(p := map_option f (hdrs h p))"
  by (simp_all add: upd_hdr_def)

lemma with_hdr_Some [exec_simps]: "hdrs h p = Some b \<Longrightarrow> with_hdr h p k = k b"
  by (simp add: with_hdr_def)

text \<open>Taking a block whole.\<close>

lemma take_whole:
  assumes ok: "heap_ok h (as @ blk a l True # bs)" and n: "unat sz \<le> l" "l \<le> unat sz + 48"
    and c: "hdrs h a = Some c" "hdr_of (blk a l True) c"
  shows "\<exists>h'. heap_take sz a c h = Ret (a + 32) h' \<and> heap_ok h' (as @ blk a l False # bs)"
proof -
  note t = heap_ok_tiles [OF ok]
  obtain c' where c': "hdrs h a = Some c'" "a \<noteq> NULL"
    "bseg (hdrs h) NULL (first_block h) as (b_prev c') a"
    "bseg (hdrs h) a (b_next c') bs (last_block h) NULL"
    "a \<notin> at ` set as" "a \<notin> at ` set bs" "l < 2 ^ 32"
    by (rule heap_ok_block [OF ok]) auto
  have cc: "c' = c" using c(1) c'(1) by simp
  have sz: "unat (sz + 32 + 16) = unat sz + 48"
    using n(1) c'(7) by (subst unat_add_no_wrap; simp add: unat_add_no_wrap)+
  have lc: "unat (b_size c) = l" using c(2) by (simp add: hdr_of_def)
  then have whole: "\<not> sz + sizeof_block_header + 16 < ucast (b_size c)"
    using n(2) sz by (simp add: sizeof_block_header_def word_less_nat_alt)
  let ?h' = "upd_hdr a (b_is_free_update (\<lambda>_. 0)) h
    \<lparr>free_size := free_size h - (ucast (b_size c) + sizeof_block_header)\<rparr>"
  have "heap_take sz a c h = Ret (a + 32) ?h'"
    using whole c(1) by (simp add: heap_take_def exec_simps Let_def sizeof_block_header_def)
  moreover have "heap_ok ?h' (as @ blk a l False # bs)"
  proof (rule heap_okI [OF ok])
    show "bseg (hdrs ?h') NULL (first_block ?h') (as @ blk a l False # bs) (last_block ?h') NULL"
      using c' c cc by (auto simp: bseg_append hdr_of_def)
    have "unat (b_size c) + 32 \<le> unat (free_size h)" using t(2) lc by simp
    then show "unat (free_size ?h') = free_bytes (as @ blk a l False # bs)"
      using t(2) lc by (simp add: free_size_sub)
  qed (use t in \<open>auto simp: tiles_append no_free_pair_append no_free_pair_Cons\<close>)
  ultimately show ?thesis by blast
qed

text \<open>Splitting a block: the header of the rest is written inside the old block.\<close>

lemma split_sizes:
  fixes c :: block_header and sz :: u64
  assumes "unat sz + 48 < unat (b_size c)"
  shows "unat (ucast (ucast (b_size c) - sz - (32 :: u64)) :: u32) = unat (b_size c) - unat sz - 32"
    "unat (ucast sz :: u32) = unat sz" "unat (sz + 32 + 16) = unat sz + 48"
proof -
  have l: "unat (b_size c) < 2 ^ 32" by (rule unat_u32_less)
  have "unat (ucast (b_size c) - sz - (32 :: u64)) = unat (b_size c) - unat sz - 32"
    using assms by (simp add: unat_sub_le)
  then show "unat (ucast (ucast (b_size c) - sz - (32 :: u64)) :: u32) = unat (b_size c) - unat sz - 32"
    using l by (subst unat_ucast_down) simp_all
  show "unat (ucast sz :: u32) = unat sz" using assms l by (intro unat_ucast_down) simp
  show "unat (sz + 32 + 16) = unat sz + 48"
    using assms l by (subst unat_add_no_wrap; simp add: unat_add_no_wrap)+
qed

lemma new_block_fresh:
  assumes ok: "heap_ok h (as @ blk a l True # bs)" and n: "unat sz + 48 < l"
  shows "unat (a + 32 + sz) = unat a + 32 + unat sz" "a + 32 + sz \<noteq> NULL" "a + 32 + sz \<noteq> a"
    "a + 32 + sz \<notin> at ` set as" "a + 32 + sz \<notin> at ` set bs"
proof -
  have b: "unat a + 32 + l < 2 ^ 64" by (rule heap_ok_block [OF ok]) auto
  have "unat (a + 32) = unat a + 32" using b by (subst unat_add_no_wrap) simp_all
  then show u: "unat (a + 32 + sz) = unat a + 32 + unat sz"
    using b n by (subst unat_add_no_wrap) simp_all
  then show "a + 32 + sz \<noteq> NULL" using unat_zero_iff [of "a + 32 + sz"] by linarith
  show "a + 32 + sz \<noteq> a"
  proof
    assume "a + 32 + sz = a"
    then have "unat (a + 32 + sz) = unat a" by (rule arg_cong)
    with u show False by linarith
  qed
  have "at y \<noteq> a + 32 + sz" if "y \<in> set as \<union> set bs" for y
    using tiles_sep [OF heap_ok_tiles(1) [OF ok] that] u n by auto
  then show "a + 32 + sz \<notin> at ` set as" "a + 32 + sz \<notin> at ` set bs" by fastforce+
qed

text \<open>The heap after splitting the block at \<open>a\<close>, whose header was \<open>c\<close> and which \<open>bs\<close> follow.\<close>

definition split_rest :: "u64 \<Rightarrow> ptr \<Rightarrow> block_header \<Rightarrow> block_header" where
  "split_rest sz a c = \<lparr>b_size = ucast (ucast (b_size c) - sz - 32), b_magic = HEAP_MAGIC, b_is_free = 1,
     b_next = b_next c, b_prev = a\<rparr>"

definition split_hdrs :: "u64 \<Rightarrow> ptr \<Rightarrow> block_header \<Rightarrow> block list \<Rightarrow> heap_manager \<Rightarrow> ptr \<Rightarrow> block_header option" where
  "split_hdrs sz a c bs h =
     (let a' = a + 32 + sz;
          H = (hdrs h)(a' \<mapsto> split_rest sz a c, a \<mapsto> c\<lparr>b_size := ucast sz, b_next := a', b_is_free := 0\<rparr>)
      in if bs = [] then H else H(at (hd bs) := map_option (b_prev_update (\<lambda>_. a')) (hdrs h (at (hd bs)))))"

definition split_heap :: "u64 \<Rightarrow> ptr \<Rightarrow> block_header \<Rightarrow> block list \<Rightarrow> heap_manager \<Rightarrow> heap_manager" where
  "split_heap sz a c bs h = h\<lparr>hdrs := split_hdrs sz a c bs h,
     last_block := (if bs = [] then a + 32 + sz else last_block h),
     free_size := free_size h - (ucast (ucast sz :: u32) + sizeof_block_header)\<rparr>"

lemma take_split_run:
  assumes big: "sz + 32 + 16 < ucast (b_size c)" and c: "hdrs h a = Some c" "a + 32 + sz \<noteq> a"
    and n: "b_next c = (if bs = [] then NULL else at (hd bs))"
    and hd: "bs \<noteq> [] \<Longrightarrow> at (hd bs) \<noteq> a \<and> at (hd bs) \<noteq> a + 32 + sz \<and> at (hd bs) \<noteq> NULL \<and> hdrs h (at (hd bs)) \<noteq> None"
  shows "heap_take sz a c h = Ret (a + 32) (split_heap sz a c bs h)"
proof (cases bs)
  case Nil
  then show ?thesis
    using big c n
    by (simp add: heap_take_def exec_simps Let_def sizeof_block_header_def upd_hdr_def split_heap_def split_hdrs_def
        split_rest_def)
next
  case (Cons y ys)
  then obtain yb where "hdrs h (at y) = Some yb" "at y \<noteq> a" "at y \<noteq> a + 32 + sz" "at y \<noteq> NULL" using hd by auto
  then show ?thesis
    using big c n Cons
    by (simp add: heap_take_def exec_simps Let_def sizeof_block_header_def upd_hdr_def split_heap_def split_hdrs_def
        split_rest_def fun_upd_twist)
qed

lemma take_split:
  assumes ok: "heap_ok h (as @ blk a l True # bs)" and n: "unat sz + 48 < l" "16 dvd unat sz"
    and c: "hdrs h a = Some c" "hdr_of (blk a l True) c"
  shows "\<exists>h'. heap_take sz a c h = Ret (a + 32) h' \<and>
    heap_ok h' (as @ blk a (unat sz) False # blk (a + 32 + sz) (l - unat sz - 32) True # bs)"
proof -
  let ?a' = "a + 32 + sz"
  note t = heap_ok_tiles [OF ok] and f = new_block_fresh [OF ok n(1)]
  obtain c' where c': "hdrs h a = Some c'" "a \<noteq> NULL"
    "bseg (hdrs h) NULL (first_block h) as (b_prev c') a"
    "bseg (hdrs h) a (b_next c') bs (last_block h) NULL"
    "b_next c' = (if bs = [] then NULL else at (hd bs))"
    "a \<notin> at ` set as" "a \<notin> at ` set bs" "at ` set as \<inter> at ` set bs = {}"
    by (rule heap_ok_block [OF ok]) auto
  have cc: "c' = c" using c(1) c'(1) by simp
  have lc: "unat (b_size c) = l" "b_magic c = HEAP_MAGIC" using c(2) by (simp_all add: hdr_of_def)
  note z = split_sizes [of sz c, unfolded lc(1), OF n(1)]
  have big: "sz + 32 + 16 < ucast (b_size c)" using z(3) n(1) lc(1) by (simp add: word_less_nat_alt)
  let ?r = "split_rest sz a c" and ?H = "split_hdrs sz a c bs h" and ?h = "split_heap sz a c bs h"
  have hd: "bs \<noteq> [] \<Longrightarrow> at (hd bs) \<noteq> a \<and> at (hd bs) \<noteq> ?a' \<and> at (hd bs) \<noteq> NULL \<and> at (hd bs) \<notin> at ` set as \<and>
      hdrs h (at (hd bs)) \<noteq> None \<and> at (hd bs) \<notin> at ` set (tl bs)"
    using c'(4,5,7,8) f(5) tiles_distinct [OF t(1)] by (cases bs) (auto split: option.splits)
  have run: "heap_take sz a c h = Ret (a + 32) ?h"
    using take_split_run [OF big c(1)] c'(5) cc f(3) hd by auto
  have "heap_ok ?h (as @ blk a (unat sz) False # blk ?a' (l - unat sz - 32) True # bs)"
  proof (rule heap_okI [OF ok])
    have "bseg ?H NULL (first_block h) as (b_prev c) a"
      using c'(3,6) cc f(4) hd by (simp add: split_hdrs_def Let_def)
    moreover have "bseg ?H ?a' (b_next c) bs (last_block ?h) NULL"
      using c'(4,5,7) cc f(5) hd by (cases bs) (auto simp: split_hdrs_def Let_def split_heap_def hdr_of_def split: option.splits)
    moreover have "?H a = Some (c\<lparr>b_size := ucast sz, b_next := ?a', b_is_free := 0\<rparr>)" "?H ?a' = Some ?r"
      using hd f(3) by (auto simp: split_hdrs_def Let_def)
    moreover have "hdr_of (blk ?a' (l - unat sz - 32) True) ?r"
      using z(1) lc by (simp add: hdr_of_def split_rest_def)
    ultimately show "bseg (hdrs ?h) NULL (first_block ?h)
        (as @ blk a (unat sz) False # blk ?a' (l - unat sz - 32) True # bs) (last_block ?h) NULL"
      using c'(2) f(2) z(2) lc(2) by (auto simp: bseg_append split_heap_def hdr_of_def split_rest_def)
    have "unat (ucast sz :: u32) + 32 \<le> unat (free_size h)" using t(2) z(2) n(1) by simp
    then show "unat (free_size ?h) = free_bytes (as @ blk a (unat sz) False # blk ?a' (l - unat sz - 32) True # bs)"
      using t(2) z(2) n(1) by (simp add: split_heap_def free_size_sub)
    have "tiles (unat a + 32 + l) bs (unat (heap_end h))" using t(1) by (auto simp: tiles_append)
    then have e: "tiles (32 + (unat a + l)) bs (unat (heap_end h))" by (simp only: ac_simps)
    show "tiles (unat (heap_start h)) (as @ blk a (unat sz) False # blk ?a' (l - unat sz - 32) True # bs)
        (unat (heap_end h))"
      using t(1) n f(1) e by (auto simp: tiles_append intro!: dvd_diff_nat)
  qed (use t(3) in \<open>auto simp: split_heap_def no_free_pair_append no_free_pair_Cons\<close>)
  with run show ?thesis by blast
qed

definition round16 :: "nat \<Rightarrow> nat" where
  "round16 n = (n + 15) div 16 * 16"

lemma round16: "n \<le> round16 n" "16 dvd round16 n" "round16 n < n + 16"
  unfolding round16_def by presburger+

lemma heap_take_refines:
  assumes ok: "heap_ok h (as @ x # bs)" and x: "fits (unat sz) x" "16 dvd unat sz"
    and c: "hdrs h (at x) = Some c" "hdr_of x c"
  shows "\<exists>h'. heap_take sz (at x) c h = Ret (at x + 32) h' \<and> heap_ok h' (as @ take_block (unat sz) x @ bs)"
proof -
  obtain a l where xb: "x = blk a l True" using x(1) by (cases x rule: blk_exhaust) (auto simp: fits_def)
  have l: "unat sz \<le> l" using x(1) xb by (simp add: fits_def)
  show ?thesis
  proof (cases "unat sz + 48 < l")
    case True
    then show ?thesis
      using take_split [of h as a l bs sz c] ok x(2) c by (simp add: xb take_block_def)
  next
    case False
    then show ?thesis
      using take_whole [of h as a l bs sz c] ok l c by (simp add: xb take_block_def)
  qed
qed

lemma kmalloc_refines:
  assumes ok: "heap_ok h xs" and r: "unat sz + 15 < 2 ^ 64"
  shows "case alloc_blocks (round16 (unat sz)) xs of
      None \<Rightarrow> heap_kmalloc sz h = Ret NULL h
    | Some (p, ys) \<Rightarrow> \<exists>h'. heap_kmalloc sz h = Ret p h' \<and> heap_ok h' ys"
proof -
  let ?sz = "(sz + 15) AND NOT 15"
  have sz: "unat ?sz = round16 (unat sz)" using unat_align16 [OF r] by (simp add: round16_def)
  have seg: "bseg (hdrs h) NULL (first_block h) xs (last_block h) NULL"
    using ok unfolding heap_ok_def heap_lnk_def by blast
  show ?thesis
  proof (cases "alloc_blocks (round16 (unat sz)) xs")
    case None
    then have "heap_find ?sz (first_block h) h = Some (Ret NULL h)"
      using find_none [OF seg, of ?sz] sz by (simp add: alloc_blocks_None)
    then show ?thesis using None by (simp add: heap_kmalloc_def)
  next
    case (Some py)
    then obtain p ys where py: "alloc_blocks (round16 (unat sz)) xs = Some (p, ys)" by (cases py) auto
    obtain as x bs where x: "xs = as @ x # bs" "\<forall>y \<in> set as. \<not> fits (round16 (unat sz)) y"
      "fits (round16 (unat sz)) x" "p = at x + 32" "ys = as @ take_block (round16 (unat sz)) x @ bs"
      by (rule alloc_blocks_Some [OF py])
    obtain c where c: "hdrs h (at x) = Some c" "hdr_of x c"
      "heap_find ?sz (first_block h) h = Some (heap_take ?sz (at x) c h)"
      using find_first [of h NULL "first_block h" as x bs "last_block h" ?sz] seg x sz by auto
    show ?thesis
      using heap_take_refines [of h as x bs ?sz c] ok x c sz round16(2) [of "unat sz"] py
      by (auto simp: heap_kmalloc_def)
  qed
qed

section \<open>Freeing\<close>

text \<open>The reference: mark the block free, then merge every pair of neighbouring free blocks.\<close>

fun merge_free :: "block list \<Rightarrow> block list" where
  "merge_free (x # y # ys) =
     (if free x \<and> free y then merge_free (blk (at x) (len x + 32 + len y) True # ys)
      else x # merge_free (y # ys))"
| "merge_free xs = xs"

lemma merge_free_id: "no_free_pair xs \<Longrightarrow> merge_free xs = xs"
  by (induction xs rule: merge_free.induct) auto

lemma merge_free_append:
  "no_free_pair (as @ [x]) \<Longrightarrow> merge_free (as @ x # bs) = as @ merge_free (x # bs)"
proof (induction as)
  case (Cons a as)
  show ?case
  proof (cases as)
    case Nil
    then show ?thesis using Cons.prems by auto
  next
    case (Cons b cs)
    then show ?thesis using Cons.IH Cons.prems by auto
  qed
qed simp

text \<open>One block absorbs its successor.\<close>

lemma absorb_size:
  assumes ok: "heap_lnk h (as @ blk k l f # blk g m f' # bs)"
    and c: "hdr_of (blk k l f) c" "hdr_of (blk g m f') d"
  shows "unat (ucast (ucast (b_size c) + (ucast (b_size d) + (32 :: u64))) :: u32) = l + 32 + m"
proof -
  have t: "tiles (unat (heap_start h)) (as @ blk k l f # blk g m f' # bs) (unat (heap_end h))"
    using ok unfolding heap_lnk_def by blast
  have "unat k + 32 + l + 32 + m \<le> unat (heap_end h)" "unat (heap_start h) \<le> unat k"
    using tiles_range [OF t, of "blk g m f'"] tiles_range [OF t, of "blk k l f"] t
    by (auto simp: tiles_append)
  then have sum: "l + 32 + m < 2 ^ 32" using ok unfolding heap_lnk_def by linarith
  have e: "unat (b_size c) = l" "unat (b_size d) = m" using c by (simp_all add: hdr_of_def)
  have i: "unat (ucast (b_size d) + (32 :: u64)) = m + 32"
    using sum e(2) by (subst unat_add_no_wrap) simp_all
  have "unat (ucast (b_size c) + (ucast (b_size d) + (32 :: u64))) = l + 32 + m"
    using sum e i by (subst unat_add_no_wrap) simp_all
  then show ?thesis using sum by (subst unat_ucast_down) simp_all
qed

lemma absorb_lnk:
  assumes ok: "heap_lnk h (as @ blk k l f # blk g m f' # bs)"
  shows "\<exists>h'. heap_absorb k g h = Ret () h' \<and> heap_lnk h' (as @ blk k (l + 32 + m) f # bs) \<and>
    free_size h' = free_size h"
proof -
  have t: "tiles (unat (heap_start h)) (as @ blk k l f # blk g m f' # bs) (unat (heap_end h))"
    using ok unfolding heap_lnk_def by blast
  obtain c where c: "hdrs h k = Some c" "hdr_of (blk k l f) c" "k \<noteq> NULL"
    "bseg (hdrs h) NULL (first_block h) as (b_prev c) k" "b_next c = g"
    "k \<notin> at ` set as" "k \<notin> at ` set (blk g m f' # bs)" "at ` set as \<inter> at ` set (blk g m f' # bs) = {}"
    by (rule heap_lnk_block [OF ok]) auto
  obtain d where d: "hdrs h g = Some d" "hdr_of (blk g m f') d"
    "bseg (hdrs h) g (b_next d) bs (last_block h) NULL"
    "b_next d = (if bs = [] then NULL else at (hd bs))" "g \<notin> at ` set bs"
    using ok by (auto intro: heap_lnk_block [of h "as @ [blk k l f]" "blk g m f'" bs])
  note sz = absorb_size [OF ok c(2) d(2)]
  define c' where "c' = c\<lparr>b_size := ucast (ucast (b_size c) + (ucast (b_size d) + (32 :: u64))), b_next := b_next d\<rparr>"
  define H where "H = (hdrs h)(k \<mapsto> c')"
  define H' where "H' = (if bs = [] then H else H(at (hd bs) := map_option (b_prev_update (\<lambda>_. k)) (hdrs h (at (hd bs)))))"
  define h' where "h' = h\<lparr>hdrs := H', last_block := (if bs = [] then k else last_block h)\<rparr>"
  have hd: "bs \<noteq> [] \<Longrightarrow> at (hd bs) \<noteq> k \<and> at (hd bs) \<noteq> NULL \<and> at (hd bs) \<notin> at ` set as \<and>
      hdrs h (at (hd bs)) \<noteq> None \<and> at (hd bs) \<notin> at ` set (tl bs)"
    using d(3,4) c(7,8) tiles_distinct [OF t] by (cases bs) (auto split: option.splits)
  have run: "heap_absorb k g h = Ret () h'"
  proof (cases bs)
    case Nil
    then show ?thesis
      using c(1) d(1,4)
      by (simp add: heap_absorb_def exec_simps Let_def sizeof_block_header_def upd_hdr_def h'_def H'_def H_def c'_def)
  next
    case (Cons y ys)
    then obtain yb where "hdrs h (at y) = Some yb" "at y \<noteq> k" "at y \<noteq> NULL" using hd by auto
    then show ?thesis
      using c(1) d(1,4) Cons
      by (simp add: heap_absorb_def exec_simps Let_def sizeof_block_header_def upd_hdr_def h'_def H'_def H_def c'_def)
  qed
  have "heap_lnk h' (as @ blk k (l + 32 + m) f # bs)"
  proof (rule heap_lnkI [OF ok])
    have "bseg H' NULL (first_block h) as (b_prev c) k"
      using c(4,6) hd by (simp add: H'_def H_def)
    moreover have "bseg H' k (b_next d) bs (last_block h') NULL"
      using d(3,4) c(7) hd by (cases bs) (auto simp: H'_def H_def h'_def hdr_of_def split: option.splits)
    moreover have "H' k = Some c'" using hd by (auto simp: H'_def H_def)
    moreover have "hdr_of (blk k (l + 32 + m) f) c'" "b_prev c' = b_prev c" "b_next c' = b_next d"
      using sz c(2) by (simp_all add: hdr_of_def c'_def)
    ultimately show "bseg (hdrs h') NULL (first_block h') (as @ blk k (l + 32 + m) f # bs) (last_block h') NULL"
      using c(3) by (auto simp: bseg_append h'_def)
    show "tiles (unat (heap_start h)) (as @ blk k (l + 32 + m) f # bs) (unat (heap_end h))"
      using t by (auto simp: tiles_append ac_simps)
  qed (simp_all add: h'_def)
  then show ?thesis using run by (auto simp: h'_def)
qed

text \<open>Freeing marks the block, merges it with a free successor, then with a free predecessor.\<close>

lemma free_size_add:
  assumes ok: "heap_lnk h (as @ blk a l False # bs)" and f: "unat (free_size h) = free_bytes (as @ blk a l False # bs)"
    and s: "unat s = l"
  shows "unat (free_size h + (ucast (s :: u32) + 32)) = free_bytes (as @ blk a l True # bs)"
proof -
  have "unat (heap_start h) + free_bytes (as @ blk a l True # bs) \<le> unat (heap_end h)"
    by (rule tiles_free_bytes) (use ok in \<open>auto simp: heap_lnk_def tiles_append\<close>)
  then have b: "free_bytes (as @ blk a l True # bs) < 2 ^ 64" using unat_u64_less [of "heap_end h"] by linarith
  have i: "unat (ucast s + (32 :: u64)) = l + 32" using s unat_u32_less [of s] by (subst unat_add_no_wrap) simp_all
  show ?thesis using b f i by (subst unat_add_no_wrap) simp_all
qed

lemma mark_free:
  assumes ok: "heap_ok h (as @ blk a l False # bs)" and c: "hdrs h a = Some c"
  shows "heap_lnk ((upd_hdr a (b_is_free_update (\<lambda>_. 1)) h)
      \<lparr>free_size := free_size h + (ucast (b_size c) + 32)\<rparr>) (as @ blk a l True # bs)"
    "unat (free_size h + (ucast (b_size c) + 32)) = free_bytes (as @ blk a l True # bs)"
proof -
  note t = heap_ok_tiles [OF ok]
  obtain c' where c': "hdrs h a = Some c'" "hdr_of (blk a l False) c'" "a \<noteq> NULL"
    "bseg (hdrs h) NULL (first_block h) as (b_prev c') a"
    "bseg (hdrs h) a (b_next c') bs (last_block h) NULL" "a \<notin> at ` set as" "a \<notin> at ` set bs"
    by (rule heap_ok_block [OF ok]) auto
  have cc: "c' = c" using c c'(1) by simp
  show "unat (free_size h + (ucast (b_size c) + 32)) = free_bytes (as @ blk a l True # bs)"
    by (rule free_size_add [OF heap_ok_lnk [OF ok] t(2)]) (use c'(2) cc in \<open>simp add: hdr_of_def\<close>)
  show "heap_lnk ((upd_hdr a (b_is_free_update (\<lambda>_. 1)) h)
      \<lparr>free_size := free_size h + (ucast (b_size c) + 32)\<rparr>) (as @ blk a l True # bs)"
    by (rule heap_lnkI [OF heap_ok_lnk [OF ok]])
       (use c' cc t(1) in \<open>auto simp: bseg_append tiles_append hdr_of_def\<close>)
qed

text \<open>The two merges, on a list in which only the marked block may have free neighbours.\<close>

definition merge_next :: "block \<Rightarrow> block list \<Rightarrow> block list" where
  "merge_next x bs = (case bs of y # ys \<Rightarrow> if free y then blk (at x) (len x + 32 + len y) (free x) # ys else x # bs
                      | [] \<Rightarrow> [x])"

lemma merge_next_run:
  assumes ok: "heap_lnk h (as @ x # bs)" and c: "hdrs h (at x) = Some c"
  shows "\<exists>h'. (if b_next c \<noteq> NULL
      then with_hdr h (b_next c) (\<lambda>n. if b_is_free n \<noteq> 0 then heap_absorb (at x) (b_next c) h else Ret () h)
      else Ret () h) = Ret () h' \<and> heap_lnk h' (as @ merge_next x bs) \<and> free_size h' = free_size h"
proof -
  obtain c' where c': "hdrs h (at x) = Some c'" "bseg (hdrs h) (at x) (b_next c') bs (last_block h) NULL"
    "b_next c' = (if bs = [] then NULL else at (hd bs))"
    by (rule heap_lnk_block [OF ok]) auto
  have cc: "c' = c" using c c'(1) by simp
  show ?thesis
  proof (cases bs)
    case Nil
    then show ?thesis using c' cc ok by (simp add: merge_next_def)
  next
    case (Cons y ys)
    then obtain d where d: "hdrs h (at y) = Some d" "hdr_of y d" "at y \<noteq> NULL" "b_next c = at y"
      using c'(2,3) cc by (auto split: option.splits)
    show ?thesis
    proof (cases "free y")
      case False
      then have "b_is_free d = 0" using d(2) by (simp add: hdr_of_def)
      then show ?thesis using d Cons False ok by (simp add: merge_next_def exec_simps)
    next
      case True
      have xy: "x = blk (at x) (len x) (free x)" "y = blk (at y) (len y) (free y)" by (simp_all add: blk_def)
      obtain h' where "heap_absorb (at x) (at y) h = Ret () h'"
        "heap_lnk h' (as @ blk (at x) (len x + 32 + len y) (free x) # ys)" "free_size h' = free_size h"
        using absorb_lnk [of h as "at x" "len x" "free x" "at y" "len y" "free y" ys] ok Cons xy by auto
      moreover have "b_is_free d \<noteq> 0" using True d(2) by (simp add: hdr_of_def)
      ultimately show ?thesis using d Cons True by (simp add: merge_next_def exec_simps)
    qed
  qed
qed

lemma merge_prev_run:
  assumes ok: "heap_lnk h (as @ x # bs)"
  shows "\<exists>h'. with_hdr h (at x) (\<lambda>b. if b_prev b \<noteq> NULL
      then with_hdr h (b_prev b) (\<lambda>p. if b_is_free p \<noteq> 0 then heap_absorb (b_prev b) (at x) h else Ret () h)
      else Ret () h) = Ret () h' \<and> free_size h' = free_size h \<and>
    heap_lnk h' (if as \<noteq> [] \<and> free (last as)
      then butlast as @ blk (at (last as)) (len (last as) + 32 + len x) True # bs else as @ x # bs)"
proof -
  obtain c where c: "hdrs h (at x) = Some c" "b_prev c = (if as = [] then NULL else at (last as))"
    by (rule heap_lnk_block [OF ok]) auto
  show ?thesis
  proof (cases as rule: rev_cases)
    case Nil
    then show ?thesis using c ok by (simp add: exec_simps)
  next
    case (snoc ps p)
    have ok': "heap_lnk h (ps @ p # x # bs)" using ok snoc by simp
    obtain d where d: "hdrs h (at p) = Some d" "hdr_of p d" "at p \<noteq> NULL"
      by (rule heap_lnk_block [OF ok'])
    show ?thesis
    proof (cases "free p")
      case False
      then have "b_is_free d = 0" using d(2) by (simp add: hdr_of_def)
      then show ?thesis using c d snoc False ok by (simp add: exec_simps)
    next
      case True
      have xy: "x = blk (at x) (len x) (free x)" "p = blk (at p) (len p) True" using True by (simp_all add: blk_def)
      obtain h' where "heap_absorb (at p) (at x) h = Ret () h'"
        "heap_lnk h' (ps @ blk (at p) (len p + 32 + len x) True # bs)" "free_size h' = free_size h"
        using absorb_lnk [of h ps "at p" "len p" True "at x" "len x" "free x" bs] ok' xy by auto
      moreover have "b_is_free d \<noteq> 0" using True d(2) by (simp add: hdr_of_def)
      ultimately show ?thesis using c d snoc True by (simp add: exec_simps)
    qed
  qed
qed

end
