(* ===== verification/Heap_Props.thy ===== *)
theory Heap_Props
  imports Heap_Inv
begin

text \<open>
  \<open>kfree\<close> of \<open>heap.c\<close> against its reference, the block list recovered from the headers, the
  allocator interface, and the properties of the kernel heap.
\<close>

section \<open>Freeing refines merging\<close>

lemma free_bytes_merge [simp]: "free_bytes (merge_free xs) = free_bytes xs"
  by (induction xs rule: merge_free.induct) auto

lemma merge_free_hd:
  "xs \<noteq> [] \<Longrightarrow> merge_free xs \<noteq> [] \<and> free (hd (merge_free xs)) = free (hd xs)"
  by (induction xs rule: merge_free.induct) auto

lemma no_free_pair_merge: "no_free_pair (merge_free xs)"
proof (induction xs rule: merge_free.induct)
  case (1 x y ys)
  then show ?case using merge_free_hd [of "y # ys"] by (auto simp: no_free_pair_Cons)
qed auto

lemma merge_free_next:
  assumes "no_free_pair bs" "free x"
  shows "merge_free (x # bs) = merge_next x bs"
proof (cases bs)
  case (Cons y ys)
  then show ?thesis
    using assms merge_free_id [of "y # ys"] merge_free_id [of "blk (at x) (len x + 32 + len y) True # ys"]
    by (auto simp: merge_next_def no_free_pair_Cons)
qed (simp add: merge_next_def)

lemma merge_free_both:
  assumes n: "no_free_pair (as @ blk a l False # bs)" and m: "merge_next (blk a l True) bs = x # cs"
  shows "merge_free (as @ blk a l True # bs) =
    (if as \<noteq> [] \<and> free (last as)
     then butlast as @ blk (at (last as)) (len (last as) + 32 + len x) True # cs else as @ x # cs)"
proof -
  have nb: "no_free_pair bs" "no_free_pair as" using n by (auto simp: no_free_pair_append no_free_pair_Cons)
  show ?thesis
  proof (cases "as \<noteq> [] \<and> free (last as)")
    case False
    then have "no_free_pair (as @ [blk a l True])" using nb(2) by (auto simp: no_free_pair_append)
    then show ?thesis
      using False merge_free_append merge_free_next [OF nb(1), of "blk a l True"] m by auto
  next
    case True
    then obtain ps p where as: "as = ps @ [p]" "free p" by (cases as rule: rev_cases) auto
    let ?q = "blk (at p) (len p + 32 + l) True"
    have "merge_free (as @ blk a l True # bs) = ps @ merge_free (p # blk a l True # bs)"
      using merge_free_append [of ps p] nb(2) as by simp
    also have "\<dots> = ps @ merge_next ?q bs" using as(2) merge_free_next [OF nb(1), of ?q] by simp
    also have "merge_next ?q bs = blk (at p) (len p + 32 + len x) True # cs"
      using m by (auto simp: merge_next_def split: list.splits if_splits)
    finally show ?thesis using as by simp
  qed
qed

lemma merge_next_Cons: "\<exists>x' cs. merge_next x bs = x' # cs \<and> at x' = at x"
  by (cases bs) (auto simp: merge_next_def)

lemma kfree_refines:
  assumes ok: "heap_ok h (as @ blk a l False # bs)"
  shows "\<exists>h'. heap_kfree (a + 32) h = Ret () h' \<and> heap_ok h' (merge_free (as @ blk a l True # bs))"
proof -
  obtain c where c: "hdrs h a = Some c" "hdr_of (blk a l False) c" "unat a + 32 + l < 2 ^ 64"
    by (rule heap_ok_block [OF ok]) auto
  have "unat (a + 32) = unat a + 32" using c(3) by (subst unat_add_no_wrap) simp_all
  then have nz: "a + 32 \<noteq> NULL" using unat_zero_iff [of "a + 32"] by linarith
  let ?h = "(upd_hdr a (b_is_free_update (\<lambda>_. 1)) h)\<lparr>free_size := free_size h + (ucast (b_size c) + 32)\<rparr>"
  note k = mark_free [OF ok c(1)]
  have c1: "hdrs ?h (at (blk a l True)) = Some (c\<lparr>b_is_free := 1\<rparr>)" using c(1) by simp
  have bn: "b_next (c\<lparr>b_is_free := 1\<rparr>) = b_next c" by simp
  obtain h1 where h1: "(if b_next c \<noteq> NULL
      then with_hdr ?h (b_next c) (\<lambda>n. if b_is_free n \<noteq> 0 then heap_absorb a (b_next c) ?h else Ret () ?h)
      else Ret () ?h) = Ret () h1"
    "heap_lnk h1 (as @ merge_next (blk a l True) bs)" "free_size h1 = free_size ?h"
    using merge_next_run [OF k(1) c1] unfolding blk_sel bn by (elim exE conjE)
  obtain x cs where m: "merge_next (blk a l True) bs = x # cs" "at x = a"
    using merge_next_Cons [of "blk a l True" bs] by auto
  obtain h' where h': "with_hdr h1 a (\<lambda>b. if b_prev b \<noteq> NULL
      then with_hdr h1 (b_prev b) (\<lambda>p. if b_is_free p \<noteq> 0 then heap_absorb (b_prev b) a h1 else Ret () h1)
      else Ret () h1) = Ret () h'" "free_size h' = free_size h1"
    "heap_lnk h' (merge_free (as @ blk a l True # bs))"
    using merge_prev_run [of h1 as x cs] h1(2) m merge_free_both [OF heap_ok_tiles(3) [OF ok] m(1)] by auto
  have "heap_kfree (a + 32) h = Ret () h'"
    using nz c h1(1) h'(1)
    by (simp add: heap_kfree_def sizeof_block_header_def exec_simps hdr_of_def)
  moreover have "heap_ok h' (merge_free (as @ blk a l True # bs))"
    unfolding heap_ok_def free_bytes_merge using h' h1(3) k(2) no_free_pair_merge by simp
  ultimately show ?thesis by blast
qed

section \<open>The block list of a heap\<close>

text \<open>Reading the list from the headers; a block takes at least 32 bytes, which bounds the walk.\<close>

fun walk :: "nat \<Rightarrow> (ptr \<Rightarrow> block_header option) \<Rightarrow> ptr \<Rightarrow> block list" where
  "walk 0 h p = []"
| "walk (Suc k) h p =
     (if p = NULL then []
      else case h p of None \<Rightarrow> []
           | Some b \<Rightarrow> blk p (unat (b_size b)) (b_is_free b \<noteq> 0) # walk k h (b_next b))"

definition blocks_of :: "heap_manager \<Rightarrow> block list" where
  "blocks_of h = walk (Suc (unat (heap_size h) div 32)) (hdrs h) (first_block h)"

lemma walk_bseg:
  assumes "bseg h pv p xs pv' NULL" "length xs < k"
  shows "walk k h p = xs"
  using assms
proof (induction xs arbitrary: pv p k)
  case Nil
  then show ?case by (cases k) auto
next
  case (Cons x xs)
  then obtain j where k: "k = Suc j" by (cases k) auto
  obtain b where b: "h p = Some b" "hdr_of x b" "p = at x" "p \<noteq> NULL" "bseg h p (b_next b) xs pv' NULL"
    using Cons.prems(1) by (auto split: option.splits)
  have "x = blk p (unat (b_size b)) (b_is_free b \<noteq> 0)" using b(2,3) by (cases x) (auto simp: blk_def hdr_of_def)
  then show ?case using b Cons.IH [OF b(5), of j] Cons.prems(2) k by simp
qed

lemma tiles_length: "tiles lo xs hi \<Longrightarrow> lo + 32 * length xs \<le> hi"
  by (induction xs arbitrary: lo) force+

lemma walk_lnk:
  assumes "heap_lnk h xs"
  shows "blocks_of h = xs"
proof -
  have t: "bseg (hdrs h) NULL (first_block h) xs (last_block h) NULL"
    "unat (heap_end h) = unat (heap_start h) + unat (heap_size h)"
    "tiles (unat (heap_start h)) xs (unat (heap_end h))"
    using assms unfolding heap_lnk_def by blast+
  have "32 * length xs \<le> unat (heap_size h)" using tiles_length [OF t(3)] t(2) by linarith
  then show ?thesis unfolding blocks_of_def by (intro walk_bseg [OF t(1)]) auto
qed

lemmas blocks_of_eq = walk_lnk [OF heap_ok_lnk]

definition heap_inv :: "heap_manager \<Rightarrow> bool" where
  "heap_inv h \<longleftrightarrow> heap_ok h (blocks_of h)"

lemma heap_inv_iff: "heap_ok h xs \<Longrightarrow> heap_inv h" "heap_inv h \<longleftrightarrow> (\<exists>xs. heap_ok h xs)"
  using blocks_of_eq by (auto simp: heap_inv_def)

section \<open>The allocator interface\<close>

text \<open>\<open>kmalloc\<close> for a client that does not look at faults: the heap is \<open>None\<close> once a call has faulted or
  not returned, and stays so; the laws of the interface are those of a heap that is still there.\<close>

definition heap_alloc :: "u64 \<Rightarrow> heap_manager option \<Rightarrow> ptr \<times> heap_manager option" where
  "heap_alloc sz m =
     (case m of None \<Rightarrow> (NULL, None)
      | Some h \<Rightarrow> (case heap_kmalloc sz h of Ret p h' \<Rightarrow> (p, Some h') | _ \<Rightarrow> (NULL, None)))"

definition data :: "block \<Rightarrow> nat set" where
  "data x = {unat (at x) + 32 ..< unat (at x) + 32 + len x}"

definition heap_owned :: "heap_manager \<Rightarrow> nat set" where
  "heap_owned h = (\<Union>x \<in> {x \<in> set (blocks_of h). \<not> free x}. data x)"

lemma request_no_wrap: "request_ok n \<Longrightarrow> unat n + 15 < 2 ^ 64"
  by (simp add: request_ok_def)

lemma data_unat:
  assumes "heap_ok h (as @ x # bs)"
  shows "unat (at x + 32) = unat (at x) + 32" "at x + 32 \<noteq> NULL"
proof -
  have "unat (at x) + 32 + len x < 2 ^ 64" by (rule heap_ok_block [OF assms])
  then show u: "unat (at x + 32) = unat (at x) + 32" by (subst unat_add_no_wrap) simp_all
  show "at x + 32 \<noteq> NULL" using u unat_zero_iff [of "at x + 32"] by linarith
qed

lemma heap_alloc_cases:
  assumes i: "heap_inv h" and r: "request_ok n"
  obtains (fail) "heap_kmalloc n h = Ret NULL h"
      "\<forall>x \<in> set (blocks_of h). \<not> fits (round16 (unat n)) x"
  | (alloc) as x bs h' where "blocks_of h = as @ x # bs" "fits (round16 (unat n)) x"
      "\<forall>y \<in> set as. \<not> fits (round16 (unat n)) y"
      "heap_kmalloc n h = Ret (at x + 32) h'"
      "heap_ok h' (as @ take_block (round16 (unat n)) x @ bs)"
proof -
  have ok: "heap_ok h (blocks_of h)" using i by (simp add: heap_inv_def)
  note ref = kmalloc_refines [OF ok request_no_wrap [OF r]]
  show thesis
  proof (cases "alloc_blocks (round16 (unat n)) (blocks_of h)")
    case None
    then have "heap_kmalloc n h = Ret NULL h" using ref by simp
    then show ?thesis using fail None by (simp add: alloc_blocks_None)
  next
    case (Some py)
    then obtain p ys where py: "alloc_blocks (round16 (unat n)) (blocks_of h) = Some (p, ys)" by (cases py) auto
    obtain as x bs where x: "blocks_of h = as @ x # bs" "\<forall>y \<in> set as. \<not> fits (round16 (unat n)) y"
      "fits (round16 (unat n)) x" "p = at x + 32" "ys = as @ take_block (round16 (unat n)) x @ bs"
      by (rule alloc_blocks_Some [OF py])
    obtain h' where "heap_kmalloc n h = Ret p h'" "heap_ok h' ys" using ref py by auto
    then show ?thesis using alloc [OF x(1,3,2)] x by simp
  qed
qed

lemma tiles_aligned:
  "tiles lo (as @ x # bs) hi \<Longrightarrow> 16 dvd lo \<Longrightarrow> 16 dvd unat (at x)"
proof (induction as arbitrary: lo)
  case (Cons a as)
  have "16 dvd lo + 32 + len a" using Cons.prems by simp
  then show ?case using Cons by auto
qed simp

lemma tiles_within:
  "tiles lo (as @ x # bs) hi \<Longrightarrow> lo \<le> unat (at x) \<and> unat (at x) + 32 + len x \<le> hi"
proof (induction as arbitrary: lo)
  case Nil
  have "lo \<le> hi" if "tiles lo xs hi" for lo xs using that by (induction xs arbitrary: lo) fastforce+
  then show ?case using Nil by fastforce
next
  case (Cons a as)
  then show ?case by fastforce
qed

lemma heap_owned_ok: "heap_ok h xs \<Longrightarrow> heap_owned h = (\<Union>x \<in> {x \<in> set xs. \<not> free x}. data x)"
  by (simp add: heap_owned_def blocks_of_eq)

lemma kmalloc_region:
  assumes i: "heap_inv h" and r: "request_ok n" and k: "heap_kmalloc n h = Ret p h'" and p: "p \<noteq> NULL"
  shows "region p n \<inter> heap_owned h = {}" "heap_owned h \<union> region p n \<subseteq> heap_owned h'" "16 dvd unat p"
    "region p n \<subseteq> {unat (heap_start h) ..< unat (heap_end h)}"
proof -
  have ok: "heap_ok h (blocks_of h)" using i by (simp add: heap_inv_def)
  obtain as x bs where x: "blocks_of h = as @ x # bs" "fits (round16 (unat n)) x" "p = at x + 32"
    "heap_ok h' (as @ take_block (round16 (unat n)) x @ bs)"
    using i r by (cases rule: heap_alloc_cases) (use k p in auto)
  note ok' = ok [unfolded x(1)] and o' = heap_owned_ok [OF x(4)]
  have u: "unat p = unat (at x) + 32" using data_unat(1) [OF ok'] x(3) by simp
  have n: "unat n \<le> round16 (unat n)" "round16 (unat n) \<le> len x" "free x"
    using round16(1) x(2) by (auto simp: fits_def)
  have sub: "region p n \<subseteq> data x" using u n by (auto simp: region_def data_def)
  have "data x \<inter> data y = {}" if "y \<in> set as \<union> set bs" for y
    using tiles_sep [OF heap_ok_tiles(1) [OF ok'] that] by (auto simp: data_def)
  then show "region p n \<inter> heap_owned h = {}"
    using sub n(3) by (auto simp: heap_owned_ok [OF ok'])
  have "region p n \<subseteq> data (hd (take_block (round16 (unat n)) x))"
    "\<not> free (hd (take_block (round16 (unat n)) x))" "take_block (round16 (unat n)) x \<noteq> []"
    using u n by (auto simp: region_def data_def take_block_def)
  then show "heap_owned h \<union> region p n \<subseteq> heap_owned h'"
    using n(3) by (fastforce simp: o' heap_owned_ok [OF ok'] neq_Nil_conv)
  have "tiles (unat (heap_start h)) (as @ x # bs) (unat (heap_end h))" "16 dvd unat (heap_start h)"
    using heap_ok_tiles(1) [OF ok'] ok' by (auto simp: heap_ok_def heap_lnk_def)
  then have a: "16 dvd unat (at x)" "unat (heap_start h) \<le> unat (at x)" "unat (at x) + 32 + len x \<le> unat (heap_end h)"
    using tiles_aligned tiles_within by blast+
  then show "16 dvd unat p" using u by simp
  show "region p n \<subseteq> {unat (heap_start h) ..< unat (heap_end h)}" using sub a(2,3) by (auto simp: data_def)
qed

text \<open>Every allowed request returns, and leaves the heap area where it is.\<close>

lemma find_area:
  assumes "heap_find sz cur h = Some r"
  shows "\<forall>p h'. r = Ret p h' \<longrightarrow> heap_start h' = heap_start h \<and> heap_end h' = heap_end h"
  by (rule heap_find.raw_induct [OF _ assms, where P =
        "\<lambda>sz cur h r. \<forall>p h'. r = Ret p h' \<longrightarrow> heap_start h' = heap_start h \<and> heap_end h' = heap_end h"])
     (auto simp: heap_take_def and_then_Ret_iff with_hdr_def upd_hdr_def Let_def
        split: if_splits option.splits exec.splits)

lemma kmalloc_area:
  assumes "heap_kmalloc n h = Ret p h'"
  shows "heap_start h' = heap_start h" "heap_end h' = heap_end h"
  using assms find_area by (auto simp: heap_kmalloc_def Let_def split: option.splits)

lemma kmalloc_returns:
  assumes "heap_inv h" "request_ok n"
  obtains p h' where "heap_kmalloc n h = Ret p h'" "heap_inv h'" "p = NULL \<longrightarrow> h' = h"
proof (cases rule: heap_alloc_cases [OF assms])
  case 1
  then show ?thesis using that assms(1) by blast
next
  case (2 as x bs h')
  have "heap_ok h (as @ x # bs)" using assms(1) 2(1) by (simp add: heap_inv_def)
  then show ?thesis using that 2(4) heap_inv_iff(1) [OF 2(5)] data_unat(2) by blast
qed

interpretation heapalloc: allocator heap_alloc "case_option False heap_inv" "case_option {} heap_owned"
proof
  fix m m' n p
  assume i: "case_option False heap_inv m" "request_ok n" and k: "heap_alloc n m = (p, m')"
  obtain h where h: "m = Some h" "heap_inv h" using i(1) by (cases m) auto
  obtain q h' where r: "heap_kmalloc n h = Ret q h'" "heap_inv h'" "q = NULL \<longrightarrow> h' = h"
    by (rule kmalloc_returns [OF h(2) i(2)])
  have e: "q = p" "m' = Some h'" using k h(1) r(1) by (simp_all add: heap_alloc_def)
  show "case_option False heap_inv m'" using e r(2) by simp
  show "p \<noteq> NULL \<Longrightarrow> region p n \<inter> case_option {} heap_owned m = {}"
    "p \<noteq> NULL \<Longrightarrow> case_option {} heap_owned m \<union> region p n \<subseteq> case_option {} heap_owned m'"
    using kmalloc_region(1,2) [OF h(2) i(2) r(1)] e h(1) by simp_all
next
  fix m m' n
  assume i: "case_option False heap_inv m" "request_ok n" and k: "heap_alloc n m = (NULL, m')"
  obtain h where h: "m = Some h" "heap_inv h" using i(1) by (cases m) auto
  obtain q h' where "heap_kmalloc n h = Ret q h'" "heap_inv h'" "q = NULL \<longrightarrow> h' = h"
    by (rule kmalloc_returns [OF h(2) i(2)])
  then show "m' = m" using k h(1) by (simp add: heap_alloc_def)
qed

lemma round16_diff: "round16 n - n = (if n mod 16 \<noteq> 0 then 16 - n mod 16 else 0)"
proof (cases "n mod 16 = 0")
  case True
  then have "(n + 15) div 16 = n div 16" by (simp add: div_add1_eq [of n "15" "16"])
  moreover have "n div 16 * 16 = n" using True by (simp add: mod_0_imp_dvd)
  ultimately show ?thesis using True by (simp add: round16_def)
next
  case False
  have "n mod 16 < 16" by simp
  then have "(n mod 16 + 15) div 16 = 1" using False by (intro div_nat_eqI) simp_all
  then have "(n + 15) div 16 = n div 16 + 1" by (simp add: div_add1_eq [of n "15" "16"])
  moreover have "n div 16 * 16 + n mod 16 = n" by simp
  ultimately have "round16 n + n mod 16 = n + 16" unfolding round16_def by linarith
  moreover have "n mod 16 < 16" by simp
  ultimately have "round16 n - n = 16 - n mod 16" by linarith
  then show ?thesis using False by simp
qed

section \<open>Properties\<close>

text \<open>\<open>heap_init\<close> on an area that does not wrap around, is below 4 GB and has room for two headers
  gives a heap that is one free block; its start is rounded up and its size down to 16 bytes.\<close>

theorem heap_init_correct:
  assumes "start \<noteq> 0" "unat start + unat sz < 2 ^ 64" "64 \<le> unat sz" "unat sz < 2 ^ 32"
  shows "\<exists>xs. heap_ok (heap_init start sz h) xs \<and> length xs = 1 \<and> free (hd xs) \<and>
    unat (at (hd xs)) = round16 (unat start) \<and>
    len (hd xs) + 32 = (unat sz - (round16 (unat start) - unat start)) div 16 * 16"
proof -
  define adj where "adj = (if start AND 15 \<noteq> 0 then 16 - (start AND 15) else 0)"
  have m: "unat (start AND 15) = unat start mod 16"
    using unat_and_mask4 [of start] by simp
  have adj: "unat adj = round16 (unat start) - unat start" "unat adj < 16"
  proof -
    have "unat adj = (if unat start mod 16 \<noteq> 0 then 16 - unat start mod 16 else 0)"
      using m unat_zero_iff [of "start AND 15"] by (auto simp: adj_def unat_sub_le)
    then show "unat adj = round16 (unat start) - unat start" "unat adj < 16"
      by (auto simp: round16_diff)
  qed
  have st: "unat (start + adj) = round16 (unat start)"
    using assms adj round16(1) [of "unat start"] by (subst unat_add_no_wrap) simp_all
  have s0: "unat (sz - adj) = unat sz - unat adj" using adj assms(3) by (simp add: unat_sub_le)
  define n where "n = (sz - adj) AND NOT 15"
  have n: "unat n = (unat sz - unat adj) div 16 * 16"
    using unat_and_not_mask [of "sz - adj" 4] s0 by (simp add: n_def mask_eq_exp_minus_1)
  have nb: "48 \<le> unat n" "unat n \<le> unat sz - unat adj"
  proof -
    have "48 \<le> unat sz - unat adj" using assms(3) adj(2) by linarith
    then have "48 div 16 \<le> (unat sz - unat adj) div 16" by (rule div_le_mono)
    then show "48 \<le> unat n" using n by simp
    show "unat n \<le> unat sz - unat adj" unfolding n by (simp add: div_times_less_eq_dividend)
  qed
  have e: "heap_init start sz h = h\<lparr>heap_start := start + adj, heap_end := start + adj + n, heap_size := n,
      free_size := n, hdrs := (hdrs h)(start + adj \<mapsto> \<lparr>b_size = ucast (n - sizeof_block_header),
        b_magic = HEAP_MAGIC, b_is_free = 1, b_next = NULL, b_prev = NULL\<rparr>),
      first_block := start + adj, last_block := start + adj\<rparr>"
    by (simp add: heap_init_def adj_def n_def Let_def)
  have sz1: "unat (ucast (n - 32) :: u32) = unat n - 32"
    using nb assms(4) by (subst unat_ucast_down) (simp_all add: unat_sub_le)
  have "unat (start + adj) + unat n < 2 ^ 64"
    using st adj nb(2) assms(2,3) round16(1) [of "unat start"] by linarith
  then have en: "unat (start + adj + n) = unat (start + adj) + unat n" by (intro unat_add_no_wrap) simp
  have nz: "start + adj \<noteq> 0"
    using st round16(1) [of "unat start"] assms(1) unat_zero_iff [of "start + adj"] unat_zero_iff [of start]
    by (metis le_zero_eq)
  have n16: "unat n < 2 ^ 32" "16 dvd unat n" using nb(2) assms(4) n by (linarith, simp)
  have "heap_ok (heap_init start sz h) [blk (start + adj) (unat n - 32) True]"
    unfolding heap_ok_def heap_lnk_def e
    using nb(1) nz st sz1 en n16 round16(2) [of "unat start"]
    by (auto simp: sizeof_block_header_def hdr_of_def intro!: dvd_diff_nat)
  then show ?thesis using st n nb adj by (intro exI [of _ "[blk (start + adj) (unat n - 32) True]"]) simp
qed

theorem heap_init_correct_witness:
  "\<exists>xs. heap_ok (heap_init 0x1003 0x1000 heap_manager0) xs \<and> length xs = 1 \<and> unat (at (hd xs)) = 0x1010"
proof -
  have "(0x1003 :: u64) \<noteq> 0" "unat (0x1003 :: u64) + unat (0x1000 :: u64) < 2 ^ 64"
    "64 \<le> unat (0x1000 :: u64)" "unat (0x1000 :: u64) < 2 ^ 32" by simp_all
  from heap_init_correct [OF this, of heap_manager0] show ?thesis by (auto simp: round16_def)
qed

text \<open>C12. \<open>kmalloc\<close> of the heap is first fit: the request is rounded up to 16 bytes; the first free block
  that is large enough is taken, split when more than a header and 16 bytes would be left over;
  if there is none the result is null and nothing changes. The search always ends, and the
  headers then describe exactly the reference's block list, which tiles the heap, has no two
  neighbouring free blocks and whose free bytes are what \<open>free_size\<close> says.\<close>

theorem heap_kmalloc_first_fit:
  assumes "heap_ok h xs" "unat sz + 15 < 2 ^ 64"
  shows "case alloc_blocks (round16 (unat sz)) xs of
      None \<Rightarrow> heap_kmalloc sz h = Ret NULL h
    | Some (p, ys) \<Rightarrow> \<exists>h'. heap_kmalloc sz h = Ret p h' \<and> heap_ok h' ys"
  using assms by (rule kmalloc_refines)

text \<open>A 4 KB heap at 0x1000.\<close>

definition heap4k :: heap_manager where
  "heap4k = heap_init 0x1000 0x1000 heap_manager0"

lemma heap4k_ok: "heap_ok heap4k [blk 0x1000 0xFE0 True]"
  by (simp add: heap_ok_def heap_lnk_def heap4k_def heap_init_def heap_manager0_def sizeof_block_header_def
      hdr_of_def HEAP_MAGIC_def)

theorem heap_kmalloc_first_fit_witness:
  "\<exists>h'. heap_kmalloc 100 heap4k = Ret 0x1020 h' \<and> heap_ok h' [blk 0x1000 112 False, blk 0x1090 3920 True]"
  using heap_kmalloc_first_fit [OF heap4k_ok, of 100] by (simp add: round16_def take_block_def)

text \<open>C13. \<open>kfree\<close> of an allocated block is the reference: mark it free and merge neighbouring free blocks.
  The three cases of the code (successor, predecessor, both) restore the invariant, the links in
  both directions and \<open>last_block\<close> included.\<close>

theorem heap_kfree_merges:
  assumes "heap_ok h (as @ blk a l False # bs)"
  shows "\<exists>h'. heap_kfree (a + 32) h = Ret () h' \<and> heap_ok h' (merge_free (as @ blk a l True # bs))"
  using assms by (rule kfree_refines)

text \<open>A heap with an allocated block between two free ones.\<close>

definition heap3 :: heap_manager where
  "heap3 = heap4k\<lparr>last_block := 0x10D0, free_size := 4032,
     hdrs := [0x1000 \<mapsto> \<lparr>b_size = 112, b_magic = HEAP_MAGIC, b_is_free = 1, b_next = 0x1090, b_prev = 0\<rparr>,
              0x1090 \<mapsto> \<lparr>b_size = 32, b_magic = HEAP_MAGIC, b_is_free = 0, b_next = 0x10D0, b_prev = 0x1000\<rparr>,
              0x10D0 \<mapsto> \<lparr>b_size = 3856, b_magic = HEAP_MAGIC, b_is_free = 1, b_next = 0, b_prev = 0x1090\<rparr>]\<rparr>"

lemma heap3_ok: "heap_ok heap3 ([blk 0x1000 112 True] @ blk 0x1090 32 False # [blk 0x10D0 3856 True])"
  by (simp add: heap_ok_def heap_lnk_def heap3_def heap4k_def heap_init_def heap_manager0_def hdr_of_def)

theorem heap_kfree_merges_witness:
  "\<exists>h'. heap_kfree 0x10B0 heap3 = Ret () h' \<and> heap_ok h' [blk 0x1000 4064 True]"
  using heap_kfree_merges [OF heap3_ok] by simp

text \<open>C14. Freeing what \<open>kmalloc\<close> has just returned restores the heap: the block list is the one from
  before the allocation, whether the block was split or not.\<close>

theorem heap_alloc_free:
  assumes "heap_inv h" "request_ok sz" "heap_kmalloc sz h = Ret p h1" "p \<noteq> NULL"
  shows "\<exists>h2. heap_kfree p h1 = Ret () h2 \<and> heap_ok h2 (blocks_of h)"
proof -
  have ok: "heap_ok h (blocks_of h)" using assms(1) by (simp add: heap_inv_def)
  obtain as x bs where x: "blocks_of h = as @ x # bs" "fits (round16 (unat sz)) x" "p = at x + 32"
    "heap_ok h1 (as @ take_block (round16 (unat sz)) x @ bs)"
    using assms(1,2) by (cases rule: heap_alloc_cases) (use assms(3,4) in auto)
  have f: "free x" "round16 (unat sz) \<le> len x" using x(2) by (auto simp: fits_def)
  have xb: "blk (at x) (len x) True = x" using f(1) by (simp add: blk_def)
  have n: "no_free_pair (as @ x # bs)" using heap_ok_tiles(3) [OF ok] x(1) by simp
  show ?thesis
  proof (cases "len x > round16 (unat sz) + 48")
    case False
    then have "take_block (round16 (unat sz)) x = [blk (at x) (len x) False]" by (simp add: take_block_def)
    then show ?thesis
      using kfree_refines [of h1 as "at x" "len x" bs] x xb merge_free_id [OF n] by simp
  next
    case True
    let ?l = "round16 (unat sz)"
    let ?y = "blk (at x + 32 + of_nat ?l) (len x - ?l - 32) True"
    have t: "take_block ?l x = [blk (at x) ?l False, ?y]" using True by (simp add: take_block_def)
    have na: "no_free_pair (as @ [blk (at x) ?l True])" "no_free_pair (x # bs)"
      using n f(1) by (auto simp: no_free_pair_append no_free_pair_Cons)
    have "merge_free (as @ blk (at x) ?l True # ?y # bs) = as @ merge_free (blk (at x) ?l True # ?y # bs)"
      by (rule merge_free_append [OF na(1)])
    also have "\<dots> = as @ merge_free (x # bs)" using True xb by simp
    also have "\<dots> = as @ x # bs" using merge_free_id [OF na(2)] by simp
    finally show ?thesis
      using kfree_refines [of h1 as "at x" ?l "?y # bs"] x t by simp
  qed
qed

theorem heap_alloc_free_witness:
  "\<exists>p h1 h2. heap_kmalloc 100 heap4k = Ret p h1 \<and> heap_kfree p h1 = Ret () h2 \<and> heap_ok h2 [blk 0x1000 0xFE0 True]"
proof -
  have i: "heap_inv heap4k" "blocks_of heap4k = [blk 0x1000 0xFE0 True]"
    using heap4k_ok heap_inv_iff(1) blocks_of_eq by blast+
  obtain h1 where h1: "heap_kmalloc 100 heap4k = Ret 0x1020 h1"
    using kmalloc_refines [OF heap4k_ok, of 100] by (auto simp: round16_def take_block_def)
  have "request_ok 100" by (simp add: request_ok_def)
  from heap_alloc_free [OF i(1) this h1] show ?thesis using h1 i(2) by auto
qed

text \<open>A sequence of requests, with the pointers it returns.\<close>

fun heap_kmallocs :: "u64 list \<Rightarrow> heap_manager \<Rightarrow> ((ptr \<times> u64) list, heap_manager) exec" where
  "heap_kmallocs [] h = Ret [] h"
| "heap_kmallocs (n # ns) h =
     and_then (heap_kmalloc n h) (\<lambda>p h. and_then (heap_kmallocs ns h) (\<lambda>bs h. Ret ((p, n) # bs) h))"

text \<open>A region handed out: aligned, and inside the heap area.\<close>

definition in_area :: "heap_manager \<Rightarrow> ptr \<times> u64 \<Rightarrow> bool" where
  "in_area h = (\<lambda>(p, n). p \<noteq> NULL \<longrightarrow> 16 dvd unat p \<and> region p n \<subseteq> {unat (heap_start h) ..< unat (heap_end h)})"

lemma kmallocs_run:
  assumes "heap_inv h" "\<forall>n \<in> set ns. request_ok n"
  shows "\<exists>bs h'. heap_kmallocs ns h = Ret bs h' \<and> alloc_seq heap_alloc ns (Some h) = (bs, Some h') \<and>
    map snd bs = ns \<and> (\<forall>b \<in> set bs. in_area h b)"
  using assms
proof (induction ns arbitrary: h)
  case Nil
  then show ?case by simp
next
  case (Cons n ns)
  have n: "request_ok n" "\<forall>n \<in> set ns. request_ok n" using Cons.prems(2) by simp_all
  obtain p h1 where h1: "heap_kmalloc n h = Ret p h1" "heap_inv h1"
    by (rule kmalloc_returns [OF Cons.prems(1) n(1)])
  obtain bs h' where r: "heap_kmallocs ns h1 = Ret bs h'" "alloc_seq heap_alloc ns (Some h1) = (bs, Some h')"
    "map snd bs = ns" "\<forall>b \<in> set bs. in_area h1 b" using Cons.IH [OF h1(2) n(2)] by blast
  have "in_area h (p, n)" using kmalloc_region(3,4) [OF Cons.prems(1) n(1) h1(1)] by (simp add: in_area_def)
  moreover have "in_area h1 = in_area h" using kmalloc_area [OF h1(1)] by (simp add: in_area_def)
  moreover have "heap_alloc n (Some h) = (p, Some h1)" using h1(1) by (simp add: heap_alloc_def)
  ultimately show ?case using h1(1) r by simp
qed

text \<open>C11. Over any sequence of requests (of less than \<open>2^63\<close> bytes each) to a well-formed heap every call returns, with \<open>NULL\<close> or with a region
  that starts on a 16-byte boundary, lies in the heap and outside everything handed out before; no two
  of the regions overlap, and the heap is well formed at the end.\<close>

theorem heap_regions_disjoint:
  assumes "heap_inv h" "\<forall>n \<in> set ns. request_ok n"
  shows "\<exists>bs h'. heap_kmallocs ns h = Ret bs h' \<and> map snd bs = ns \<and> heap_inv h' \<and> disjoint_blocks bs \<and>
    (\<forall>(p, n) \<in> set bs. p \<noteq> NULL \<longrightarrow> 16 dvd unat p \<and>
       region p n \<subseteq> {unat (heap_start h) ..< unat (heap_end h)} \<and> region p n \<inter> heap_owned h = {})"
proof -
  obtain bs h' where r: "heap_kmallocs ns h = Ret bs h'" "alloc_seq heap_alloc ns (Some h) = (bs, Some h')"
    "map snd bs = ns" "\<forall>b \<in> set bs. in_area h b" using kmallocs_run [OF assms] by blast
  have i: "case_option False heap_inv (Some h)" using assms(1) by simp
  note seq = heapalloc.alloc_seq_inv [OF i assms(2) r(2)] heapalloc.alloc_seq_disjoint [OF i assms(2) r(2)]
    heapalloc.alloc_seq_fresh [OF i assms(2) r(2)]
  then show ?thesis using r(1,3,4) by (intro exI [of _ bs] exI [of _ h']) (auto simp: in_area_def)
qed

theorem heap_regions_disjoint_witness:
  "\<exists>p q h'. heap_kmallocs [100, 200] heap4k = Ret [(p, 100), (q, 200)] h' \<and> disjoint_blocks [(p, 100), (q, 200)] \<and>
     p = 0x1020 \<and> heap_inv h'"
proof -
  have i: "heap_inv heap4k" using heap4k_ok heap_inv_iff(1) by blast
  have "\<forall>n \<in> set [100, 200]. request_ok n" by (simp add: request_ok_def)
  from heap_regions_disjoint [OF i this] obtain bs h' where
    r: "heap_kmallocs [100, 200] heap4k = Ret bs h'" "map snd bs = [100, 200]" "heap_inv h'" "disjoint_blocks bs"
    by (elim exE conjE)
  then obtain p q where bs: "bs = [(p, 100), (q, 200)]" by auto
  obtain h1 where "heap_kmalloc 100 heap4k = Ret 0x1020 h1"
    using kmalloc_refines [OF heap4k_ok, of 100] by (auto simp: round16_def take_block_def)
  then have "p = 0x1020" using r(1) bs by (auto simp: and_then_Ret_iff)
  then show ?thesis using r bs by blast
qed

text \<open>Nothing is lost to fragmentation in the end: when every block is free again, the heap is a
  single block over the whole area and \<open>heap_stats\<close> reports all of it as free.\<close>

theorem heap_all_free:
  assumes "heap_ok h xs" "\<forall>x \<in> set xs. free x"
  shows "xs = [blk (heap_start h) (unat (heap_size h) - 32) True] \<and> heap_stats h = (heap_size h, heap_size h)"
proof -
  note t = heap_ok_tiles [OF assms(1)]
  obtain x where x: "xs = [x]" using t(3,4) assms(2) by (cases xs rule: no_free_pair.cases) auto
  have e: "unat (heap_end h) = unat (heap_start h) + unat (heap_size h)"
    using assms(1) by (simp add: heap_ok_def heap_lnk_def)
  have "unat (at x) = unat (heap_start h)" "unat (heap_size h) = len x + 32" using t(1) x e by auto
  then have "at x = heap_start h" "unat (free_size h) = unat (heap_size h)"
    using t(2) x assms(2) by (auto simp: word_unat_eq_iff)
  then have "x = blk (heap_start h) (unat (heap_size h) - 32) True" "free_size h = heap_size h"
    using \<open>unat (heap_size h) = len x + 32\<close> assms(2) x by (auto simp: blk_def word_unat_eq_iff)
  then show ?thesis using x by (simp add: heap_stats_def)
qed

theorem heap_all_free_witness:
  "heap_stats heap4k = (0x1000, 0x1000)"
  using heap_all_free [OF heap4k_ok] by (simp add: heap4k_def heap_init_def)

text \<open>Rounding up wraps around: a request of \<open>2^64 - 1\<close> bytes is rounded to 0 and granted like one,
  so a caller that asked for all of memory is handed a block of no more than 48 bytes.\<close>

theorem heap_kmalloc_wraps:
  assumes "heap_ok h xs" "x \<in> set xs" "free x"
  shows "\<exists>p h' ys. heap_kmalloc (- 1) h = Ret p h' \<and> p \<noteq> NULL \<and> heap_ok h' ys \<and>
    (\<exists>y \<in> set ys. p = at y + 32 \<and> \<not> free y \<and> len y \<le> 48)"
proof -
  have z: "heap_kmalloc (- 1) h = heap_kmalloc 0 h" by (simp add: heap_kmalloc_def)
  have "alloc_blocks 0 xs \<noteq> None" using assms by (auto simp: alloc_blocks_None fits_def)
  then obtain p ys where py: "alloc_blocks 0 xs = Some (p, ys)" by auto
  obtain as y bs where y: "xs = as @ y # bs" "p = at y + 32" "ys = as @ take_block 0 y @ bs"
    by (rule alloc_blocks_Some [OF py])
  obtain h' where h': "heap_kmalloc 0 h = Ret p h'" "heap_ok h' ys"
    using kmalloc_refines [OF assms(1), of 0] py by (auto simp: round16_def)
  have "p \<noteq> NULL" using data_unat(2) [of h as y bs] assms(1) y by simp
  moreover have "\<exists>b \<in> set ys. p = at b + 32 \<and> \<not> free b \<and> len b \<le> 48"
    unfolding y(2,3) by (auto simp: take_block_def)
  ultimately show ?thesis using z h' by auto
qed

theorem heap_kmalloc_wraps_witness:
  "\<exists>p h'. heap_kmalloc (- 1) heap4k = Ret p h' \<and> p \<noteq> NULL"
  using heap_kmalloc_wraps [OF heap4k_ok, of "blk 0x1000 0xFE0 True"] by auto

text \<open>A double free is not noticed: the magic number of a free block is still valid, so freeing it
  again adds its size to \<open>free_size\<close> a second time, after which the accounting is wrong for good.\<close>

theorem heap_double_free:
  assumes ok: "heap_ok h (as @ blk a l True # bs)" and room: "unat (free_size h) + l + 32 < 2 ^ 64"
  shows "\<exists>h'. heap_kfree (a + 32) h = Ret () h' \<and> blocks_of h' = blocks_of h \<and>
    unat (free_size h') = unat (free_size h) + l + 32 \<and> \<not> heap_inv h'"
proof -
  note n = heap_ok_tiles(3) [OF ok]
  obtain c where c: "hdrs h a = Some c" "hdr_of (blk a l True) c" "unat a + 32 + l < 2 ^ 64" "a \<noteq> NULL"
    "bseg (hdrs h) NULL (first_block h) as (b_prev c) a"
    "bseg (hdrs h) a (b_next c) bs (last_block h) NULL" "a \<notin> at ` set as" "a \<notin> at ` set bs" "l < 2 ^ 32"
    by (rule heap_ok_block [OF ok]) auto
  have "unat (a + 32) = unat a + 32" using c(3) by (subst unat_add_no_wrap) simp_all
  then have nz: "a + 32 \<noteq> NULL" using unat_zero_iff [of "a + 32"] by linarith
  let ?h = "(upd_hdr a (b_is_free_update (\<lambda>_. 1)) h)\<lparr>free_size := free_size h + (ucast (b_size c) + 32)\<rparr>"
  have lnk: "heap_lnk ?h (as @ blk a l True # bs)"
    by (rule heap_lnkI [OF heap_ok_lnk [OF ok]])
       (use c heap_ok_tiles(1) [OF ok] in \<open>auto simp: bseg_append hdr_of_def\<close>)
  have c1: "hdrs ?h (at (blk a l True)) = Some (c\<lparr>b_is_free := 1\<rparr>)" using c(1) by simp
  have bn: "b_next (c\<lparr>b_is_free := 1\<rparr>) = b_next c" by simp
  have nb: "merge_next (blk a l True) bs = blk a l True # bs" "\<not> (as \<noteq> [] \<and> free (last as))"
    using n by (auto simp: merge_next_def no_free_pair_append no_free_pair_Cons split: list.splits)
  obtain h1 where h1: "(if b_next c \<noteq> NULL
      then with_hdr ?h (b_next c) (\<lambda>n. if b_is_free n \<noteq> 0 then heap_absorb a (b_next c) ?h else Ret () ?h)
      else Ret () ?h) = Ret () h1"
    "heap_lnk h1 (as @ blk a l True # bs)" "free_size h1 = free_size ?h"
    using merge_next_run [OF lnk c1] unfolding blk_sel bn nb(1) by (elim exE conjE)
  obtain h' where h': "with_hdr h1 a (\<lambda>b. if b_prev b \<noteq> NULL
      then with_hdr h1 (b_prev b) (\<lambda>p. if b_is_free p \<noteq> 0 then heap_absorb (b_prev b) a h1 else Ret () h1)
      else Ret () h1) = Ret () h'" "free_size h' = free_size h1" "heap_lnk h' (as @ blk a l True # bs)"
    using merge_prev_run [OF h1(2)] unfolding if_not_P [OF nb(2)] blk_sel by (elim exE conjE)
  have run: "heap_kfree (a + 32) h = Ret () h'"
    using nz c h1(1) h'(1) by (simp add: heap_kfree_def sizeof_block_header_def exec_simps hdr_of_def)
  have bl: "blocks_of h' = as @ blk a l True # bs" "blocks_of h = as @ blk a l True # bs"
    using walk_lnk [OF h'(3)] walk_lnk [OF heap_ok_lnk [OF ok]] by blast+
  have i: "unat (ucast (b_size c) + (32 :: u64)) = l + 32"
    using c(2,9) by (subst unat_add_no_wrap) (simp_all add: hdr_of_def)
  have fs: "unat (free_size h') = unat (free_size h) + l + 32"
    using h'(2) h1(3) i room by simp (subst unat_add_no_wrap; simp)
  moreover have "unat (free_size h) = free_bytes (blocks_of h')" using heap_ok_tiles(2) [OF ok] bl by simp
  ultimately have "\<not> heap_inv h'" by (simp add: heap_inv_def heap_ok_def)
  then show ?thesis using run fs bl by auto
qed

theorem heap_double_free_witness:
  "\<exists>h'. heap_kfree 0x1020 heap3 = Ret () h' \<and> unat (free_size h') = 4176 \<and> \<not> heap_inv h'"
proof -
  have "heap_ok heap3 ([] @ blk 0x1000 112 True # [blk 0x1090 32 False, blk 0x10D0 3856 True])"
    using heap3_ok by simp
  moreover have "unat (free_size heap3) = 4032" by (simp add: heap3_def)
  ultimately show ?thesis using heap_double_free [of heap3 "[]" "0x1000" 112] by auto
qed

end
