(* ===== verification/Heap_Live.thy ===== *)
theory Heap_Live
  imports Heap_Props
begin

text \<open>
  The heap of \<open>kernel/mm/heap.c\<close> as an allocator that takes memory back: the live blocks are the
  blocks of the list that are not free, and \<open>kfree\<close> of a live pointer takes exactly its block away.
\<close>

text \<open>\<open>kfree\<close> for the same client: \<open>None\<close> once a call has faulted.\<close>

definition heap_free :: "ptr \<Rightarrow> heap_manager option \<Rightarrow> heap_manager option" where
  "heap_free p m =
     (case m of None \<Rightarrow> None | Some h \<Rightarrow> (case heap_kfree p h of Ret _ h' \<Rightarrow> Some h' | _ \<Rightarrow> None))"

section \<open>Live blocks\<close>

definition used_blocks :: "block list \<Rightarrow> (ptr \<times> nat set) list" where
  "used_blocks xs = map (\<lambda>x. (at x + 32, data x)) (filter (\<lambda>x. \<not> free x) xs)"

definition heap_live :: "heap_manager \<Rightarrow> ptr \<Rightarrow> nat set option" where
  "heap_live h = map_of (used_blocks (blocks_of h))"

lemma used_blocks_simps [simp]:
  "used_blocks [] = []" "used_blocks (xs @ ys) = used_blocks xs @ used_blocks ys"
  "used_blocks (x # xs) = (if free x then used_blocks xs else (at x + 32, data x) # used_blocks xs)"
  by (simp_all add: used_blocks_def)

lemma used_blocks_merge [simp]: "used_blocks (merge_free xs) = used_blocks xs"
  by (induction xs rule: merge_free.induct) auto

lemma used_blocks_keys: "p \<in> fst ` set (used_blocks xs) \<Longrightarrow> p - 32 \<in> at ` set xs"
  by (auto simp: used_blocks_def)

lemma map_of_middle:
  assumes "k \<notin> fst ` set as"
  shows "map_of (as @ (k, v) # bs) = (map_of (as @ bs))(k \<mapsto> v)"
  using assms by (induction as) auto

lemma heap_live_ok: "heap_ok h xs \<Longrightarrow> heap_live h = map_of (used_blocks xs)"
  by (simp add: heap_live_def blocks_of_eq)

lemma live_block:
  assumes ok: "heap_ok h xs" and p: "heap_live h p = Some D"
  obtains as a l bs where "xs = as @ blk a l False # bs" "p = a + 32" "D = data (blk a l False)"
proof -
  have "(p, D) \<in> set (used_blocks xs)" using p map_of_SomeD by (fastforce simp: heap_live_ok [OF ok])
  then obtain x where x: "x \<in> set xs" "\<not> free x" "p = at x + 32" "D = data x"
    by (auto simp: used_blocks_def)
  obtain a l f where "x = blk a l f" by (rule blk_exhaust)
  moreover obtain as bs where "xs = as @ x # bs" using x(1) by (auto simp: in_set_conv_decomp)
  ultimately show ?thesis using that x by auto
qed

lemma outside_live:
  assumes "heap_ok h (as @ x # bs)"
  shows "at x + 32 \<notin> fst ` set (used_blocks as)" "at x + 32 \<notin> fst ` set (used_blocks bs)"
proof -
  have "at x \<notin> at ` set as" "at x \<notin> at ` set bs" using tiles_distinct [OF heap_ok_tiles(1) [OF assms]] by auto
  then show "at x + 32 \<notin> fst ` set (used_blocks as)" "at x + 32 \<notin> fst ` set (used_blocks bs)"
    using used_blocks_keys [of "at x + 32" as] used_blocks_keys [of "at x + 32" bs] by (simp_all add: imp_conjL) blast+
qed

lemma kfree_live:
  assumes ok: "heap_ok h (as @ blk a l False # bs)"
  shows "\<exists>h'. heap_kfree (a + 32) h = Ret () h' \<and> heap_inv h' \<and> heap_live h' = (heap_live h)(a + 32 := None)"
proof -
  obtain h' where h': "heap_kfree (a + 32) h = Ret () h'" "heap_ok h' (merge_free (as @ blk a l True # bs))"
    using kfree_refines [OF ok] by blast
  have k: "a + 32 \<notin> fst ` set (used_blocks as)" "a + 32 \<notin> fst ` set (used_blocks bs)"
    using outside_live [OF ok] by simp_all
  have "map_of (used_blocks as @ used_blocks bs) (a + 32) = None"
    using k by (simp add: map_of_eq_None_iff map_add_None)
  moreover have "heap_live h = (map_of (used_blocks as @ used_blocks bs))(a + 32 \<mapsto> data (blk a l False))"
    using map_of_middle [OF k(1)] by (simp add: heap_live_ok [OF ok] del: map_of_append)
  moreover have "heap_live h' = map_of (used_blocks as @ used_blocks bs)"
    by (simp add: heap_live_ok [OF h'(2)])
  ultimately have "heap_live h' = (heap_live h)(a + 32 := None)" by (simp add: fun_upd_idem)
  then show ?thesis using h'(1) heap_inv_iff(1) [OF h'(2)] by blast
qed

lemma kmalloc_live:
  assumes i: "heap_inv h" and r: "request_ok n" and k: "heap_kmalloc n h = Ret p h'" and p: "p \<noteq> NULL"
  shows "heap_live h p = None \<and> (\<exists>D. region p n \<subseteq> D \<and> heap_live h' = (heap_live h)(p \<mapsto> D))"
proof -
  have ok: "heap_ok h (blocks_of h)" using i by (simp add: heap_inv_def)
  obtain as x bs where x: "blocks_of h = as @ x # bs" "fits (round16 (unat n)) x" "p = at x + 32"
    "heap_ok h' (as @ take_block (round16 (unat n)) x @ bs)"
    using i r by (cases rule: heap_alloc_cases) (use k p in auto)
  note ok' = ok [unfolded x(1)] and o = outside_live [OF ok [unfolded x(1)], folded x(3)]
  have f: "free x" "round16 (unat n) \<le> len x" using x(2) by (simp_all add: fits_def)
  obtain D where D: "used_blocks (take_block (round16 (unat n)) x) = [(p, D)]" "region p n \<subseteq> D"
  proof
    let ?l = "if round16 (unat n) + 48 < len x then round16 (unat n) else len x"
    show "used_blocks (take_block (round16 (unat n)) x) = [(p, data (blk (at x) ?l False))]"
      by (simp add: take_block_def x(3))
    show "region p n \<subseteq> data (blk (at x) ?l False)"
      using f data_unat(1) [OF ok'] round16(1) [of "unat n"] x(3) by (auto simp: data_def region_def)
  qed
  have l: "heap_live h = map_of (used_blocks as @ used_blocks bs)"
    using f(1) by (simp add: heap_live_ok [OF ok'])
  have "heap_live h' = (heap_live h)(p \<mapsto> D)"
    using map_of_middle [OF o(1)] D(1) unfolding l heap_live_ok [OF x(4)] by (simp del: map_of_append)
  moreover have "heap_live h p = None"
    unfolding l using o by (simp add: map_of_eq_None_iff map_add_None)
  ultimately show ?thesis using D(2) by blast
qed

abbreviation live_of :: "heap_manager option \<Rightarrow> ptr \<Rightarrow> nat set option" where
  "live_of \<equiv> case_option Map.empty heap_live"

interpretation heapfree: reclaiming_allocator heap_alloc "case_option False heap_inv" "case_option {} heap_owned"
  heap_free live_of
proof
  fix m p D assume i: "case_option False heap_inv m" and p: "live_of m p = Some D"
  obtain h where h: "m = Some h" "heap_inv h" using i by (cases m) auto
  have ok: "heap_ok h (blocks_of h)" using h(2) by (simp add: heap_inv_def)
  have p': "heap_live h p = Some D" using p h(1) by simp
  obtain as a l bs where b: "blocks_of h = as @ blk a l False # bs" "p = a + 32" "D = data (blk a l False)"
    by (rule live_block [OF ok p'])
  show "D \<subseteq> case_option {} heap_owned m" using b(1,3) h(1) by (auto simp: heap_owned_ok [OF ok])
  show "case_option False heap_inv (heap_free p m)" "live_of (heap_free p m) = (live_of m)(p := None)"
    using kfree_live [OF ok [unfolded b(1)]] b(2) h(1) by (auto simp: heap_free_def)
  fix q E assume q: "live_of m q = Some E" "p \<noteq> q"
  obtain y where y: "y \<in> set (blocks_of h)" "q = at y + 32" "E = data y"
    by (rule live_block [OF ok, of q E]) (use q(1) h(1) in simp, metis in_set_conv_decomp blk_sel(1))
  then have "y \<in> set as \<union> set bs" using b(1,2) q(2) by auto
  then show "D \<inter> E = {}"
    using tiles_sep [OF heap_ok_tiles(1) [OF ok [unfolded b(1)]], of y] y(3) b(3) by (auto simp: data_def)
next
  fix m n p m' assume i: "case_option False heap_inv m" "request_ok n" "heap_alloc n m = (p, m')" "p \<noteq> NULL"
  obtain h where h: "m = Some h" "heap_inv h" using i(1) by (cases m) auto
  then obtain h' where h': "heap_kmalloc n h = Ret p h'" "m' = Some h'"
    using i(3,4) by (auto simp: heap_alloc_def split: exec.splits)
  show "live_of m p = None \<and> (\<exists>D. region p n \<subseteq> D \<and> live_of m' = (live_of m)(p \<mapsto> D))"
    using kmalloc_live [OF h(2) i(2) h'(1) i(4)] h(1) h'(2) by simp
qed

end
