(* ===== verification/Cache_Heap.thy ===== *)
theory Cache_Heap
  imports Cache_Props Heap_Live
begin

text \<open>
  The cache on top of an allocator that takes memory back, and on the kernel heap of
  \<open>kernel/mm/heap.c\<close>. Here an evicted block's memory is used again, so that the cache must free exactly
  what it owns: the invariant says which of the heap's live blocks are the cache's.
\<close>

section \<open>The invariant\<close>

text \<open>A live block at \<open>p\<close> of at least \<open>n\<close> bytes.\<close>

definition backed :: "(ptr \<Rightarrow> nat set option) \<Rightarrow> ptr \<Rightarrow> u64 \<Rightarrow> bool" where
  "backed L p n \<longleftrightarrow> (\<exists>D. L p = Some D \<and> region p n \<subseteq> D)"

lemma backedE:
  assumes "backed L p n"
  obtains D where "L p = Some D" "region p n \<subseteq> D"
  using assms by (auto simp: backed_def)

text \<open>The pointers the cache got from the allocator.\<close>

definition cache_ptrs :: "'m cache \<Rightarrow> ptr set" where
  "cache_ptrs s = cached s \<union> (\<lambda>p. c_data (cb s p)) ` cached s"

text \<open>Header and data of every cached block are different live blocks; the other live blocks are those
  of \<open>L0\<close>, unchanged.\<close>

definition cache_live :: "('m \<Rightarrow> bool) \<Rightarrow> ('m \<Rightarrow> ptr \<Rightarrow> nat set option) \<Rightarrow> (ptr \<Rightarrow> nat set option) \<Rightarrow> 'm cache \<Rightarrow> bool" where
  "cache_live ainv live L0 s \<longleftrightarrow> ainv (heap s) \<and> cache_table s \<and>
     (\<forall>p \<in> cached s. backed (live (heap s)) p sizeof_cache_block \<and>
        backed (live (heap s)) (c_data (cb s p)) (ucast (c_size (cb s p)))) \<and>
     inj_on (\<lambda>p. c_data (cb s p)) (cached s) \<and> (\<lambda>p. c_data (cb s p)) ` cached s \<inter> cached s = {} \<and>
     live (heap s) |` (- cache_ptrs s) = L0 \<and> dom L0 \<inter> cache_ptrs s = {}"

lemma cache_liveD:
  assumes "cache_live ainv live L0 s"
  shows "ainv (heap s)" "cache_table s" "inj_on (\<lambda>p. c_data (cb s p)) (cached s)"
    "(\<lambda>p. c_data (cb s p)) ` cached s \<inter> cached s = {}" "live (heap s) |` (- cache_ptrs s) = L0"
    "p \<in> cached s \<Longrightarrow> backed (live (heap s)) p sizeof_cache_block"
    "p \<in> cached s \<Longrightarrow> backed (live (heap s)) (c_data (cb s p)) (ucast (c_size (cb s p)))"
    "dom L0 \<inter> cache_ptrs s = {}"
  using assms by (simp_all add: cache_live_def)

text \<open>The live blocks are the cache's and the others.\<close>

lemma cache_live_dom:
  assumes "cache_live ainv live L0 s"
  shows "dom (live (heap s)) = dom L0 \<union> cache_ptrs s"
proof -
  note d = cache_liveD [OF assms]
  have "cache_ptrs s \<subseteq> dom (live (heap s))"
    using d(6,7) by (fastforce simp: cache_ptrs_def elim: backedE)
  moreover have "dom L0 = dom (live (heap s)) - cache_ptrs s"
    unfolding d(5) [symmetric] by auto
  ultimately show ?thesis by blast
qed

lemma cache_live_cong:
  assumes k: "cache_live ainv live L0 s" and e: "heap s' = heap s" "blocks s' = blocks s" "block_count s' = block_count s"
    and b: "\<And>p. p \<in> cached s \<Longrightarrow> cblk s' p \<noteq> None \<and> same_block (cb s' p) (cb s p)"
  shows "cache_live ainv live L0 s'"
proof -
  have c: "cached s' = cached s" using e by (simp add: cached_def)
  have d: "c_data (cb s' p) = c_data (cb s p)" "c_size (cb s' p) = c_size (cb s p)"
    "c_block_id (cb s' p) = c_block_id (cb s p)" if "p \<in> cached s" for p
    using b [OF that] by (simp_all add: same_block_def)
  have i: "(\<lambda>p. c_data (cb s' p)) ` cached s = (\<lambda>p. c_data (cb s p)) ` cached s" using d by simp
  have "inj_on (\<lambda>p. c_data (cb s' p)) (cached s) = inj_on (\<lambda>p. c_data (cb s p)) (cached s)"
    "inj_on (\<lambda>p. c_block_id (cb s' p)) (cached s) = inj_on (\<lambda>p. c_block_id (cb s p)) (cached s)"
    using d by (intro inj_on_cong; simp)+
  then show ?thesis
    using k d b unfolding cache_live_def cache_table_def cache_ptrs_def c i e by simp
qed

section \<open>The cache over an allocator that takes memory back\<close>

context reclaiming_allocator
begin

lemma cache_live_ok:
  assumes "cache_live inv live L0 s"
  shows "cache_ok inv owned s"
proof -
  note d = cache_liveD [OF assms]
  have "footprint s p \<subseteq> owned (heap s)" if "p \<in> cached s" for p
    using d(6,7) [OF that] live_owned [OF d(1)] unfolding footprint_def by (blast elim: backedE)
  moreover have "two_parts s p" if p: "p \<in> cached s" for p
  proof -
    obtain P where P: "live (heap s) p = Some P" "region p sizeof_cache_block \<subseteq> P" by (rule backedE [OF d(6) [OF p]])
    obtain D where D: "live (heap s) (c_data (cb s p)) = Some D" "region (c_data (cb s p)) (ucast (c_size (cb s p))) \<subseteq> D"
      by (rule backedE [OF d(7) [OF p]])
    have "p \<noteq> c_data (cb s p)" using d(4) p by auto
    then have "P \<inter> D = {}" by (rule live_apart [OF d(1) P(1) D(1)])
    then show ?thesis using P(2) D(2) unfolding two_parts_def by blast
  qed
  moreover have "footprint s p \<inter> footprint s q = {}" if pq: "p \<in> cached s" "q \<in> cached s" "p \<noteq> q" for p q
  proof -
    let ?d = "\<lambda>p. c_data (cb s p)"
    have ne: "?d p \<noteq> ?d q" "?d p \<noteq> q" "p \<noteq> ?d q" using d(3,4) pq by (auto simp: inj_on_def)
    obtain P where P: "live (heap s) p = Some P" "region p sizeof_cache_block \<subseteq> P" by (rule backedE [OF d(6) [OF pq(1)]])
    obtain Dp where Dp: "live (heap s) (?d p) = Some Dp" "region (?d p) (ucast (c_size (cb s p))) \<subseteq> Dp"
      by (rule backedE [OF d(7) [OF pq(1)]])
    obtain Q where Q: "live (heap s) q = Some Q" "region q sizeof_cache_block \<subseteq> Q" by (rule backedE [OF d(6) [OF pq(2)]])
    obtain Dq where Dq: "live (heap s) (?d q) = Some Dq" "region (?d q) (ucast (c_size (cb s q))) \<subseteq> Dq"
      by (rule backedE [OF d(7) [OF pq(2)]])
    note a = live_apart [OF d(1)]
    have "P \<inter> Q = {}" "P \<inter> Dq = {}" "Dp \<inter> Q = {}" "Dp \<inter> Dq = {}"
      by (rule a [OF P(1) Q(1) pq(3)] a [OF P(1) Dq(1) ne(3)] a [OF Dp(1) Q(1) ne(2)] a [OF Dp(1) Dq(1) ne(1)])+
    then show ?thesis using P(2) Dp(2) Q(2) Dq(2) unfolding footprint_def by blast
  qed
  ultimately show ?thesis using d(1,2) by (simp add: cache_ok_def cache_memory_def)
qed

lemma evicted_live:
  assumes k: "cache_live inv live L0 s" and i: "i < block_count s" "blocks s ! i \<noteq> NULL"
  shows "cache_live inv live L0 (evicted free i s)"
proof -
  let ?p = "blocks s ! i" and ?s = "evicted free i s"
  let ?d = "c_data (cb s ?p)"
  note d = cache_liveD [OF k]
  note t = evicted_table [OF d(2) i, of free]
  have "i < length (blocks s)" using d(2) i(1) by (simp add: cache_table_def)
  then have p: "?p \<in> cached s" using i(2) by (simp add: cached_def used_slots_def)
  have cb: "cb ?s = cb s" by (simp add: fun_eq_iff cb_def evicted_def)
  have pd: "?d \<noteq> ?p" using d(4) p by auto
  obtain P D where l: "live (heap s) ?p = Some P" "live (heap s) ?d = Some D"
    using d(6,7) [OF p] by (auto simp: backed_def)
  have l1: "live (free ?d (heap s)) = (live (heap s))(?d := None)" "inv (free ?d (heap s))"
    using free_live [OF d(1) l(2)] free_inv [OF d(1) l(2)] by simp_all
  then have l2: "live (free ?d (heap s)) ?p = Some P" using l(1) pd by simp
  have h: "inv (heap ?s)" "live (heap ?s) = (live (heap s))(?d := None, ?p := None)"
    using free_inv [OF l1(2) l2] free_live [OF l1(2) l2] l1(1) by (simp_all add: evicted_def)
  have other: "q \<noteq> ?d" "q \<noteq> ?p" "c_data (cb s q) \<noteq> ?d" "c_data (cb s q) \<noteq> ?p" if q: "q \<in> cached s - {?p}" for q
  proof -
    have q': "q \<in> cached s" "q \<noteq> ?p" using q by auto
    have x: "c_data (cb s a) \<noteq> b" if "a \<in> cached s" "b \<in> cached s" for a b
      using imageI [OF that(1), of "\<lambda>p. c_data (cb s p)"] that(2) d(4) by (metis disjoint_iff)
    show "q \<noteq> ?d" "c_data (cb s q) \<noteq> ?p" using x [OF p q'(1)] x [OF q'(1) p] by simp_all
    show "q \<noteq> ?p" by (rule q'(2))
    show "c_data (cb s q) \<noteq> ?d" using inj_on_eq_iff [OF d(3) q'(1) p] q'(2) by simp
  qed
  have ptrs: "cache_ptrs s = cache_ptrs ?s \<union> {?p, ?d}" "?p \<notin> cache_ptrs ?s" "?d \<notin> cache_ptrs ?s"
  proof -
    have e: "cache_ptrs ?s = (cached s - {?p}) \<union> (\<lambda>q. c_data (cb s q)) ` (cached s - {?p})"
      by (simp add: cache_ptrs_def cb t(2))
    show "cache_ptrs s = cache_ptrs ?s \<union> {?p, ?d}" unfolding e cache_ptrs_def [of s] using p by blast
    show "?p \<notin> cache_ptrs ?s" "?d \<notin> cache_ptrs ?s" unfolding e using other by fastforce+
  qed
  have "backed (live (heap ?s)) q sizeof_cache_block \<and>
      backed (live (heap ?s)) (c_data (cb s q)) (ucast (c_size (cb s q)))" if "q \<in> cached s - {?p}" for q
    using other [OF that] d(6,7) [of q] that unfolding h(2) backed_def by simp
  moreover have "live (heap ?s) |` (- cache_ptrs ?s) = live (heap s) |` (- cache_ptrs s)"
    unfolding h(2) using ptrs by (auto simp: restrict_map_def fun_eq_iff)
  then have "live (heap ?s) |` (- cache_ptrs ?s) = L0" "dom L0 \<inter> cache_ptrs ?s = {}"
    using d(5,8) ptrs(1) by auto
  moreover have "inj_on (\<lambda>p. c_data (cb s p)) (cached s - {?p})"
    by (rule inj_on_subset [OF d(3)]) auto
  moreover have "(\<lambda>p. c_data (cb s p)) ` (cached s - {?p}) \<inter> (cached s - {?p}) = {}" using d(4) by auto
  ultimately show ?thesis
    using h(1) t(1) unfolding cache_live_def cb t(2) by blast
qed

lemma live_same:
  assumes "cache_live inv live L0 s" "inv m" "live m = live (heap s)"
  shows "cache_live inv live L0 (s\<lparr>heap := m\<rparr>)"
proof -
  have "cached (s\<lparr>heap := m\<rparr>) = cached s" "cb (s\<lparr>heap := m\<rparr>) = cb s"
    by (simp_all add: cached_def cb_def fun_eq_iff)
  then show ?thesis using assms unfolding cache_live_def cache_table_def cache_ptrs_def by simp
qed

text \<open>Entering a block whose header and data are two new live blocks.\<close>

lemma with_new_live:
  assumes k: "cache_live inv live L0 s" and null: "NULL \<in> set (blocks s)" and p: "p \<noteq> NULL"
    and id: "\<nexists>q. holds_block block_id s q" and m: "inv m" "live m = (live (heap s))(p \<mapsto> P, d \<mapsto> D)"
    and n: "p \<notin> dom (live (heap s))" "d \<notin> dom (live (heap s))" "d \<noteq> p"
    and r: "region p sizeof_cache_block \<subseteq> P" "region d (ucast sz) \<subseteq> D"
  shows "cache_live inv live L0 (with_new p d block_id sz m s)" "p \<notin> cached s"
proof -
  let ?s = "with_new p d block_id sz m s"
  note k' = cache_liveD [OF k]
  have out: "p \<notin> cache_ptrs s" "d \<notin> cache_ptrs s" "p \<notin> dom L0" "d \<notin> dom L0"
    using n(1,2) unfolding cache_live_dom [OF k] by blast+
  then show pc: "p \<notin> cached s" by (auto simp: cache_ptrs_def)
  note w = with_new_table [OF k'(2) null p pc id, where d = d and sz = sz and m = m]
  have cd: "c_data (cb ?s q) = (if q = p then d else c_data (cb s q))"
    "c_size (cb ?s q) = (if q = p then sz else c_size (cb s q))" for q
    by (simp_all add: w(4) new_blk_def)
  have im: "(\<lambda>q. c_data (cb ?s q)) ` insert p (cached s) = insert d ((\<lambda>q. c_data (cb s q)) ` cached s)"
    using pc by (auto simp: cd)
  have ptrs: "cache_ptrs ?s = cache_ptrs s \<union> {p, d}" unfolding cache_ptrs_def w(3) im by blast
  have old: "backed (live m) q j" if "backed (live (heap s)) q j" for q j
    using that n unfolding m(2) backed_def by auto
  have "backed (live m) q sizeof_cache_block \<and> backed (live m) (c_data (cb ?s q)) (ucast (c_size (cb ?s q)))"
    if "q \<in> insert p (cached s)" for q
    using that r n(3) old k'(6,7) [of q] unfolding cd by (cases "q = p") (auto simp: m(2) backed_def)
  moreover have "inj_on (\<lambda>q. c_data (cb ?s q)) (insert p (cached s))"
  proof -
    have "inj_on (\<lambda>q. c_data (cb ?s q)) (cached s) = inj_on (\<lambda>q. c_data (cb s q)) (cached s)"
      using pc by (intro inj_on_cong) (auto simp: cd)
    moreover have "d \<notin> (\<lambda>q. c_data (cb ?s q)) ` cached s"
      using out(2) pc by (auto simp: cache_ptrs_def cd)
    ultimately show ?thesis using k'(3) pc by (simp add: inj_on_insert) (simp add: cd)
  qed
  moreover have "insert d ((\<lambda>q. c_data (cb s q)) ` cached s) \<inter> insert p (cached s) = {}"
    using k'(4) n(3) out(1,2) by (auto simp: cache_ptrs_def)
  moreover have "live m |` (- cache_ptrs ?s) = live (heap s) |` (- cache_ptrs s)"
    using n(1,2) unfolding ptrs m(2) by (auto simp: restrict_map_def fun_eq_iff)
  then have "live m |` (- cache_ptrs ?s) = L0" "dom L0 \<inter> cache_ptrs ?s = {}"
    using k'(5,8) out unfolding ptrs by auto
  ultimately show "cache_live inv live L0 ?s"
    using m(1) w(1) unfolding cache_live_def w(2,3) im by blast
qed

lemma new_live:
  assumes k: "cache_live inv live L0 s" and null: "NULL \<in> set (blocks s)"
    and id: "\<nexists>q. holds_block block_id s q"
  shows "(\<exists>m. new_cache_block alloc free block_id sz s = Ret NULL (s\<lparr>heap := m\<rparr>) \<and>
      cache_live inv live L0 (s\<lparr>heap := m\<rparr>) \<and>
      (fst (alloc sizeof_cache_block (heap s)) = NULL \<or>
       fst (alloc (ucast sz) (snd (alloc sizeof_cache_block (heap s)))) = NULL)) \<or>
    (\<exists>p s' b. new_cache_block alloc free block_id sz s = Ret p s' \<and> cache_live inv live L0 s' \<and>
      fresh_block block_id sz s p s' b)"
proof -
  note k' = cache_liveD [OF k]
  have r1: "request_ok sizeof_cache_block" by (simp add: request_ok_def sizeof_cache_block_def)
  have r2: "request_ok (ucast sz)" using unat_u32_less [of sz] by (simp add: request_ok_def)
  obtain p m1 where a1: "alloc sizeof_cache_block (heap s) = (p, m1)" by fastforce
  obtain d m2 where a2: "alloc (ucast sz) m1 = (d, m2)" by fastforce
  note run = new_block_run [OF a1 a2, of free block_id]
  have i1: "inv m1" using alloc_inv [OF k'(1) r1 a1] .
  have i2: "inv m2" using alloc_inv [OF i1 r2 a2] .
  consider "p = NULL" | "p \<noteq> NULL" "d = NULL" | "p \<noteq> NULL" "d \<noteq> NULL" by blast
  then show ?thesis
  proof cases
    case 1
    then have "m1 = heap s" using alloc_fail [OF k'(1) r1] a1 by simp
    then have "cache_live inv live L0 (s\<lparr>heap := m1\<rparr>)" using k by simp
    moreover have "new_cache_block alloc free block_id sz s = Ret NULL (s\<lparr>heap := m1\<rparr>)" using 1 run by simp
    ultimately show ?thesis using 1 a1 by (intro disjI1 exI [of _ m1]) simp
  next
    case 2
    obtain P where P: "live (heap s) p = None" "live m1 = (live (heap s))(p \<mapsto> P)"
      using alloc_live [OF k'(1) r1 a1 2(1)] by blast
    have m2: "m2 = m1" using alloc_fail [OF i1 r2] a2 2(2) by simp
    have l: "live m1 p = Some P" using P(2) by simp
    have "live (free p m2) = live (heap s)" using free_live [OF i1 l] P m2 by (simp add: fun_upd_idem)
    then have "cache_live inv live L0 (s\<lparr>heap := free p m2\<rparr>)"
      using live_same [OF k] free_inv [OF i1 l] m2 by simp
    then show ?thesis using 2 run a1 a2 by auto
  next
    case 3
    obtain P where P: "live (heap s) p = None" "region p sizeof_cache_block \<subseteq> P"
      "live m1 = (live (heap s))(p \<mapsto> P)" using alloc_live [OF k'(1) r1 a1 3(1)] by blast
    obtain D where D: "live m1 d = None" "region d (ucast sz) \<subseteq> D" "live m2 = (live m1)(d \<mapsto> D)"
      using alloc_live [OF i1 r2 a2 3(2)] by blast
    have n: "p \<notin> dom (live (heap s))" "d \<notin> dom (live (heap s))" "d \<noteq> p"
      using P(1,3) D(1) by (auto split: if_splits)
    have "live m2 = (live (heap s))(p \<mapsto> P, d \<mapsto> D)" using D(3) P(3) by simp
    note w = with_new_live [OF k null 3(1) id i2 this n P(2) D(2)]
    show ?thesis using run 3 w(1) with_new_table(5) [OF k'(2) null 3(1) w(2) id] by auto
  qed
qed

end

sublocale reclaiming_allocator \<subseteq> cache_store alloc free "cache_live inv live L0" for L0
proof
  fix s s' :: "'m cache"
  assume "cache_live inv live L0 s" "heap s' = heap s" "blocks s' = blocks s" "block_count s' = block_count s"
    "\<And>p. p \<in> cached s \<Longrightarrow> cblk s' p \<noteq> None \<and> same_block (cb s' p) (cb s p)"
  then show "cache_live inv live L0 s'" by (rule cache_live_cong)
qed (rule cache_liveD(2) evicted_live new_live; assumption)+

section \<open>The cache on the kernel heap\<close>

interpretation heap_cache_calls: safe_calls "cache_call_run heap_alloc heap_free" cache_call_ok
  "cache_live (case_option False heap_inv) live_of L0" for L0
  by unfold_locales (use heapfree.cache_call_safe in \<open>fastforce simp: hands_on_def\<close>)

lemma cache_init_live:
  assumes "ainv (heap s)"
  shows "cache_live ainv live (live (heap s)) (cache_init s)"
proof -
  have "cached (cache_init s) = {}" by (simp add: cached_def cache_init_def used_slots_def filter_empty_conv)
  moreover have "cache_table (cache_init s)"
    using cache_init_ok [of ainv s "\<lambda>_. UNIV", OF assms] by (simp add: cache_ok_def)
  ultimately show ?thesis
    using assms by (simp add: cache_live_def cache_ptrs_def) (simp add: cache_init_def restrict_map_def)
qed

text \<open>C19. The cache on the kernel heap, which takes memory back: after \<open>cache_init\<close> on a well-formed heap
  every sequence of calls into the cache (a pointer passed in being null or a cached block) ends without a
  fault, in the cache or in the heap under it; the cache is consistent, with all headers and data
  apart; the heap is there and well formed, the blocks that were live before are live and the same, and
  the other live blocks are exactly the headers and the data of the cached blocks: nothing is leaked and
  nothing freed twice.\<close>

theorem cache_on_heap:
  assumes h0: "heap s0 = Some h0" "heap_inv h0"
    and cs: "all_allowed cache_call_ok (cache_call_run heap_alloc heap_free) cs (cache_init s0)"
  shows "\<exists>s h. run_calls (cache_call_run heap_alloc heap_free) cs (cache_init s0) = Some s \<and>
    heap s = Some h \<and> heap_inv h \<and>
    cache_ok (case_option False heap_inv) (case_option {} heap_owned) s \<and> heap_live h0 \<subseteq>\<^sub>m heap_live h \<and>
    dom (heap_live h) - dom (heap_live h0) = cached s \<union> (\<lambda>p. c_data (cb s p)) ` cached s"
proof -
  let ?L = "heap_live h0" and ?inv = "case_option False heap_inv"
  have "cache_live ?inv live_of (live_of (heap s0)) (cache_init s0)"
    using h0 by (intro cache_init_live) simp
  then have "cache_live ?inv live_of ?L (cache_init s0)" using h0(1) by simp
  then obtain s where s: "run_calls (cache_call_run heap_alloc heap_free) cs (cache_init s0) = Some s"
    "cache_live ?inv live_of ?L s"
    using heap_cache_calls.run_calls_inv [OF _ cs] by blast
  note d = cache_liveD [OF s(2)]
  obtain h where h: "heap s = Some h" "heap_inv h" using d(1) by (cases "heap s") auto
  have r: "heap_live h |` (- cache_ptrs s) = ?L" using d(5) h(1) by simp
  have "?L \<subseteq>\<^sub>m heap_live h"
    unfolding r [symmetric] by (auto simp: map_le_def restrict_map_def split: if_splits)
  moreover have "dom (heap_live h) - dom ?L = cache_ptrs s"
    using cache_live_dom [OF s(2)] d(8) h(1) by auto
  ultimately show ?thesis
    using s h heapfree.cache_live_ok [OF s(2)] by (auto simp: cache_ptrs_def)
qed

definition heap_cache :: "heap_manager option cache" where
  "heap_cache = \<lparr>blocks = [], block_count = 0, hit_count = 0, miss_count = 0, access_time = 0,
     cblk = Map.empty, heap = Some heap4k\<rparr>"

text \<open>The first block cached on a heap of 4 KB.\<close>

lemma heap_cache_first:
  "\<exists>s. cache_get_block heap_alloc heap_free 7 512 (cache_init heap_cache) = Ret 0x1020 s \<and> cached s = {0x1020} \<and>
     c_data (cb s 0x1020) = 0x1080"
proof -
  obtain h1 where h1: "heap_kmalloc 56 heap4k = Ret 0x1020 h1" "heap_ok h1 [blk 0x1000 64 False, blk 0x1060 3968 True]"
    using kmalloc_refines [OF heap4k_ok, of 56] by (auto simp: round16_def take_block_def)
  obtain h2 where h2: "heap_kmalloc 512 h1 = Ret 0x1080 h2"
    using kmalloc_refines [OF h1(2), of 512] by (auto simp: round16_def take_block_def)
  let ?c = "cache_init heap_cache"
  have a: "heap_alloc sizeof_cache_block (heap ?c) = (0x1020, Some h1)"
    using h1(1) by (simp add: heap_alloc_def heap_cache_def cache_init_def sizeof_cache_block_def)
  have b: "heap_alloc 512 (Some h1) = (0x1080, Some h2)" using h2 by (simp add: heap_alloc_def)
  have f: "find_cache_block 7 ?c = Ret NULL ?c" "block_count ?c = 0" "blocks ?c = NULL # replicate 255 NULL"
    using replicate_Suc [of 255 NULL] by (simp_all add: find_cache_block_def cache_init_def MAX_CACHE_BLOCKS_def)
  show ?thesis
    using a b f
    by (simp add: cache_get_block_def allocate_cache_block_def new_cache_block_def Let_def MAX_CACHE_BLOCKS_def
        insert_block_def cached_def used_slots_def cb_def) auto
qed

theorem cache_on_heap_witness:
  "\<exists>s h. run_calls (cache_call_run heap_alloc heap_free) [Get 7 512] (cache_init heap_cache) = Some s \<and>
     heap s = Some h \<and> heap_inv h \<and> cached s = {0x1020} \<and> dom (heap_live h) = {0x1020, 0x1080}"
proof -
  have i: "heap heap_cache = Some heap4k" "heap_inv heap4k" using heap_inv_iff(1) [OF heap4k_ok] by (simp_all add: heap_cache_def)
  have e: "heap_live heap4k = Map.empty" by (simp add: heap_live_ok [OF heap4k_ok])
  have a: "all_allowed cache_call_ok (cache_call_run heap_alloc heap_free) [Get 7 512] (cache_init heap_cache)"
    by (simp split: option.splits)
  obtain s1 where s1: "cache_get_block heap_alloc heap_free 7 512 (cache_init heap_cache) = Ret 0x1020 s1"
    "cached s1 = {0x1020}" "c_data (cb s1 0x1020) = 0x1080" using heap_cache_first by blast
  show ?thesis using cache_on_heap [OF i a] s1 e by auto
qed

end
