(* ===== verification/Paging.thy ===== *)
theory Paging
  imports Kernel_Prelude
begin

text \<open>
  Physical pages, page tables and address spaces: \<open>kernel/mm/physical.c\<close>, \<open>kernel/mm/virtual.c\<close>
  and \<open>kernel/mm/paging.c\<close>. The address of the direct map, \<open>KERNEL_VIRTUAL_BASE\<close>, is not defined in
  the repository and is a parameter of the definitions. \<open>pt_mem\<close> is the memory the page tables are
  written to, 64-bit words by virtual address; \<open>tlb\<close> is the set of the page numbers that the
  processor holds a translation of.
\<close>

section \<open>Data\<close>

record mem_zone =
  z_start_addr :: u64
  z_length :: u64
  z_flags :: u32
  z_next :: ptr

record page_frame =
  f_flags :: u32
  f_ref_count :: u32
  f_phys_addr :: u64

record phys_mem_manager =
  zones :: ptr
  frames :: ptr
  total_pages :: u32
  free_pages :: u32

type_synonym pte_t = u64

record vmm = phys_mem_manager +
  kernel_pgd :: ptr
  kernel_start :: u64
  kernel_end :: u64

text \<open>With the processor's page table register and its cache of translations, and the memory of the
  tables.\<close>

record mmu = vmm +
  cr3 :: u64
  tlb :: "u64 set"
  pt_mem :: "u64 \<Rightarrow> pte_t"

section \<open>Physical pages\<close>

definition phys_mem_init :: "mmu \<Rightarrow> mmu" where
  "phys_mem_init s = s\<lparr>zones := NULL, frames := NULL, total_pages := 0, free_pages := 0\<rparr>"

definition phys_alloc_page :: "mmu \<Rightarrow> u64 \<times> mmu" where
  "phys_alloc_page s =
     (if free_pages s = 0 then (0, s)
      else let s = s\<lparr>free_pages := free_pages s - 1\<rparr> in (0, s))"

definition phys_free_page :: "u64 \<Rightarrow> mmu \<Rightarrow> mmu" where
  "phys_free_page phys_addr s =
     (if phys_addr = 0 then s else s\<lparr>free_pages := free_pages s + 1\<rparr>)"

text \<open>Which of the two out-pointers is null is an argument; the results are what is written.\<close>

definition phys_mem_info :: "bool \<Rightarrow> bool \<Rightarrow> mmu \<Rightarrow> u32 option \<times> u32 option" where
  "phys_mem_info want_total want_free s =
     (if want_total then Some (total_pages s) else None, if want_free then Some (free_pages s) else None)"

section \<open>Virtual memory\<close>

definition phys_to_virt :: "u64 \<Rightarrow> u64 \<Rightarrow> ptr" where
  "phys_to_virt base phys_addr = phys_addr + base"

definition virt_to_phys :: "u64 \<Rightarrow> ptr \<Rightarrow> u64" where
  "virt_to_phys base virt_addr = virt_addr - base"

definition vmm_init :: "mmu \<Rightarrow> mmu" where
  "vmm_init s = s\<lparr>kernel_pgd := NULL, kernel_start := 0, kernel_end := 0\<rparr>"

text \<open>The loop that writes 0 to the 512 entries of a table.\<close>

fun zero_entries :: "ptr \<Rightarrow> nat \<Rightarrow> nat \<Rightarrow> mmu \<Rightarrow> mmu" where
  "zero_entries table i 0 s = s"
| "zero_entries table i (Suc n) s =
     zero_entries table (Suc i) n (s\<lparr>pt_mem := (pt_mem s)(table + 8 * of_nat i := 0)\<rparr>)"

definition create_page_table :: "u64 \<Rightarrow> mmu \<Rightarrow> u64 \<times> mmu" where
  "create_page_table base s =
     (case phys_alloc_page s of (phys_addr, s) \<Rightarrow>
      if phys_addr = 0 then (0, s)
      else let table = phys_to_virt base phys_addr
           in (phys_addr, zero_entries table 0 512 s))"

definition vmm_map_page :: "ptr \<Rightarrow> u64 \<Rightarrow> u64 \<Rightarrow> u64 \<Rightarrow> mmu \<Rightarrow> s32 \<times> mmu" where
  "vmm_map_page pgd virt_addr phys_addr flags s = (0, s)"

definition vmm_unmap_page :: "ptr \<Rightarrow> u64 \<Rightarrow> mmu \<Rightarrow> mmu" where
  "vmm_unmap_page pgd virt_addr s = s"

definition vmm_translate :: "ptr \<Rightarrow> u64 \<Rightarrow> mmu \<Rightarrow> u64" where
  "vmm_translate pgd virt_addr s = 0"

section \<open>Address spaces\<close>

definition get_cr3 :: "mmu \<Rightarrow> u64" where
  "get_cr3 s = cr3 s"

text \<open>Loading \<open>cr3\<close> drops the translations the processor holds; \<open>invlpg\<close> drops the one of a page.\<close>

definition set_cr3 :: "u64 \<Rightarrow> mmu \<Rightarrow> mmu" where
  "set_cr3 v s = s\<lparr>cr3 := v, tlb := {}\<rparr>"

definition flush_tlb :: "mmu \<Rightarrow> mmu" where
  "flush_tlb s = (let v = get_cr3 s in set_cr3 v s)"

definition flush_tlb_single :: "u64 \<Rightarrow> mmu \<Rightarrow> mmu" where
  "flush_tlb_single addr s = s\<lparr>tlb := tlb s - {drop_bit 12 addr}\<rparr>"

definition paging_init :: "mmu \<Rightarrow> mmu" where
  "paging_init s = vmm_init s"

definition paging_create_address_space :: "u64 \<Rightarrow> mmu \<Rightarrow> u64 \<times> mmu" where
  "paging_create_address_space base s =
     (case phys_alloc_page s of (pgd_phys, s) \<Rightarrow>
      if pgd_phys = 0 then (0, s)
      else let pgd = phys_to_virt base pgd_phys
           in (pgd_phys, zero_entries pgd 0 512 s))"

definition paging_destroy_address_space :: "u64 \<Rightarrow> mmu \<Rightarrow> mmu" where
  "paging_destroy_address_space v s = phys_free_page v s"

definition paging_switch_address_space :: "u64 \<Rightarrow> mmu \<Rightarrow> mmu" where
  "paging_switch_address_space v s = set_cr3 v s"

section \<open>Properties\<close>

text \<open>A client that makes the same request several times.\<close>

fun repeat_call :: "nat \<Rightarrow> ('s \<Rightarrow> 'a \<times> 's) \<Rightarrow> 's \<Rightarrow> 'a list \<times> 's" where
  "repeat_call 0 f s = ([], s)"
| "repeat_call (Suc n) f s =
     (case f s of (a, s1) \<Rightarrow> case repeat_call n f s1 of (as, s2) \<Rightarrow> (a # as, s2))"

lemma create_address_space_run:
  "paging_create_address_space base s =
     (0, if free_pages s = 0 then s else s\<lparr>free_pages := free_pages s - 1\<rparr>)"
  by (simp add: paging_create_address_space_def phys_alloc_page_def)

lemma unat_pred: "(x :: u32) \<noteq> 0 \<Longrightarrow> unat (x - 1) = unat x - 1"
  by (rule unat_minus_one)

text \<open>C40. No address space is ever created, and each attempt costs a page: however often
  \<open>paging_create_address_space\<close> is called, every call returns 0 (its value for failure), while the
  count of free pages goes down by one with each call until it is 0; no page table is written.\<close>

theorem paging_create_leaks:
  "\<exists>s'. repeat_call n (paging_create_address_space base) s = (replicate n 0, s') \<and>
    unat (free_pages s') = unat (free_pages s) - n \<and> s' = s\<lparr>free_pages := free_pages s'\<rparr>"
proof (induction n arbitrary: s)
  case (Suc n)
  let ?s = "if free_pages s = 0 then s else s\<lparr>free_pages := free_pages s - 1\<rparr>"
  obtain s' where s': "repeat_call n (paging_create_address_space base) ?s = (replicate n 0, s')"
    "unat (free_pages s') = unat (free_pages ?s) - n" "s' = ?s\<lparr>free_pages := free_pages s'\<rparr>"
    using Suc.IH by blast
  have "unat (free_pages ?s) = unat (free_pages s) - 1" by (simp add: unat_pred)
  then have "unat (free_pages s') = unat (free_pages s) - Suc n" using s'(2) by simp
  moreover have "?s\<lparr>free_pages := x\<rparr> = s\<lparr>free_pages := x\<rparr>" for x by simp
  moreover have "repeat_call (Suc n) (paging_create_address_space base) s = (replicate (Suc n) 0, s')"
    using s'(1) create_address_space_run [of base s] by simp
  ultimately show ?case using s'(3) by metis
qed simp

text \<open>Freeing is not checked either: each \<open>phys_free_page\<close> of a non-zero address, allocated or not, adds
  one to the count of free pages, beyond \<open>total_pages\<close> and around \<open>2^32\<close>; address 0 frees nothing.\<close>

theorem phys_free_unbounded:
  "free_pages ((phys_free_page a ^^ n) s) = (if a = 0 then free_pages s else free_pages s + of_nat n) \<and>
   unat (free_pages ((phys_free_page a ^^ n) s)) =
     (if a = 0 then unat (free_pages s) else (unat (free_pages s) + n) mod 2 ^ 32) \<and>
   total_pages ((phys_free_page a ^^ n) s) = total_pages s"
proof -
  have "free_pages ((phys_free_page a ^^ n) s) = (if a = 0 then free_pages s else free_pages s + of_nat n)"
    by (induction n) (auto simp: phys_free_page_def)
  moreover have "total_pages ((phys_free_page a ^^ n) s) = total_pages s"
    by (induction n) (auto simp: phys_free_page_def)
  ultimately show ?thesis by (simp add: unat_word_ariths unat_of_nat mod_simps)
qed

text \<open>The direct map: translating a physical address to its kernel address and back gives the address,
  in both directions, and different physical pages have different kernel pages, whatever the base.\<close>

theorem direct_map_roundtrip:
  "virt_to_phys base (phys_to_virt base a) = a \<and> phys_to_virt base (virt_to_phys base v) = v \<and>
   (phys_to_virt base a = phys_to_virt base b \<longleftrightarrow> a = b)"
  by (simp add: virt_to_phys_def phys_to_virt_def)

text \<open>Switching address spaces loads the root of the page tables and leaves no stale translation; a
  plain flush keeps the address space; flushing one page keeps the translations of the others.\<close>

theorem address_space_switch:
  "cr3 (paging_switch_address_space v s) = v \<and> tlb (paging_switch_address_space v s) = {} \<and>
   cr3 (flush_tlb s) = cr3 s \<and> tlb (flush_tlb s) = {} \<and>
   flush_tlb (paging_switch_address_space v s) = paging_switch_address_space v s \<and>
   tlb (flush_tlb_single a s) \<subseteq> tlb s \<and> a div 4096 \<notin> tlb (flush_tlb_single a s)"
  by (auto simp: paging_switch_address_space_def set_cr3_def flush_tlb_def get_cr3_def flush_tlb_single_def
      drop_bit_eq_div)

end
