(* ===== verification/C_String.thy ===== *)
theory C_String
  imports Kernel_Prelude
begin

text \<open>
  The string functions of \<open>kernel/string.c\<close>. A C string is the list of its characters; reading past
  the end of the list reads the terminating \<open>'\0'\<close>. \<open>memset\<close> works on memory bytes by address.
\<close>

section \<open>Operations\<close>

fun memset_loop :: "ptr \<Rightarrow> s32 \<Rightarrow> nat \<Rightarrow> (u64 \<Rightarrow> u8) \<Rightarrow> u64 \<Rightarrow> u8" where
  "memset_loop p c 0 m = m"
| "memset_loop p c (Suc n) m = memset_loop (p + 1) c n (m(p := ucast c))"

definition memset :: "ptr \<Rightarrow> s32 \<Rightarrow> u32 \<Rightarrow> (u64 \<Rightarrow> u8) \<Rightarrow> ptr \<times> (u64 \<Rightarrow> u8)" where
  "memset s c n m = (s, memset_loop s c (unat n) m)"

definition chr0 :: "string \<Rightarrow> u8" where
  "chr0 s = (case s of [] \<Rightarrow> 0 | c # _ \<Rightarrow> of_nat (of_char c))"

function strcmp :: "string \<Rightarrow> string \<Rightarrow> s32" where
  "strcmp s1 s2 =
     (if chr0 s1 \<noteq> 0 \<and> chr0 s1 = chr0 s2 then strcmp (tl s1) (tl s2)
      else ucast (chr0 s1) - ucast (chr0 s2))"
  by auto
termination by (relation "measure (length \<circ> fst)") (auto simp: chr0_def split: list.splits)

declare strcmp.simps [simp del]

section \<open>Properties\<close>

text \<open>A string as C code can hold it: no character is \<open>'\0'\<close>.\<close>

definition c_string :: "string \<Rightarrow> bool" where
  "c_string s \<longleftrightarrow> (\<forall>c \<in> set s. of_char c \<noteq> (0 :: nat))"

lemma c_string_Cons [simp]: "c_string (c # s) \<longleftrightarrow> of_char c \<noteq> (0 :: nat) \<and> c_string s"
  by (simp add: c_string_def)

lemma c_string_Nil [simp]: "c_string []"
  by (simp add: c_string_def)

lemma chr0_simps [simp]: "chr0 [] = 0" "chr0 (c # s) = of_nat (of_char c)"
  by (simp_all add: chr0_def)

lemma unat_chr [simp]: "unat (of_nat (of_char c) :: u8) = of_char c"
  by (simp add: unat_of_nat take_bit_nat_eq_self)

lemma chr_eq_iff [simp]: "(of_nat (of_char c) :: u8) = of_nat (of_char d) \<longleftrightarrow> c = d"
proof
  assume "(of_nat (of_char c) :: u8) = of_nat (of_char d)"
  then have "unat (of_nat (of_char c) :: u8) = unat (of_nat (of_char d) :: u8)" by (rule arg_cong)
  then show "c = d" by simp
qed simp

lemma chr_0_iff [simp]: "(of_nat (of_char c) :: u8) = 0 \<longleftrightarrow> of_char c = (0 :: nat)"
  using unat_zero_iff [of "of_nat (of_char c) :: u8"] by simp

lemma unat_u8_less: "unat (x :: u8) < 256"
  using unsigned_less [of x, where ?'a = nat] by simp

text \<open>The difference of two bytes as an \<open>int\<close>.\<close>

lemma sint_byte_diff: "sint (ucast (a :: u8) - ucast (b :: u8) :: s32) = int (unat a) - int (unat b)"
proof -
  have p: "(2 :: int) ^ 31 = 2147483648" by simp
  have l: "unat a < 256" "unat b < 256" by (rule unat_u8_less)+
  have r1: "- (2 ^ 31) \<le> int (unat a) - int (unat b)" unfolding p using l by linarith
  have r2: "int (unat a) - int (unat b) < 2 ^ 31" unfolding p using l by linarith
  have "(ucast a - ucast b :: s32) = word_of_int (int (unat a) - int (unat b))"
    unfolding ucast_eq [of a] ucast_eq [of b] of_nat_unat by (rule wi_hom_sub)
  moreover have "sint (word_of_int k :: s32) = signed_take_bit 31 k" for k
    by (simp add: signed_of_int)
  ultimately show ?thesis using signed_take_bit_int_eq_self [OF r1 r2] by (simp only:)
qed

lemma strcmp_Cons:
  "of_char c \<noteq> (0 :: nat) \<Longrightarrow> strcmp (c # s) (d # t) =
    (if c = d then strcmp s t else ucast (of_nat (of_char c) :: u8) - ucast (of_nat (of_char d) :: u8))"
  by (subst strcmp.simps) simp

lemma strcmp_Nil: "strcmp [] t = - ucast (chr0 t)" "strcmp s [] = ucast (chr0 s)"
  by (subst strcmp.simps, simp)+

definition byte_less :: "(char \<times> char) set" where
  "byte_less = {(c, d). of_char c < (of_char d :: nat)}"

lemma sint_strcmp_Nil:
  "sint (strcmp [] t) = - int (unat (chr0 t))" "sint (strcmp s []) = int (unat (chr0 s))"
  using sint_byte_diff [of 0 "chr0 t"] sint_byte_diff [of "chr0 s" 0] by (simp_all add: strcmp_Nil)

lemma strcmp_sign:
  assumes "c_string s" "c_string t"
  shows "sgn (sint (strcmp s t)) =
    (if s = t then 0 else if (s, t) \<in> lexord byte_less then - 1 else 1)"
  using assms
proof (induction s arbitrary: t)
  case Nil
  then show ?case by (cases t) (simp_all add: sint_strcmp_Nil)
next
  case (Cons c s)
  show ?case
  proof (cases t)
    case Nil
    then show ?thesis using Cons.prems by (simp add: sint_strcmp_Nil)
  next
    case (Cons d u)
    consider "c = d" | "of_char c < (of_char d :: nat)" | "of_char d < (of_char c :: nat)"
      by (metis linorder_neqE_nat of_char_eq_iff)
    then show ?thesis
      using Cons Cons.IH [of u] Cons.prems
      by cases (auto simp: strcmp_Cons sint_byte_diff byte_less_def)
  qed
qed

lemma strcmp_eq_0:
  assumes "c_string s" "c_string t"
  shows "strcmp s t = 0 \<longleftrightarrow> s = t"
proof -
  have "strcmp s t = 0 \<longleftrightarrow> sgn (sint (strcmp s t)) = 0" by (simp add: sgn_eq_0_iff signed_eq_0_iff)
  then show ?thesis using strcmp_sign [OF assms] by simp
qed

text \<open>C37. \<open>strcmp\<close> decides the lexicographic order of two strings by their bytes as unsigned numbers: the
  result is 0 exactly for equal strings, negative when the first comes before the second, positive
  otherwise.\<close>

theorem strcmp_correct:
  assumes "c_string s" "c_string t"
  shows "(strcmp s t = 0 \<longleftrightarrow> s = t) \<and> (sint (strcmp s t) < 0 \<longleftrightarrow> (s, t) \<in> lexord byte_less) \<and>
    (sint (strcmp s t) > 0 \<longleftrightarrow> (t, s) \<in> lexord byte_less)"
proof -
  have "asym byte_less" by (rule asymI) (auto simp: byte_less_def)
  then have a: "(s, t) \<in> lexord byte_less \<Longrightarrow> (t, s) \<notin> lexord byte_less" for s t
    by (meson asymD lexord_asym)
  have "(s, t) \<in> lexord byte_less \<or> s = t \<or> (t, s) \<in> lexord byte_less"
    by (rule lexord_linear) (auto simp: byte_less_def)
  moreover have "(s, s) \<notin> lexord byte_less" using a by blast
  ultimately show ?thesis
    using strcmp_sign [OF assms] strcmp_eq_0 [OF assms] a
    by (auto simp: sgn_if split: if_splits)
qed

theorem strcmp_correct_witness:
  "strcmp ''version'' ''version'' = 0 \<and> sint (strcmp ''ver'' ''version'') < 0"
  using strcmp_correct [of "''version''" "''version''"] strcmp_correct [of "''ver''" "''version''"]
  by (simp add: c_string_def byte_less_def)

lemma memset_loop_correct:
  "memset_loop p c n m a = (if \<exists>i < n. a = p + of_nat i then ucast c else m a)"
proof (induction n arbitrary: p m)
  case (Suc n)
  have "(\<exists>i < Suc n. a = p + of_nat i) \<longleftrightarrow> a = p \<or> (\<exists>i < n. a = p + 1 + of_nat i)"
    by (auto simp: Ex_less_Suc2 add.assoc)
  then show ?case unfolding memset_loop.simps Suc.IH by auto
qed simp

text \<open>\<open>memset\<close> returns its first argument, writes the low byte of \<open>c\<close> to exactly the \<open>n\<close> addresses from
  there on (modulo \<open>2^64\<close>) and leaves every other byte as it was.\<close>

theorem memset_correct:
  "memset p c n m = (p, \<lambda>a. if \<exists>i < unat n. a = p + of_nat i then ucast c else m a)"
  by (simp add: memset_def fun_eq_iff memset_loop_correct)

end
