(* ===== verification/VFS.thy ===== *)
theory VFS
  imports C_String
begin

text \<open>
  The virtual file system, \<open>kernel/fs/vfs.c\<close> and \<open>kernel/fs/fs_ops.c\<close>: the list of registered file
  system types, mounting, and the operations on open files. Objects live in typed stores indexed by
  address. The functions behind function pointers (\<open>mount\<close> of a file system type, the operations of a
  file) are code of file systems that the repository does not have: they are a parameter, the record
  \<open>fs_calls\<close>, and may change the whole state. The constants \<open>SEEK_SET\<close>, \<open>SEEK_CUR\<close> and
  \<open>SEEK_END\<close> are those of the C library.
\<close>

section \<open>Data\<close>

type_synonym cstr = "string option"
type_synonym s64 = "64 word"

record inode_operations =
  op_lookup :: ptr
  op_create :: ptr
  op_unlink :: ptr
  op_mkdir :: ptr
  op_rmdir :: ptr

record super_operations =
  op_sync_fs :: ptr
  op_statfs :: ptr

record file_system_type =
  t_name :: cstr
  t_fs_flags :: s32
  t_mount :: ptr
  t_unmount :: ptr
  t_next :: ptr

record file_system =
  s_dev_name :: cstr
  s_mount_point :: cstr
  s_fs_type :: ptr
  s_s_op :: ptr
  s_private_data :: ptr
  s_root :: ptr
  s_flags :: s32

record dentry =
  d_name :: cstr
  d_inode :: ptr
  d_parent :: ptr
  d_next :: ptr
  d_child :: ptr

record inode =
  i_ino :: u64
  i_mode :: u32
  i_uid :: u32
  i_gid :: u32
  i_nlink :: u32
  i_size :: u64
  i_atime :: u64
  i_mtime :: u64
  i_ctime :: u64
  i_i_op :: ptr
  i_f_op :: ptr
  i_fs :: ptr
  i_private_data :: ptr

record file_operations =
  op_open :: ptr
  op_read :: ptr
  op_write :: ptr
  op_close :: ptr
  op_lseek :: ptr
  op_ioctl :: ptr
  op_fsync :: ptr

record file_t =
  f_dentry :: ptr
  f_inode :: ptr
  f_mode :: u32
  f_flags :: u32
  f_pos :: u64
  f_f_op :: ptr
  f_private_data :: ptr

record vfs =
  registered_fs_types :: ptr
  mounted_fs_list :: ptr
  open_files :: "ptr list"
  fs_types :: "ptr \<Rightarrow> file_system_type option"
  file_systems :: "ptr \<Rightarrow> file_system option"
  inodes :: "ptr \<Rightarrow> inode option"
  files :: "ptr \<Rightarrow> file_t option"
  file_ops :: "ptr \<Rightarrow> file_operations option"
  dentries :: "ptr \<Rightarrow> dentry option"
  inode_ops :: "ptr \<Rightarrow> inode_operations option"
  super_ops :: "ptr \<Rightarrow> super_operations option"

text \<open>Code outside the repository, called through a function pointer.\<close>

record fs_calls =
  call_mount :: "ptr \<Rightarrow> cstr \<Rightarrow> cstr \<Rightarrow> cstr \<Rightarrow> ptr \<Rightarrow> vfs \<Rightarrow> ptr \<times> vfs"
  call_read :: "ptr \<Rightarrow> ptr \<Rightarrow> ptr \<Rightarrow> u64 \<Rightarrow> vfs \<Rightarrow> s64 \<times> vfs"
  call_write :: "ptr \<Rightarrow> ptr \<Rightarrow> ptr \<Rightarrow> u64 \<Rightarrow> vfs \<Rightarrow> s64 \<times> vfs"
  call_close :: "ptr \<Rightarrow> ptr \<Rightarrow> vfs \<Rightarrow> s32 \<times> vfs"
  call_lseek :: "ptr \<Rightarrow> ptr \<Rightarrow> s64 \<Rightarrow> s32 \<Rightarrow> vfs \<Rightarrow> s64 \<times> vfs"

definition E_INVAL :: "'a::len word" where
  "E_INVAL = - 1"

definition E_IO :: s32 where
  "E_IO = - 3"

definition E_NOTFOUND :: s32 where
  "E_NOTFOUND = - 4"

definition E_EXIST :: s32 where
  "E_EXIST = - 5"

definition E_NOTSUP :: s64 where
  "E_NOTSUP = - 6"

definition FS_MOUNTED :: s32 where
  "FS_MOUNTED = 1"

definition access :: "('o \<Rightarrow> 'b option) \<Rightarrow> 'o \<Rightarrow> ('b \<Rightarrow> ('a, 's) exec) \<Rightarrow> ('a, 's) exec" where
  "access store p k = (case store p of None \<Rightarrow> Crash BadPtr | Some x \<Rightarrow> k x)"

section \<open>File system types\<close>

text \<open>The loop of \<open>register_filesystem\<close> and the one of \<open>find_filesystem\<close>: the first entry with the
  name, or \<open>NULL\<close>. On a cyclic list it may not end.\<close>

partial_function (option) find_type_loop :: "cstr \<Rightarrow> ptr \<Rightarrow> vfs \<Rightarrow> (ptr, vfs) exec option" where
  "find_type_loop name p s =
     (if p = NULL then Some (Ret NULL s)
      else case fs_types s p of
        None \<Rightarrow> Some (Crash BadPtr)
      | Some t \<Rightarrow>
          (case t_name t of None \<Rightarrow> Some (Crash NullDeref) | Some x \<Rightarrow>
           case name of None \<Rightarrow> Some (Crash NullDeref) | Some y \<Rightarrow>
           if strcmp x y = 0 then Some (Ret p s) else find_type_loop name (t_next t) s))"

definition find_filesystem :: "cstr \<Rightarrow> vfs \<Rightarrow> (ptr, vfs) exec" where
  "find_filesystem name s =
     (case find_type_loop name (registered_fs_types s) s of None \<Rightarrow> Spin s | Some r \<Rightarrow> r)"

definition register_filesystem :: "ptr \<Rightarrow> vfs \<Rightarrow> (s32, vfs) exec" where
  "register_filesystem fs_type s =
     (if fs_type = NULL then Ret (- E_INVAL) s
      else access (fs_types s) fs_type (\<lambda>t.
        if t_name t = None then Ret (- E_INVAL) s
        else case find_type_loop (t_name t) (registered_fs_types s) s of
          None \<Rightarrow> Spin s
        | Some r \<Rightarrow> and_then r (\<lambda>p s.
            if p \<noteq> NULL then Ret (- E_EXIST) s
            else Ret 0 (s\<lparr>fs_types := (fs_types s)(fs_type \<mapsto> t\<lparr>t_next := registered_fs_types s\<rparr>),
                         registered_fs_types := fs_type\<rparr>))))"

definition mount_fs :: "fs_calls \<Rightarrow> cstr \<Rightarrow> cstr \<Rightarrow> cstr \<Rightarrow> s32 \<Rightarrow> ptr \<Rightarrow> vfs \<Rightarrow> (s32, vfs) exec" where
  "mount_fs calls fs_type_name dev mount_point flags data s =
     and_then (find_filesystem fs_type_name s) (\<lambda>fs_type s.
       if fs_type = NULL then Ret (- E_NOTFOUND) s
       else access (fs_types s) fs_type (\<lambda>t.
         if t_mount t = NULL then Crash NullDeref
         else case call_mount calls (t_mount t) fs_type_name dev mount_point data s of (fs, s) \<Rightarrow>
           if fs = NULL then Ret (- E_IO) s
           else access (file_systems s) fs (\<lambda>f.
             Ret 0 (s\<lparr>file_systems := (file_systems s)(fs \<mapsto>
                       f\<lparr>s_flags := FS_MOUNTED OR flags, s_fs_type := fs_type\<rparr>)\<rparr>))))"

definition vfs_init :: "vfs \<Rightarrow> vfs" where
  "vfs_init s = s\<lparr>registered_fs_types := NULL, mounted_fs_list := NULL, open_files := replicate 256 NULL\<rparr>"

section \<open>Open files\<close>

definition fs_open :: "cstr \<Rightarrow> s32 \<Rightarrow> s32 \<Rightarrow> vfs \<Rightarrow> (s32, vfs) exec" where
  "fs_open path flags mode s = Ret (- E_NOTFOUND) s"

text \<open>The check \<open>fd < 0 || fd >= 256 || !open_files[fd]\<close> with which every operation starts.\<close>

definition with_fd :: "s32 \<Rightarrow> vfs \<Rightarrow> ('a, vfs) exec \<Rightarrow> (ptr \<Rightarrow> ('a, vfs) exec) \<Rightarrow> ('a, vfs) exec" where
  "with_fd fd s bad k =
     (if sint fd < 0 \<or> sint fd \<ge> 256 then bad
      else if nat (sint fd) \<ge> length (open_files s) then Crash OutOfBounds
      else let p = open_files s ! nat (sint fd) in if p = NULL then bad else k p)"

text \<open>The operation \<open>sel\<close> of a file, \<open>NULL\<close> if the file has no operations.\<close>

definition file_op :: "file_t \<Rightarrow> (file_operations \<Rightarrow> ptr) \<Rightarrow> vfs \<Rightarrow> (ptr \<Rightarrow> ('a, vfs) exec) \<Rightarrow> ('a, vfs) exec" where
  "file_op f sel s k =
     (if f_f_op f = NULL then k NULL else access (file_ops s) (f_f_op f) (\<lambda>ops. k (sel ops)))"

definition fs_close :: "fs_calls \<Rightarrow> s32 \<Rightarrow> vfs \<Rightarrow> (s32, vfs) exec" where
  "fs_close calls fd s =
     with_fd fd s (Ret (- E_INVAL) s) (\<lambda>file.
       access (files s) file (\<lambda>f. file_op f op_close s (\<lambda>op.
         and_then
           (if op \<noteq> NULL then (case call_close calls op file s of (ret, s) \<Rightarrow> Ret ret s) else Ret 0 s)
           (\<lambda>ret s. if sint ret < 0 then Ret ret s
                    else Ret 0 (s\<lparr>open_files := (open_files s)[nat (sint fd) := NULL]\<rparr>)))))"

definition fs_read :: "fs_calls \<Rightarrow> s32 \<Rightarrow> ptr \<Rightarrow> u64 \<Rightarrow> vfs \<Rightarrow> (s64, vfs) exec" where
  "fs_read calls fd buf count s =
     with_fd fd s (Ret (- E_INVAL) s) (\<lambda>file.
       if buf = NULL then Ret (- E_INVAL) s
       else access (files s) file (\<lambda>f. file_op f op_read s (\<lambda>op.
         if op \<noteq> NULL then (case call_read calls op file buf count s of (ret, s) \<Rightarrow> Ret ret s)
         else Ret (- E_NOTSUP) s)))"

definition fs_write :: "fs_calls \<Rightarrow> s32 \<Rightarrow> ptr \<Rightarrow> u64 \<Rightarrow> vfs \<Rightarrow> (s64, vfs) exec" where
  "fs_write calls fd buf count s =
     with_fd fd s (Ret (- E_INVAL) s) (\<lambda>file.
       if buf = NULL then Ret (- E_INVAL) s
       else access (files s) file (\<lambda>f. file_op f op_write s (\<lambda>op.
         if op \<noteq> NULL then (case call_write calls op file buf count s of (ret, s) \<Rightarrow> Ret ret s)
         else Ret (- E_NOTSUP) s)))"

text \<open>The default of \<open>fs_lseek\<close>: \<open>f_pos\<close> and \<open>i_size\<close> are unsigned, so the sums wrap around.\<close>

definition lseek_target :: "file_t \<Rightarrow> s64 \<Rightarrow> s32 \<Rightarrow> vfs \<Rightarrow> (s64 option, vfs) exec" where
  "lseek_target f offset whence s =
     (if whence = 0 then Ret (Some offset) s
      else if whence = 1 then Ret (Some (f_pos f + offset)) s
      else if whence = 2 then
        (if f_inode f = NULL then Ret None s
         else access (inodes s) (f_inode f) (\<lambda>i. Ret (Some (i_size i + offset)) s))
      else Ret None s)"

definition fs_lseek :: "fs_calls \<Rightarrow> s32 \<Rightarrow> s64 \<Rightarrow> s32 \<Rightarrow> vfs \<Rightarrow> (s64, vfs) exec" where
  "fs_lseek calls fd offset whence s =
     with_fd fd s (Ret (- E_INVAL) s) (\<lambda>file.
       access (files s) file (\<lambda>f. file_op f op_lseek s (\<lambda>op.
         if op \<noteq> NULL then (case call_lseek calls op file offset whence s of (ret, s) \<Rightarrow> Ret ret s)
         else and_then (lseek_target f offset whence s) (\<lambda>new_pos s.
           case new_pos of
             None \<Rightarrow> Ret (- E_INVAL) s
           | Some new_pos \<Rightarrow>
               if sint new_pos < 0 then Ret (- E_INVAL) s
               else Ret new_pos (s\<lparr>files := (files s)(file \<mapsto> f\<lparr>f_pos := new_pos\<rparr>)\<rparr>)))))"

definition fs_mkdir :: "cstr \<Rightarrow> u32 \<Rightarrow> vfs \<Rightarrow> (s32, vfs) exec" where
  "fs_mkdir path mode s = Ret (- E_NOTFOUND) s"

definition fs_unlink :: "cstr \<Rightarrow> vfs \<Rightarrow> (s32, vfs) exec" where
  "fs_unlink path s = Ret (- E_NOTFOUND) s"

end
