(* ===== verification/VFS_Props.thy ===== *)
theory VFS_Props
  imports VFS
begin

text \<open>
  Properties of the virtual file system: the registry of file system types implements a finite map
  from names to types, the descriptor checks, closing and seeking.
\<close>

section \<open>The registry as an interface\<close>

text \<open>Registering a list of types, collecting the return values.\<close>

fun register_all :: "(ptr \<Rightarrow> 's \<Rightarrow> (s32, 's) exec) \<Rightarrow> ptr list \<Rightarrow> 's \<Rightarrow> (s32 list, 's) exec" where
  "register_all reg [] s = Ret [] s"
| "register_all reg (p # ps) s =
     and_then (reg p s) (\<lambda>r s. and_then (register_all reg ps s) (\<lambda>rs s. Ret (r # rs) s))"

locale registry =
  fixes reg :: "ptr \<Rightarrow> 's \<Rightarrow> (s32, 's) exec"
    and look :: "string \<Rightarrow> 's \<Rightarrow> (ptr, 's) exec"
    and rep :: "'s \<Rightarrow> (string \<rightharpoonup> ptr) \<Rightarrow> bool"
    and named :: "'s \<Rightarrow> ptr \<Rightarrow> string option"
  assumes look_law: "rep s T \<Longrightarrow> c_string n \<Longrightarrow>
      look n s = Ret (case T n of None \<Rightarrow> NULL | Some p \<Rightarrow> p) s"
    and reg_new: "rep s T \<Longrightarrow> named s p = Some n \<Longrightarrow> T n = None \<Longrightarrow>
      \<exists>s'. reg p s = Ret 0 s' \<and> rep s' (T(n \<mapsto> p)) \<and> named s' = named s"
    and reg_old: "rep s T \<Longrightarrow> named s p = Some n \<Longrightarrow> T n = Some q \<Longrightarrow> reg p s = Ret 5 s"
    and named_string: "rep s T \<Longrightarrow> named s p = Some n \<Longrightarrow> c_string n"
begin

lemma register_all_new:
  assumes "rep s T" "\<forall>p \<in> set ps. named s p \<noteq> None" "distinct (map (named s) ps)"
    and "\<forall>p \<in> set ps. T (the (named s p)) = None"
  shows "\<exists>s'. register_all reg ps s = Ret (replicate (length ps) 0) s' \<and> named s' = named s \<and>
    rep s' (T ++ map_of (map (\<lambda>p. (the (named s p), p)) ps))"
  using assms
proof (induction ps arbitrary: s T)
  case Nil
  then show ?case by simp
next
  case (Cons p ps)
  then obtain n where n: "named s p = Some n" by auto
  obtain s1 where s1: "reg p s = Ret 0 s1" "rep s1 (T(n \<mapsto> p))" "named s1 = named s"
    using reg_new [OF Cons.prems(1) n] Cons.prems(4) n by auto
  have fresh: "the (named s q) \<noteq> n" if "q \<in> set ps" for q
    using Cons.prems(2,3) n that by (force simp: image_iff)
  have pre: "\<forall>q \<in> set ps. named s1 q \<noteq> None" "distinct (map (named s1) ps)"
    "\<forall>q \<in> set ps. (T(n \<mapsto> p)) (the (named s1 q)) = None"
    using Cons.prems(2-4) fresh unfolding s1(3) by auto
  obtain s' where s': "register_all reg ps s1 = Ret (replicate (length ps) 0) s'" "named s' = named s"
    "rep s' (T(n \<mapsto> p) ++ map_of (map (\<lambda>p. (the (named s p), p)) ps))"
    using Cons.IH [OF s1(2) pre] unfolding s1(3) by blast
  have "n \<notin> (\<lambda>p. the (named s p)) ` set ps" using fresh by blast
  then have "n \<notin> dom (map_of (map (\<lambda>p. (the (named s p), p)) ps))"
    by (simp add: dom_map_of_conv_image_fst image_image)
  then have "T(n \<mapsto> p) ++ map_of (map (\<lambda>p. (the (named s p), p)) ps) =
      T ++ map_of (map (\<lambda>p. (the (named s p), p)) (p # ps))"
    using n by (auto simp: fun_eq_iff map_add_def domIff split: option.splits)
  then have "rep s' (T ++ map_of (map (\<lambda>p. (the (named s p), p)) (p # ps)))" using s'(3) by (simp only:)
  moreover have "register_all reg (p # ps) s = Ret (replicate (length (p # ps)) 0) s'"
    using s1(1) s'(1) by simp
  ultimately show ?case using s'(2) by blast
qed

lemma registered_found:
  assumes r: "rep s T" and p: "\<forall>p \<in> set ps. named s p \<noteq> None" "distinct (map (named s) ps)"
    and t: "\<forall>p \<in> set ps. T (the (named s p)) = None"
  shows "\<exists>s'. register_all reg ps s = Ret (replicate (length ps) 0) s' \<and>
    (\<forall>p \<in> set ps. look (the (named s p)) s' = Ret p s') \<and>
    (\<forall>p \<in> set ps. reg p s' = Ret 5 s')"
proof -
  let ?M = "map_of (map (\<lambda>p. (the (named s p), p)) ps)"
  obtain s' where s': "register_all reg ps s = Ret (replicate (length ps) 0) s'" "named s' = named s"
    "rep s' (T ++ ?M)" using register_all_new [OF assms] by blast
  have "named s x = named s y" if "x \<in> set ps" "y \<in> set ps" "the (named s x) = the (named s y)" for x y
    using p(1) that by (intro option.expand) auto
  then have "distinct (map fst (map (\<lambda>p. (the (named s p), p)) ps))"
    using p(2) by (simp add: comp_def distinct_map inj_on_def)
  then have m: "(T ++ ?M) (the (named s q)) = Some q" if "q \<in> set ps" for q
    using that by (intro map_add_find_right map_of_is_SomeI) auto
  have n: "named s' q = Some (the (named s q))" if "q \<in> set ps" for q using p(1) s'(2) that by auto
  have "look (the (named s q)) s' = Ret q s'" if "q \<in> set ps" for q
    using look_law [OF s'(3) named_string [OF s'(3) n [OF that]]] m [OF that] by simp
  moreover have "reg q s' = Ret 5 s'" if "q \<in> set ps" for q
    using reg_old [OF s'(3) n [OF that] m [OF that]] .
  ultimately show ?thesis using s'(1) by blast
qed

end

section \<open>The list of types implements it\<close>

definition type_name :: "vfs \<Rightarrow> ptr \<Rightarrow> string option" where
  "type_name s p = (if p = NULL then None else case fs_types s p of None \<Rightarrow> None | Some t \<Rightarrow> t_name t)"

fun type_seg :: "vfs \<Rightarrow> ptr \<Rightarrow> ptr list \<Rightarrow> bool" where
  "type_seg s p [] \<longleftrightarrow> p = NULL"
| "type_seg s p (t # ts) \<longleftrightarrow> p = t \<and> type_name s t \<noteq> None \<and> type_seg s (t_next (the (fs_types s t))) ts"

definition types_rep :: "vfs \<Rightarrow> (string \<rightharpoonup> ptr) \<Rightarrow> bool" where
  "types_rep s T \<longleftrightarrow>
     (\<exists>ts. type_seg s (registered_fs_types s) ts \<and> distinct (map (type_name s) ts) \<and>
       T = map_of (map (\<lambda>t. (the (type_name s t), t)) ts)) \<and>
     (\<forall>p n. type_name s p = Some n \<longrightarrow> c_string n)"

lemma type_seg_names: "type_seg s p ts \<Longrightarrow> t \<in> set ts \<Longrightarrow> t \<noteq> NULL \<and> (\<exists>x. fs_types s t = Some x \<and> type_name s t = t_name x \<and> t_name x \<noteq> None)"
  by (induction ts arbitrary: p) (auto simp: type_name_def split: option.splits if_splits)

lemma find_type_loop_run:
  assumes "type_seg s p ts" "\<forall>t \<in> set ts. c_string (the (type_name s t))" "c_string n"
  shows "find_type_loop (Some n) p s =
    Some (Ret (case map_of (map (\<lambda>t. (the (type_name s t), t)) ts) n of None \<Rightarrow> NULL | Some q \<Rightarrow> q) s)"
  using assms(1,2)
proof (induction ts arbitrary: p)
  case Nil
  then show ?case by (subst find_type_loop.simps) simp
next
  case (Cons t ts)
  then obtain x y where x: "fs_types s t = Some x" "t_name x = Some y" "t \<noteq> NULL" "type_name s t = Some y"
    using type_seg_names [OF Cons.prems(1), of t] by auto
  have "strcmp y n = 0 \<longleftrightarrow> y = n" using Cons.prems(2) x(4) assms(3) by (intro strcmp_eq_0) auto
  then show ?case
    using Cons x by (subst find_type_loop.simps) auto
qed

lemma type_seg_cong:
  assumes "\<And>t. t \<in> set ts \<Longrightarrow> fs_types s' t = fs_types s t"
  shows "type_seg s' p ts = type_seg s p ts"
  using assms by (induction ts arbitrary: p) (auto simp: type_name_def)

lemma types_rep_find:
  assumes "types_rep s T" "c_string n"
  shows "find_type_loop (Some n) (registered_fs_types s) s =
    Some (Ret (case T n of None \<Rightarrow> NULL | Some q \<Rightarrow> q) s)"
proof -
  obtain ts where ts: "type_seg s (registered_fs_types s) ts" "T = map_of (map (\<lambda>t. (the (type_name s t), t)) ts)"
    and c: "\<forall>p n. type_name s p = Some n \<longrightarrow> c_string n" using assms(1) by (auto simp: types_rep_def)
  have "\<forall>t \<in> set ts. c_string (the (type_name s t))" using type_seg_names [OF ts(1)] c by fastforce
  then show ?thesis using find_type_loop_run [OF ts(1) _ assms(2)] ts(2) by simp
qed

lemma types_rep_nonnull: "types_rep s T \<Longrightarrow> T n = Some p \<Longrightarrow> p \<noteq> NULL"
  using type_seg_names by (fastforce simp: types_rep_def dest!: map_of_SomeD)

text \<open>Linking a new type at the head.\<close>

lemma types_rep_link:
  assumes rep: "types_rep s T" and p: "p \<noteq> NULL" "fs_types s p = Some t" "t_name t = Some n" "T n = None"
  defines "s' \<equiv> s\<lparr>fs_types := (fs_types s)(p \<mapsto> t\<lparr>t_next := registered_fs_types s\<rparr>), registered_fs_types := p\<rparr>"
  shows "types_rep s' (T(n \<mapsto> p))" "type_name s' = type_name s"
proof -
  obtain ts where ts: "type_seg s (registered_fs_types s) ts" "distinct (map (type_name s) ts)"
    "T = map_of (map (\<lambda>t. (the (type_name s t), t)) ts)"
    and c: "\<forall>p n. type_name s p = Some n \<longrightarrow> c_string n" using rep by (auto simp: types_rep_def)
  have n: "type_name s p = Some n" using p by (simp add: type_name_def)
  show tn: "type_name s' = type_name s" using p by (auto simp: fun_eq_iff type_name_def s'_def)
  have notin: "type_name s q \<noteq> Some n" if "q \<in> set ts" for q
    using p(4) that unfolding ts(3) by (auto simp: map_of_eq_None_iff image_iff)
  then have "p \<notin> set ts" using n by auto
  then have "fs_types s' q = fs_types s q" if "q \<in> set ts" for q using that by (auto simp: s'_def)
  then have "type_seg s' (registered_fs_types s) ts" using ts(1) type_seg_cong by blast
  then have a: "type_seg s' (registered_fs_types s') (p # ts)"
    using n tn by (simp add: s'_def)
  have b: "distinct (map (type_name s) (p # ts))" using ts(2) notin n by fastforce
  have e: "T(n \<mapsto> p) = map_of (map (\<lambda>t. (the (type_name s t), t)) (p # ts))" using n ts(3) by simp
  show "types_rep s' (T(n \<mapsto> p))" unfolding types_rep_def tn using a b e c by blast
qed

lemma register_run:
  assumes rep: "types_rep s T" and n: "type_name s p = Some n"
  shows "T n = None \<Longrightarrow> \<exists>s'. register_filesystem p s = Ret 0 s' \<and> types_rep s' (T(n \<mapsto> p)) \<and> type_name s' = type_name s"
    and "T n = Some q \<Longrightarrow> register_filesystem p s = Ret 5 s"
proof -
  have c: "c_string n" using rep n by (auto simp: types_rep_def)
  obtain t where t: "p \<noteq> NULL" "fs_types s p = Some t" "t_name t = Some n"
    using n by (auto simp: type_name_def split: if_splits option.splits)
  note find = types_rep_find [OF rep c]
  show "\<exists>s'. register_filesystem p s = Ret 0 s' \<and> types_rep s' (T(n \<mapsto> p)) \<and> type_name s' = type_name s"
    if "T n = None"
    using find that t types_rep_link [OF rep t that] by (simp add: register_filesystem_def access_def)
  show "register_filesystem p s = Ret 5 s" if "T n = Some q"
    using find that t types_rep_nonnull [OF rep that]
    by (simp add: register_filesystem_def access_def E_EXIST_def)
qed

interpretation fs_registry: registry register_filesystem "\<lambda>n. find_filesystem (Some n)" types_rep type_name
proof
  fix s T n assume "types_rep s T" "c_string n"
  then show "find_filesystem (Some n) s = Ret (case T n of None \<Rightarrow> NULL | Some p \<Rightarrow> p) s"
    using types_rep_find by (simp add: find_filesystem_def)
qed (rule register_run; assumption | simp add: types_rep_def)+

section \<open>Properties of the registry\<close>

definition two_types :: vfs where
  "two_types = vfs_init \<lparr>registered_fs_types = 7, mounted_fs_list = 0, open_files = [],
     fs_types = [16 \<mapsto> \<lparr>t_name = Some ''ext2'', t_fs_flags = 0, t_mount = 1, t_unmount = 0, t_next = 0\<rparr>,
                 32 \<mapsto> \<lparr>t_name = Some ''proc'', t_fs_flags = 0, t_mount = 2, t_unmount = 0, t_next = 0\<rparr>],
     file_systems = [64 \<mapsto> \<lparr>s_dev_name = None, s_mount_point = None, s_fs_type = 0, s_s_op = 0,
       s_private_data = 0, s_root = 0, s_flags = 0\<rparr>],
     inodes = Map.empty, files = Map.empty, file_ops = Map.empty,
     dentries = Map.empty, inode_ops = Map.empty, super_ops = Map.empty\<rparr>"

lemma vfs_init_rep:
  assumes "\<forall>p n. type_name s p = Some n \<longrightarrow> c_string n"
  shows "types_rep (vfs_init s) Map.empty" "type_name (vfs_init s) = type_name s"
proof -
  show t: "type_name (vfs_init s) = type_name s" by (simp add: fun_eq_iff type_name_def vfs_init_def)
  show "types_rep (vfs_init s) Map.empty"
    using assms unfolding types_rep_def t
    by (auto simp: vfs_init_def intro!: exI [of _ "[]"])
qed

text \<open>C27. The registry of file system types is a map from names to types: after \<open>vfs_init\<close>, registering any
  list of types with different names succeeds for each of them, afterwards \<open>find_filesystem\<close> returns
  exactly the type registered under a name, and registering one of them again is refused with
  \<open>-E_EXIST\<close>, which is +5 because the constants are negative already; no call loops or faults.\<close>

theorem vfs_registry:
  assumes names: "\<forall>p n. type_name s p = Some n \<longrightarrow> c_string n"
    and ps: "\<forall>p \<in> set ps. type_name s p \<noteq> None" "distinct (map (type_name s) ps)"
  shows "\<exists>s'. register_all register_filesystem ps (vfs_init s) = Ret (replicate (length ps) 0) s' \<and>
    (\<forall>p \<in> set ps. find_filesystem (type_name s p) s' = Ret p s') \<and>
    (\<forall>p \<in> set ps. register_filesystem p s' = Ret 5 s')"
proof -
  note r = vfs_init_rep [OF names]
  obtain s' where s': "register_all register_filesystem ps (vfs_init s) = Ret (replicate (length ps) 0) s'"
    "\<forall>p \<in> set ps. find_filesystem (Some (the (type_name s p))) s' = Ret p s'"
    "\<forall>p \<in> set ps. register_filesystem p s' = Ret 5 s'"
    using fs_registry.registered_found [OF r(1), unfolded r(2), OF ps] by auto
  have "Some (the (type_name s p)) = type_name s p" if "p \<in> set ps" for p using ps(1) that by auto
  then show ?thesis using s' by fastforce
qed

lemma two_types_names: "type_name two_types p = (if p = 16 then Some ''ext2'' else if p = 32 then Some ''proc'' else None)"
  by (simp add: type_name_def two_types_def vfs_init_def)

theorem vfs_registry_witness:
  "\<exists>s'. register_all register_filesystem [16, 32] (vfs_init two_types) = Ret [0, 0] s' \<and>
    find_filesystem (Some ''ext2'') s' = Ret 16 s' \<and> register_filesystem 32 s' = Ret 5 s'"
proof -
  have "\<forall>p n. type_name two_types p = Some n \<longrightarrow> c_string n"
    by (auto simp: two_types_names c_string_def split: if_splits)
  moreover have "\<forall>p \<in> set [16, 32]. type_name two_types p \<noteq> None" by (simp add: two_types_names)
  moreover have "distinct (map (type_name two_types) [16, 32])" by (simp add: two_types_names)
  ultimately show ?thesis
    using vfs_registry [of two_types "[16, 32]"] by (auto simp: two_types_names numeral_2_eq_2)
qed

text \<open>C35. \<open>mount_fs\<close>, all branches, whatever the file system's own \<open>mount\<close> does: an unknown name is
  refused without a call, a failed mount gives \<open>-E_IO\<close> (+3), a successful one marks the file system as
  mounted with the flags given and enters its type. The list of mounted file systems is left as the
  file system's \<open>mount\<close> left it: nothing is ever added to it.\<close>

theorem mount_fs_correct:
  assumes rep: "types_rep s T" and n: "c_string n"
  shows "case T n of
      None \<Rightarrow> mount_fs calls (Some n) dev mp flags data s = Ret 4 s
    | Some p \<Rightarrow> \<exists>t. fs_types s p = Some t \<and>
        (if t_mount t = NULL then mount_fs calls (Some n) dev mp flags data s = Crash NullDeref
         else case call_mount calls (t_mount t) (Some n) dev mp data s of (fs, s1) \<Rightarrow>
           if fs = NULL then mount_fs calls (Some n) dev mp flags data s = Ret 3 s1
           else case file_systems s1 fs of
             None \<Rightarrow> mount_fs calls (Some n) dev mp flags data s = Crash BadPtr
           | Some f \<Rightarrow> \<exists>s2. mount_fs calls (Some n) dev mp flags data s = Ret 0 s2 \<and>
               mounted_fs_list s2 = mounted_fs_list s1 \<and>
               file_systems s2 = (file_systems s1)(fs \<mapsto> f\<lparr>s_flags := 1 OR flags, s_fs_type := p\<rparr>))"
proof (cases "T n")
  case None
  then show ?thesis
    using types_rep_find [OF rep n] by (simp add: mount_fs_def find_filesystem_def E_NOTFOUND_def)
next
  case (Some p)
  obtain t where t: "fs_types s p = Some t"
    using rep Some type_seg_names by (fastforce simp: types_rep_def dest!: map_of_SomeD)
  obtain fs s1 where c: "call_mount calls (t_mount t) (Some n) dev mp data s = (fs, s1)" by fastforce
  have f: "find_filesystem (Some n) s = Ret p s"
    using types_rep_find [OF rep n] Some by (simp add: find_filesystem_def)
  show ?thesis
    using types_rep_nonnull [OF rep Some]
    by (simp add: Some t c f mount_fs_def access_def E_IO_def FS_MOUNTED_def split: option.split)
qed

text \<open>A file system whose \<open>mount\<close> returns the object at address 64.\<close>

definition simple_calls :: fs_calls where
  "simple_calls = \<lparr>call_mount = (\<lambda>_ _ _ _ _ s. (64, s)), call_read = (\<lambda>_ _ _ n s. (n, s)),
     call_write = (\<lambda>_ _ _ n s. (n, s)), call_close = (\<lambda>_ _ s. (0, s)), call_lseek = (\<lambda>_ _ o' _ s. (o', s))\<rparr>"

theorem mount_fs_correct_witness:
  "\<exists>s2. mount_fs simple_calls (Some ''proc'') None None 4 0 (two_types\<lparr>registered_fs_types := 32\<rparr>) = Ret 0 s2 \<and>
    map_option s_flags (file_systems s2 64) = Some 5"
proof -
  let ?s = "two_types\<lparr>registered_fs_types := 32\<rparr>"
  have t: "type_name ?s = type_name two_types" by (simp add: fun_eq_iff type_name_def)
  have "type_seg ?s 32 [32]" unfolding type_seg.simps t by (simp add: two_types_names) (simp add: two_types_def vfs_init_def)
  then have "types_rep ?s [''proc'' \<mapsto> 32]"
    unfolding types_rep_def t
    by (auto simp: two_types_names c_string_def intro!: exI [of _ "[32]"])
  moreover have "c_string ''proc''" by (simp add: c_string_def)
  ultimately show ?thesis
    using mount_fs_correct [of ?s "[''proc'' \<mapsto> 32]" "''proc''" simple_calls None None 4 0]
    by (auto simp: simple_calls_def two_types_def vfs_init_def)
qed

section \<open>Properties of open files\<close>

definition bad_fd :: "s32 \<Rightarrow> vfs \<Rightarrow> bool" where
  "bad_fd fd s \<longleftrightarrow> sint fd < 0 \<or> sint fd \<ge> 256 \<or> open_files s ! nat (sint fd) = NULL"

lemma with_fd_bad:
  assumes "length (open_files s) = 256" "bad_fd fd s"
  shows "with_fd fd s bad k = bad"
  using assms by (auto simp: with_fd_def bad_fd_def)

lemma with_fd_good:
  assumes "length (open_files s) = 256" "\<not> bad_fd fd s"
  shows "with_fd fd s bad k = k (open_files s ! nat (sint fd))" "nat (sint fd) < 256"
  using assms by (auto simp: with_fd_def bad_fd_def)

text \<open>A descriptor that is negative, 256 or more, or not open is refused by every operation, for every
  file system: nothing is called, nothing changes, and no access leaves the table of 256 files. The
  result is +1: the constant \<open>E_INVAL\<close> is negative already and is negated again.\<close>

theorem bad_fd_refused:
  assumes "length (open_files s) = 256" "bad_fd fd s"
  shows "fs_close calls fd s = Ret 1 s \<and> fs_read calls fd buf count s = Ret 1 s \<and>
    fs_write calls fd buf count s = Ret 1 s \<and> fs_lseek calls fd offset whence s = Ret 1 s"
  using assms
  by (simp add: fs_close_def fs_read_def fs_write_def fs_lseek_def with_fd_bad E_INVAL_def)

theorem bad_fd_refused_witness:
  "fs_close simple_calls (- 1) two_types = Ret 1 two_types \<and>
   fs_read simple_calls 256 4096 10 two_types = Ret 1 two_types \<and>
   fs_lseek simple_calls 0 0 0 two_types = Ret 1 two_types"
proof -
  have l: "length (open_files two_types) = 256" by (simp add: two_types_def vfs_init_def)
  have b: "bad_fd (- 1) two_types" "bad_fd 256 two_types" "bad_fd 0 two_types"
    by (simp_all add: bad_fd_def two_types_def vfs_init_def)
  show ?thesis
    using bad_fd_refused [OF l b(1), of simple_calls] bad_fd_refused [OF l b(2), of simple_calls]
      bad_fd_refused [OF l b(3), of simple_calls] by simp
qed

text \<open>Closing: when the file system's own \<open>close\<close> (if there is one) does not touch the table of open
  files, then \<open>fs_close\<close> of an open descriptor either passes on the negative code that \<open>close\<close> returned
  and leaves the table, or returns 0 and frees exactly that slot; a closed descriptor is then refused.\<close>

theorem fs_close_frees:
  assumes len: "length (open_files s) = 256" and fd: "\<not> bad_fd fd s"
    and f: "files s (open_files s ! nat (sint fd)) = Some f"
    and ops: "f_f_op f = NULL \<or> file_ops s (f_f_op f) \<noteq> None"
    and calls: "\<And>op p s. open_files (snd (call_close calls op p s)) = open_files s"
  shows "\<exists>r s'. fs_close calls fd s = Ret r s' \<and>
    (if r = 0 then open_files s' = (open_files s)[nat (sint fd) := NULL] \<and> fs_close calls fd s' = Ret 1 s'
     else sint r < 0 \<and> open_files s' = open_files s)"
proof -
  let ?p = "open_files s ! nat (sint fd)"
  define op where "op = (if f_f_op f = NULL then NULL else op_close (the (file_ops s (f_f_op f))))"
  obtain r s1 where c: "(if op \<noteq> NULL then call_close calls op ?p s else (0, s)) = (r, s1)" by fastforce
  have o1: "open_files s1 = open_files s"
    using c calls [of op ?p s] by (auto split: if_splits)
  have run: "fs_close calls fd s = (if sint r < 0 then Ret r s1
      else Ret 0 (s1\<lparr>open_files := (open_files s)[nat (sint fd) := NULL]\<rparr>))"
    using f ops c o1
    by (auto simp: fs_close_def with_fd_good [OF len fd] access_def file_op_def op_def split: if_splits)
  show ?thesis
  proof (cases "sint r < 0")
    case True
    then show ?thesis using run o1 by auto
  next
    case False
    let ?s = "s1\<lparr>open_files := (open_files s)[nat (sint fd) := NULL]\<rparr>"
    have "bad_fd fd ?s" "length (open_files ?s) = 256"
      using len with_fd_good(2) [OF len fd] by (simp_all add: bad_fd_def)
    then have "fs_close calls fd ?s = Ret 1 ?s"
      by (simp add: fs_close_def with_fd_bad E_INVAL_def)
    then show ?thesis using run False by simp
  qed
qed

definition one_file :: vfs where
  "one_file = two_types\<lparr>open_files := 48 # replicate 255 NULL,
     files := [48 \<mapsto> \<lparr>f_dentry = 0, f_inode = 0, f_mode = 0, f_flags = 1, f_pos = 10, f_f_op = 0, f_private_data = 0\<rparr>]\<rparr>"

theorem fs_close_frees_witness:
  "\<exists>s'. fs_close simple_calls 0 one_file = Ret 0 s' \<and> open_files s' = replicate 256 NULL \<and>
    fs_close simple_calls 0 s' = Ret 1 s'"
proof -
  have l: "length (open_files one_file) = 256" and b: "\<not> bad_fd 0 one_file"
    by (simp_all add: one_file_def bad_fd_def)
  obtain f where f: "files one_file (open_files one_file ! nat (sint (0 :: s32))) = Some f" "f_f_op f = NULL"
    by (simp add: one_file_def)
  have run: "fs_close simple_calls 0 one_file = Ret 0 (one_file\<lparr>open_files := replicate 256 NULL\<rparr>)"
    using f by (simp add: fs_close_def with_fd_good [OF l b] access_def file_op_def)
      (simp add: one_file_def numeral_eq_Suc)
  have c: "open_files (snd (call_close simple_calls op p s)) = open_files s" for op p s
    by (simp add: simple_calls_def)
  show ?thesis using fs_close_frees [OF l b f(1) disjI1 [OF f(2)], of simple_calls, OF c] run by auto
qed

text \<open>Seeking in a file without an operation of its own: the position asked for is the offset, the
  offset from the current position, or the offset from the size of the inode, modulo \<open>2^64\<close>. If it
  is negative as a signed number, or the mode is unknown, or there is no inode to take the size from,
  the position stays and the result is +1, the same as for a successful seek to position 1.\<close>

theorem fs_lseek_default:
  assumes len: "length (open_files s) = 256" and fd: "\<not> bad_fd fd s"
    and p: "p = open_files s ! nat (sint fd)" and f: "files s p = Some f"
    and noop: "f_f_op f = NULL \<or> map_option op_lseek (file_ops s (f_f_op f)) = Some NULL"
    and ino: "f_inode f = NULL \<or> inodes s (f_inode f) \<noteq> None"
  shows "let pos = (if whence = 0 then Some offset else if whence = 1 then Some (f_pos f + offset)
        else if whence = 2 \<and> f_inode f \<noteq> NULL then Some (i_size (the (inodes s (f_inode f))) + offset)
        else None)
    in fs_lseek calls fd offset whence s =
      (case pos of None \<Rightarrow> Ret 1 s
       | Some n \<Rightarrow> if sint n < 0 then Ret 1 s else Ret n (s\<lparr>files := (files s)(p \<mapsto> f\<lparr>f_pos := n\<rparr>)\<rparr>))"
  using noop ino f
  by (auto simp: fs_lseek_def with_fd_good [OF len fd] p [symmetric] access_def file_op_def lseek_target_def
      E_INVAL_def Let_def)

theorem fs_lseek_default_witness:
  "(\<exists>s'. fs_lseek simple_calls 0 (- 3) 1 one_file = Ret 7 s') \<and>
   fs_lseek simple_calls 0 (- 11) 1 one_file = Ret 1 one_file \<and>
   (\<exists>s'. fs_lseek simple_calls 0 1 0 one_file = Ret 1 s' \<and> s' \<noteq> one_file)"
proof -
  have l: "length (open_files one_file) = 256" and b: "\<not> bad_fd 0 one_file"
    by (simp_all add: one_file_def bad_fd_def)
  have p: "48 = open_files one_file ! nat (sint (0 :: s32))" by (simp add: one_file_def)
  define f where "f = \<lparr>f_dentry = 0, f_inode = 0, f_mode = 0, f_flags = 1, f_pos = 10, f_f_op = 0, f_private_data = 0\<rparr>"
  have f: "files one_file 48 = Some f" "f_f_op f = NULL" "f_inode f = NULL" "f_pos f = 10"
    by (simp_all add: one_file_def f_def)
  note seek = fs_lseek_default [OF l b p f(1) disjI1 [OF f(2)] disjI1 [OF f(3)], of _ _ simple_calls]
  have "one_file\<lparr>files := (files one_file)(48 \<mapsto> f\<lparr>f_pos := 1\<rparr>)\<rparr> \<noteq> one_file"
    by (rule notI, drule arg_cong [of _ _ "\<lambda>s. map_option f_pos (files s 48)"]) (simp add: f)
  then show ?thesis
    using seek [of 1 "- 3"] seek [of 1 "- 11"] seek [of 0 1] by (simp add: f Let_def)
qed

end
