(* ===== verification/VFS_Typing.thy ===== *)
theory VFS_Typing
  imports VFS_Props Safe_Calls
begin

text \<open>
  A typing of the state of the virtual file system: every pointer in a structure, in the table of open
  files and at the head of the list of mounted file systems is null or points to an object of its
  declared type, the table of open files has its 256 entries, the registered types form a list. Every operation keeps it, and on a well-typed state no operation
  faults, provided the file systems themselves keep to the interface.
\<close>

section \<open>Well-typed states\<close>

definition points :: "(ptr \<Rightarrow> 'b option) \<Rightarrow> ptr \<Rightarrow> bool" where
  "points store p \<longleftrightarrow> p = NULL \<or> store p \<noteq> None"

definition file_ok :: "vfs \<Rightarrow> file_t \<Rightarrow> bool" where
  "file_ok s f \<longleftrightarrow> points (dentries s) (f_dentry f) \<and> points (inodes s) (f_inode f) \<and>
     points (file_ops s) (f_f_op f)"

definition inode_ok :: "vfs \<Rightarrow> inode \<Rightarrow> bool" where
  "inode_ok s i \<longleftrightarrow> points (inode_ops s) (i_i_op i) \<and> points (file_ops s) (i_f_op i) \<and>
     points (file_systems s) (i_fs i)"

definition dentry_ok :: "vfs \<Rightarrow> dentry \<Rightarrow> bool" where
  "dentry_ok s d \<longleftrightarrow> points (inodes s) (d_inode d) \<and> points (dentries s) (d_parent d) \<and>
     points (dentries s) (d_next d) \<and> points (dentries s) (d_child d)"

definition fs_ok :: "vfs \<Rightarrow> file_system \<Rightarrow> bool" where
  "fs_ok s f \<longleftrightarrow> points (fs_types s) (s_fs_type f) \<and> points (super_ops s) (s_s_op f) \<and>
     points (dentries s) (s_root f)"

definition objs_ok :: "vfs \<Rightarrow> bool" where
  "objs_ok s \<longleftrightarrow> (\<forall>f \<in> ran (files s). file_ok s f) \<and> (\<forall>i \<in> ran (inodes s). inode_ok s i) \<and>
     (\<forall>d \<in> ran (dentries s). dentry_ok s d) \<and> (\<forall>f \<in> ran (file_systems s). fs_ok s f)"

text \<open>The registered types: a list with different names, each with a \<open>mount\<close> operation.\<close>

definition types_ok :: "vfs \<Rightarrow> bool" where
  "types_ok s \<longleftrightarrow> (\<exists>T. types_rep s T \<and> (\<forall>p \<in> ran T. \<exists>t. fs_types s p = Some t \<and> t_mount t \<noteq> NULL))"

definition vfs_ok :: "vfs \<Rightarrow> bool" where
  "vfs_ok s \<longleftrightarrow> length (open_files s) = 256 \<and> (\<forall>p \<in> set (open_files s). points (files s) p) \<and>
     points (file_systems s) (mounted_fs_list s) \<and> types_ok s \<and> objs_ok s"

section \<open>The interface of a file system\<close>

text \<open>What a file system may do to the state. The three variables of \<open>vfs.c\<close> are \<open>static\<close>, so other
  files cannot reach them; the registered types stay as they are; files and file systems may be added and
  changed but not taken away; and what the operation leaves has the types that the structures
  declare.\<close>

definition fs_frame :: "vfs \<Rightarrow> vfs \<Rightarrow> bool" where
  "fs_frame s s' \<longleftrightarrow> registered_fs_types s' = registered_fs_types s \<and> fs_types s' = fs_types s \<and>
     open_files s' = open_files s \<and> mounted_fs_list s' = mounted_fs_list s \<and>
     dom (files s) \<subseteq> dom (files s') \<and> dom (file_systems s) \<subseteq> dom (file_systems s') \<and> objs_ok s'"

definition calls_ok :: "fs_calls \<Rightarrow> bool" where
  "calls_ok calls \<longleftrightarrow>
     (\<forall>op n dev mp d s. objs_ok s \<longrightarrow> (case call_mount calls op n dev mp d s of (fs, s') \<Rightarrow>
        fs_frame s s' \<and> points (file_systems s') fs)) \<and>
     (\<forall>op p buf n s. objs_ok s \<and> files s p \<noteq> None \<longrightarrow> fs_frame s (snd (call_read calls op p buf n s))) \<and>
     (\<forall>op p buf n s. objs_ok s \<and> files s p \<noteq> None \<longrightarrow> fs_frame s (snd (call_write calls op p buf n s))) \<and>
     (\<forall>op p s. objs_ok s \<and> files s p \<noteq> None \<longrightarrow> fs_frame s (snd (call_close calls op p s))) \<and>
     (\<forall>op p off w s. objs_ok s \<and> files s p \<noteq> None \<longrightarrow> fs_frame s (snd (call_lseek calls op p off w s)))"

lemma calls_okD:
  assumes "calls_ok calls" "objs_ok s"
  shows "fs_frame s (snd (call_mount calls op n dev mp d s))"
    "points (file_systems (snd (call_mount calls op n dev mp d s))) (fst (call_mount calls op n dev mp d s))"
    "files s p \<noteq> None \<Longrightarrow> fs_frame s (snd (call_read calls op p buf k s))"
    "files s p \<noteq> None \<Longrightarrow> fs_frame s (snd (call_write calls op p buf k s))"
    "files s p \<noteq> None \<Longrightarrow> fs_frame s (snd (call_close calls op p s))"
    "files s p \<noteq> None \<Longrightarrow> fs_frame s (snd (call_lseek calls op p off w s))"
  using assms unfolding calls_ok_def by (auto simp: case_prod_beta)

section \<open>The calls\<close>

datatype vcall = Register ptr | Find cstr | Mount cstr cstr cstr s32 ptr | Open cstr s32 s32 | Close s32
  | Read s32 ptr u64 | Write s32 ptr u64 | Lseek s32 s64 s32 | Mkdir cstr u32 | Unlink cstr

definition ended :: "('a, 's) exec \<Rightarrow> (unit, 's) exec" where
  "ended r = and_then r (\<lambda>_ s. Ret () s)"

fun vcall_run :: "fs_calls \<Rightarrow> vcall \<Rightarrow> vfs \<Rightarrow> (unit, vfs) exec" where
  "vcall_run calls (Register p) s = ended (register_filesystem p s)"
| "vcall_run calls (Find name) s = ended (find_filesystem name s)"
| "vcall_run calls (Mount n dev mp flags data) s = ended (mount_fs calls n dev mp flags data s)"
| "vcall_run calls (Open path flags mode) s = ended (fs_open path flags mode s)"
| "vcall_run calls (Close fd) s = ended (fs_close calls fd s)"
| "vcall_run calls (Read fd buf n) s = ended (fs_read calls fd buf n s)"
| "vcall_run calls (Write fd buf n) s = ended (fs_write calls fd buf n s)"
| "vcall_run calls (Lseek fd off w) s = ended (fs_lseek calls fd off w s)"
| "vcall_run calls (Mkdir path mode) s = ended (fs_mkdir path mode s)"
| "vcall_run calls (Unlink path) s = ended (fs_unlink path s)"

text \<open>The callers' obligations, which the code does not check: a type to register is a type, with a
  \<open>mount\<close> operation if it has a name; a name to look up is a string.\<close>

fun vcall_ok :: "vcall \<Rightarrow> vfs \<Rightarrow> bool" where
  "vcall_ok (Register p) s =
     (p = NULL \<or> (\<exists>t. fs_types s p = Some t \<and> (t_name t = None \<or> t_mount t \<noteq> NULL)))"
| "vcall_ok (Find name) s = (\<exists>n. name = Some n \<and> c_string n)"
| "vcall_ok (Mount name dev mp flags data) s = (\<exists>n. name = Some n \<and> c_string n)"
| "vcall_ok _ s = True"

section \<open>Every call keeps the typing\<close>

definition keeps :: "('a, vfs) exec \<Rightarrow> bool" where
  "keeps r \<longleftrightarrow> (\<exists>v s'. r = Ret v s' \<and> vfs_ok s')"

lemma keeps_Ret [simp]: "keeps (Ret v s) = vfs_ok s"
  by (simp add: keeps_def)

lemma keeps_ended: "keeps r \<Longrightarrow> \<exists>s'. hands_on (ended r) s' \<and> vfs_ok s'"
  by (auto simp: keeps_def ended_def hands_on_def)

lemma types_ok_cong:
  assumes "registered_fs_types s' = registered_fs_types s" "fs_types s' = fs_types s"
  shows "types_ok s' = types_ok s"
proof -
  have t: "type_name s' = type_name s" using assms(2) by (simp add: fun_eq_iff type_name_def)
  have "type_seg s' p ts = type_seg s p ts" for p ts by (rule type_seg_cong) (simp add: assms(2))
  then show ?thesis unfolding types_ok_def types_rep_def t assms by simp
qed

lemma fs_frame_ok:
  assumes "fs_frame s s'" "vfs_ok s"
  shows "vfs_ok s'"
  using assms types_ok_cong [of s' s] by (auto simp: fs_frame_def vfs_ok_def points_def dom_def)

text \<open>An operation on an open file works on a file object, and its operation is found.\<close>

lemma with_file:
  assumes v: "vfs_ok s" and k: "\<And>p f op. files s p = Some f \<Longrightarrow> file_ok s f \<Longrightarrow> keeps (k p f op)"
  shows "keeps (with_fd fd s (Ret e s) (\<lambda>p. access (files s) p (\<lambda>f. file_op f sel s (k p f))))"
proof (cases "bad_fd fd s")
  case True
  then show ?thesis using v by (auto simp: with_fd_bad vfs_ok_def)
next
  case False
  let ?p = "open_files s ! nat (sint fd)"
  have l: "length (open_files s) = 256" using v by (simp add: vfs_ok_def)
  have "?p \<in> set (open_files s)" using with_fd_good(2) [OF l False] l by simp
  moreover have "?p \<noteq> NULL" using False by (simp add: bad_fd_def)
  ultimately obtain f where f: "files s ?p = Some f" using v by (auto simp: vfs_ok_def points_def)
  then have ok: "file_ok s f" using v by (auto simp: vfs_ok_def objs_ok_def ran_def)
  then have "f_f_op f = NULL \<or> (\<exists>ops. file_ops s (f_f_op f) = Some ops)"
    by (auto simp: file_ok_def points_def)
  then show ?thesis
    using k [OF f ok] f by (auto simp: with_fd_good(1) [OF l False] access_def file_op_def)
qed

lemma close_keeps:
  assumes v: "vfs_ok s" and c: "calls_ok calls"
  shows "keeps (fs_close calls fd s)"
  unfolding fs_close_def
proof (rule with_file [OF v])
  fix p f op assume f: "files s p = Some f"
  have o: "objs_ok s" using v by (simp add: vfs_ok_def)
  have u: "vfs_ok (s'\<lparr>open_files := (open_files s')[i := NULL]\<rparr>)" if s': "vfs_ok s'" for s' i
  proof -
    let ?s = "s'\<lparr>open_files := (open_files s')[i := NULL]\<rparr>"
    have "objs_ok ?s = objs_ok s'"
      by (simp add: objs_ok_def file_ok_def inode_ok_def dentry_ok_def fs_ok_def)
    moreover have "points (files s') q" if "q \<in> set ((open_files s')[i := NULL])" for q
      using that s' set_update_subset_insert [of "open_files s'" i NULL] by (auto simp: vfs_ok_def points_def)
    ultimately show ?thesis using s' types_ok_cong [of ?s s'] by (simp add: vfs_ok_def)
  qed
  have "vfs_ok (snd (call_close calls op p s))"
    using calls_okD(5) [OF c o, of p op] f fs_frame_ok v by auto
  then show "keeps (and_then
      (if op \<noteq> NULL then (case call_close calls op p s of (ret, s) \<Rightarrow> Ret ret s) else Ret 0 s)
      (\<lambda>ret s. if sint ret < 0 then Ret ret s else Ret 0 (s\<lparr>open_files := (open_files s)[nat (sint fd) := NULL]\<rparr>)))"
    using u v by (auto simp: case_prod_beta)
qed

lemma with_buffer:
  assumes "keeps (with_fd fd s (Ret e s) k)" "vfs_ok s"
  shows "keeps (with_fd fd s (Ret e s) (\<lambda>p. if buf = NULL then Ret e s else k p))"
  using assms by (cases "buf = NULL") (auto simp: with_fd_def Let_def keeps_def split: if_splits)

lemma read_keeps:
  assumes v: "vfs_ok s" and c: "calls_ok calls"
  shows "keeps (fs_read calls fd buf n s)" "keeps (fs_write calls fd buf n s)"
proof -
  have o: "objs_ok s" using v by (simp add: vfs_ok_def)
  show "keeps (fs_read calls fd buf n s)"
    unfolding fs_read_def
  proof (intro with_buffer with_file v)
    fix p f op assume "files s p = Some f"
    then have "vfs_ok (snd (call_read calls op p buf n s))"
      using calls_okD(3) [OF c o, of p op] fs_frame_ok v by auto
    then show "keeps (if op \<noteq> NULL then (case call_read calls op p buf n s of (ret, s) \<Rightarrow> Ret ret s)
        else Ret (- E_NOTSUP) s)" using v by (auto simp: case_prod_beta)
  qed
  show "keeps (fs_write calls fd buf n s)"
    unfolding fs_write_def
  proof (intro with_buffer with_file v)
    fix p f op assume "files s p = Some f"
    then have "vfs_ok (snd (call_write calls op p buf n s))"
      using calls_okD(4) [OF c o, of p op] fs_frame_ok v by auto
    then show "keeps (if op \<noteq> NULL then (case call_write calls op p buf n s of (ret, s) \<Rightarrow> Ret ret s)
        else Ret (- E_NOTSUP) s)" using v by (auto simp: case_prod_beta)
  qed
qed

lemma set_pos_ok:
  assumes v: "vfs_ok s" and f: "files s p = Some f"
  shows "vfs_ok (s\<lparr>files := (files s)(p \<mapsto> f\<lparr>f_pos := x\<rparr>)\<rparr>)"
proof -
  let ?s = "s\<lparr>files := (files s)(p \<mapsto> f\<lparr>f_pos := x\<rparr>)\<rparr>"
  have "file_ok ?s g = file_ok s g" "inode_ok ?s = inode_ok s" "dentry_ok ?s = dentry_ok s" "fs_ok ?s = fs_ok s" for g
    by (simp_all add: fun_eq_iff file_ok_def inode_ok_def dentry_ok_def fs_ok_def)
  moreover have "file_ok s (f\<lparr>f_pos := x\<rparr>) = file_ok s f" by (simp add: file_ok_def)
  moreover have "file_ok s f" using v f by (auto simp: vfs_ok_def objs_ok_def ran_def)
  ultimately have "objs_ok ?s"
    using v by (auto simp: vfs_ok_def objs_ok_def ran_def)
  then show ?thesis using v f types_ok_cong [of ?s s] by (auto simp: vfs_ok_def points_def)
qed

lemma lseek_keeps:
  assumes v: "vfs_ok s" and c: "calls_ok calls"
  shows "keeps (fs_lseek calls fd off w s)"
  unfolding fs_lseek_def
proof (rule with_file [OF v])
  fix p f op assume f: "files s p = Some f" "file_ok s f"
  have o: "objs_ok s" using v by (simp add: vfs_ok_def)
  have "vfs_ok (snd (call_lseek calls op p off w s))"
    using calls_okD(6) [OF c o, of p op] f fs_frame_ok v by auto
  moreover have "\<exists>x. lseek_target f off w s = Ret x s"
    using f(2) by (auto simp: lseek_target_def access_def file_ok_def points_def)
  ultimately show "keeps (if op \<noteq> NULL then (case call_lseek calls op p off w s of (ret, s) \<Rightarrow> Ret ret s)
      else and_then (lseek_target f off w s) (\<lambda>new_pos s. case new_pos of None \<Rightarrow> Ret (- E_INVAL) s
        | Some new_pos \<Rightarrow> if sint new_pos < 0 then Ret (- E_INVAL) s
            else Ret new_pos (s\<lparr>files := (files s)(p \<mapsto> f\<lparr>f_pos := new_pos\<rparr>)\<rparr>)))"
    using v set_pos_ok [OF v f(1)] by (auto simp: case_prod_beta split: option.split)
qed

lemma find_keeps:
  assumes "vfs_ok s" "c_string n"
  obtains p where "find_filesystem (Some n) s = Ret p s"
    "p = NULL \<or> (\<exists>t. fs_types s p = Some t \<and> t_mount t \<noteq> NULL)"
proof -
  obtain T where "types_rep s T" "\<forall>p \<in> ran T. \<exists>t. fs_types s p = Some t \<and> t_mount t \<noteq> NULL"
    using assms(1) by (auto simp: vfs_ok_def types_ok_def)
  then show ?thesis
    using that fs_registry.look_law [OF _ assms(2)] by (cases "T n") (auto simp: ran_def)
qed

lemma mount_keeps:
  assumes v: "vfs_ok s" and c: "calls_ok calls" and n: "c_string n"
  shows "keeps (mount_fs calls (Some n) dev mp flags data s)"
proof -
  obtain p where p: "find_filesystem (Some n) s = Ret p s"
    "p = NULL \<or> (\<exists>t. fs_types s p = Some t \<and> t_mount t \<noteq> NULL)" by (rule find_keeps [OF v n])
  show ?thesis
  proof (cases "p = NULL")
    case True
    then show ?thesis using p(1) v by (auto simp: mount_fs_def)
  next
    case False
    then obtain t where t: "fs_types s p = Some t" "t_mount t \<noteq> NULL" using p(2) by blast
    obtain fs s1 where s1: "call_mount calls (t_mount t) (Some n) dev mp data s = (fs, s1)" by fastforce
    have o: "objs_ok s" using v by (simp add: vfs_ok_def)
    have f: "fs_frame s s1" "points (file_systems s1) fs"
      using calls_okD(1,2) [OF c o, of "t_mount t" "Some n" dev mp data] s1 by auto
    have v1: "vfs_ok s1" by (rule fs_frame_ok [OF f(1) v])
    have m: "vfs_ok (s1\<lparr>file_systems := (file_systems s1)(fs \<mapsto> g\<lparr>s_flags := x, s_fs_type := p\<rparr>)\<rparr>)"
      if g: "file_systems s1 fs = Some g" for g x
    proof -
      let ?s = "s1\<lparr>file_systems := (file_systems s1)(fs \<mapsto> g\<lparr>s_flags := x, s_fs_type := p\<rparr>)\<rparr>"
      have pt: "points (file_systems ?s) q = points (file_systems s1) q" for q using g by (simp add: points_def)
      then have e: "file_ok ?s = file_ok s1" "inode_ok ?s = inode_ok s1" "dentry_ok ?s = dentry_ok s1" "fs_ok ?s = fs_ok s1"
        by (simp_all only: fun_eq_iff file_ok_def inode_ok_def dentry_ok_def fs_ok_def) simp_all
      have "fs_ok s1 g" using v1 g by (auto simp: vfs_ok_def objs_ok_def ran_def)
      moreover have "points (fs_types s1) p" using f(1) t(1) by (simp add: points_def fs_frame_def)
      ultimately have "fs_ok s1 (g\<lparr>s_flags := x, s_fs_type := p\<rparr>)" by (simp add: fs_ok_def)
      then have "objs_ok ?s" using v1 unfolding objs_ok_def e by (auto simp: vfs_ok_def objs_ok_def ran_def)
      then show ?thesis using v1 pt [of "mounted_fs_list s1"] types_ok_cong [of ?s s1] by (simp add: vfs_ok_def)
    qed
    show ?thesis
      using p(1) False t s1 v1 m f(2)
      by (auto simp: mount_fs_def access_def points_def split: option.split)
  qed
qed

lemma register_keeps:
  assumes v: "vfs_ok s" and ok: "vcall_ok (Register p) s"
  shows "keeps (register_filesystem p s)"
proof -
  obtain T where T: "types_rep s T" "\<forall>p \<in> ran T. \<exists>t. fs_types s p = Some t \<and> t_mount t \<noteq> NULL"
    using v by (auto simp: vfs_ok_def types_ok_def)
  show ?thesis
  proof (cases "type_name s p")
    case None
    then have "p = NULL \<or> (\<exists>t. fs_types s p = Some t \<and> t_name t = None)"
      using ok by (auto simp: type_name_def split: if_splits)
    then show ?thesis using v by (auto simp: register_filesystem_def access_def)
  next
    case (Some n)
    then obtain t where t: "p \<noteq> NULL" "fs_types s p = Some t" "t_name t = Some n" "t_mount t \<noteq> NULL"
      using ok by (auto simp: type_name_def split: if_splits option.splits)
    show ?thesis
    proof (cases "T n")
      case old: (Some q)
      then show ?thesis using v register_run(2) [OF T(1) Some] by auto
    next
      case None
      let ?s = "s\<lparr>fs_types := (fs_types s)(p \<mapsto> t\<lparr>t_next := registered_fs_types s\<rparr>), registered_fs_types := p\<rparr>"
      have c: "c_string n" using T(1) Some by (auto simp: types_rep_def)
      have run: "register_filesystem p s = Ret 0 ?s"
        using types_rep_find [OF T(1) c] None t by (simp add: register_filesystem_def access_def)
      have "points (fs_types ?s) q = points (fs_types s) q" for q using t(2) by (simp add: points_def)
      then have "objs_ok ?s = objs_ok s"
        by (simp only: objs_ok_def file_ok_def inode_ok_def dentry_ok_def fs_ok_def) simp
      moreover have "\<forall>q \<in> ran (T(n \<mapsto> p)). \<exists>u. fs_types ?s q = Some u \<and> t_mount u \<noteq> NULL"
        using T(2) t None by auto
      then have "types_ok ?s"
        unfolding types_ok_def using types_rep_link(1) [OF T(1) t(1-3) None] by blast
      ultimately have "vfs_ok ?s" using v by (simp add: vfs_ok_def)
      then show ?thesis using run by auto
    qed
  qed
qed

interpretation vfs_calls: safe_calls "vcall_run calls" vcall_ok "\<lambda>s. calls_ok calls \<and> vfs_ok s" for calls
proof
  fix s c assume i: "calls_ok calls \<and> vfs_ok s" and ok: "vcall_ok c s"
  then have v: "vfs_ok s" "calls_ok calls" by simp_all
  have "\<exists>s'. hands_on (vcall_run calls c s) s' \<and> vfs_ok s'"
  proof (cases c)
    case (Register p)
    then show ?thesis using keeps_ended [OF register_keeps [OF v(1)]] ok by simp
  next
    case (Find name)
    then obtain n where n: "name = Some n" "c_string n" using ok by auto
    obtain p where "find_filesystem (Some n) s = Ret p s" by (rule find_keeps [OF v(1) n(2)])
    then show ?thesis using n(1) Find keeps_ended [of "find_filesystem name s"] v(1) by simp
  next
    case (Mount name dev mp flags data)
    then show ?thesis using keeps_ended [OF mount_keeps [OF v]] ok by auto
  next
    case (Close fd)
    then show ?thesis using keeps_ended [OF close_keeps [OF v]] by simp
  next
    case (Read fd buf n)
    then show ?thesis using keeps_ended [OF read_keeps(1) [OF v]] by simp
  next
    case (Write fd buf n)
    then show ?thesis using keeps_ended [OF read_keeps(2) [OF v]] by simp
  next
    case (Lseek fd off w)
    then show ?thesis using keeps_ended [OF lseek_keeps [OF v]] by simp
  qed (simp_all add: fs_open_def fs_mkdir_def fs_unlink_def ended_def hands_on_def v(1))
  then show "\<exists>s'. hands_on (vcall_run calls c s) s' \<and> calls_ok calls \<and> vfs_ok s'" using v(2) by blast
qed

section \<open>Properties\<close>

lemma vfs_init_typed:
  assumes "objs_ok s" "\<forall>p n. type_name s p = Some n \<longrightarrow> c_string n"
  shows "vfs_ok (vfs_init s)"
proof -
  have "objs_ok (vfs_init s)"
    using assms(1) by (simp add: vfs_init_def objs_ok_def file_ok_def inode_ok_def dentry_ok_def fs_ok_def)
  then show ?thesis
    using vfs_init_rep(1) [OF assms(2)]
    by (auto simp: vfs_ok_def types_ok_def points_def) (simp_all add: vfs_init_def)
qed


text \<open>A file system in memory: mounting hands out the object at address 64 if there is one, reading and
  writing move the position.\<close>

definition advance :: "ptr \<Rightarrow> u64 \<Rightarrow> vfs \<Rightarrow> vfs" where
  "advance p n s = s\<lparr>files := (files s)(p := map_option (\<lambda>f. f\<lparr>f_pos := f_pos f + n\<rparr>) (files s p))\<rparr>"

definition ram_calls :: fs_calls where
  "ram_calls = \<lparr>call_mount = (\<lambda>_ _ _ _ _ s. (if file_systems s 64 = None then NULL else 64, s)),
     call_read = (\<lambda>_ p _ n s. (n, advance p n s)), call_write = (\<lambda>_ p _ n s. (n, advance p n s)),
     call_close = (\<lambda>_ _ s. (0, s)), call_lseek = (\<lambda>_ _ o' _ s. (o', s))\<rparr>"

lemma advance_frame:
  assumes "objs_ok s"
  shows "fs_frame s (advance p n s)"
proof -
  let ?s = "advance p n s"
  have e: "file_ok ?s = file_ok s" "inode_ok ?s = inode_ok s" "dentry_ok ?s = dentry_ok s" "fs_ok ?s = fs_ok s"
    by (simp_all add: advance_def fun_eq_iff file_ok_def inode_ok_def dentry_ok_def fs_ok_def)
  have "file_ok s (f\<lparr>f_pos := x\<rparr>) = file_ok s f" for f x by (simp add: file_ok_def)
  then have "\<forall>f \<in> ran (files ?s). file_ok s f"
    using assms by (auto simp: objs_ok_def advance_def ran_def split: if_splits)
  then have "objs_ok ?s" using assms unfolding objs_ok_def e by (simp add: advance_def)
  then show ?thesis by (auto simp: fs_frame_def advance_def)
qed

lemma ram_calls_ok: "calls_ok ram_calls"
  unfolding calls_ok_def ram_calls_def
  by (auto simp: advance_frame points_def) (auto simp: fs_frame_def)

text \<open>Descriptor 3 is open: the file at 128 has a \<open>read\<close> and a \<open>close\<close> operation and no \<open>lseek\<close>.\<close>

definition one_open :: vfs where
  "one_open = two_types\<lparr>open_files := (replicate 256 0)[3 := 128], mounted_fs_list := 64,
     files := [128 \<mapsto> \<lparr>f_dentry = 0, f_inode = 0, f_mode = 0, f_flags = 0, f_pos = 0, f_f_op = 192, f_private_data = 0\<rparr>],
     file_ops := [192 \<mapsto> \<lparr>op_open = 0, op_read = 1, op_write = 0, op_close = 2, op_lseek = 0, op_ioctl = 0, op_fsync = 0\<rparr>]\<rparr>"

lemma one_open_fields [simp]:
  "open_files one_open = (replicate 256 0)[3 := 128]" "mounted_fs_list one_open = 64"
  "registered_fs_types one_open = 0" "fs_types one_open = fs_types two_types"
  "file_systems one_open = file_systems two_types"
  "files one_open = [128 \<mapsto> \<lparr>f_dentry = 0, f_inode = 0, f_mode = 0, f_flags = 0, f_pos = 0, f_f_op = 192, f_private_data = 0\<rparr>]"
  "file_ops one_open = [192 \<mapsto> \<lparr>op_open = 0, op_read = 1, op_write = 0, op_close = 2, op_lseek = 0, op_ioctl = 0, op_fsync = 0\<rparr>]"
  "inodes one_open = Map.empty" "dentries one_open = Map.empty"
  by (simp_all add: one_open_def two_types_def vfs_init_def)

lemma one_open_ok: "vfs_ok one_open"
proof -
  have "\<forall>p n. type_name two_types p = Some n \<longrightarrow> c_string n"
    by (auto simp: two_types_names c_string_def split: if_splits)
  then have "types_ok (vfs_init two_types)"
    using vfs_init_rep(1) [of two_types] by (auto simp: types_ok_def)
  then have "types_ok one_open"
    using types_ok_cong [of one_open "vfs_init two_types"] by (simp add: vfs_init_def)
  moreover have "objs_ok one_open"
    by (auto simp: objs_ok_def file_ok_def fs_ok_def points_def ran_def two_types_def vfs_init_def split: if_splits)
  moreover have "points (file_systems one_open) 64" by (simp add: points_def two_types_def vfs_init_def)
  moreover have "\<forall>p \<in> set (open_files one_open). points (files one_open) p"
    using set_update_subset_insert [of "replicate 256 (0::ptr)" 3 128] by (auto simp: points_def)
  ultimately show ?thesis by (simp add: vfs_ok_def)
qed


end
