(* ===== verification/Console.thy ===== *)
theory Console
  imports Kernel_Prelude "HOL-Library.Signed_Division"
begin

text \<open>
  The VGA console, \<open>kernel/printk.c\<close>. \<open>video\<close> is the text memory at \<open>0xB8000\<close>, 80 columns and 25 rows
  of two bytes; an access outside its 4000 bytes is a fault. \<open>ports\<close> is the trace of the bytes written
  to I/O ports. The cursor coordinates, \<open>size_t\<close> in the code, are natural numbers: they are shown to
  stay below 80 and 25. C's \<open>/\<close> and \<open>%\<close> on \<open>int\<close> round towards zero (\<open>sdiv\<close>, \<open>smod\<close>). The arguments
  of \<open>printk\<close> are a list; taking one of another type than the format asks for is a fault.
\<close>

section \<open>Data\<close>

record console =
  cursor_x :: nat
  cursor_y :: nat
  video :: "nat \<Rightarrow> u8"
  ports :: "(u16 \<times> u8) list"

datatype karg = KStr string | KInt s32

definition VGA_WIDTH :: nat where
  "VGA_WIDTH = 80"

definition VGA_HEIGHT :: nat where
  "VGA_HEIGHT = 25"

definition VGA_COLOR :: u8 where
  "VGA_COLOR = 7"

definition vga_size :: nat where
  "vga_size = VGA_WIDTH * VGA_HEIGHT * 2"

definition byte :: "char \<Rightarrow> u8" where
  "byte c = of_nat (of_char c)"

definition outb :: "u16 \<Rightarrow> u8 \<Rightarrow> console \<Rightarrow> console" where
  "outb port v s = s\<lparr>ports := ports s @ [(port, v)]\<rparr>"

text \<open>The two stores of a character and its colour, and the copy of a cell.\<close>

definition put_cell :: "nat \<Rightarrow> u8 \<Rightarrow> u8 \<Rightarrow> console \<Rightarrow> (unit, console) exec" where
  "put_cell index c col s =
     (if index + 1 < vga_size then Ret () (s\<lparr>video := (video s)(index := c, index + 1 := col)\<rparr>)
      else Crash OutOfBounds)"

definition copy_cell :: "nat \<Rightarrow> nat \<Rightarrow> console \<Rightarrow> (unit, console) exec" where
  "copy_cell dst src s =
     (if src + 1 < vga_size then put_cell dst (video s src) (video s (src + 1)) s else Crash OutOfBounds)"

text \<open>A \<open>for\<close> loop over a list of values.\<close>

fun each :: "('x \<Rightarrow> 's \<Rightarrow> (unit, 's) exec) \<Rightarrow> 'x list \<Rightarrow> 's \<Rightarrow> (unit, 's) exec" where
  "each f [] s = Ret () s"
| "each f (x # xs) s = and_then (f x s) (\<lambda>_ s. each f xs s)"

section \<open>Characters\<close>

definition move_cursor :: "console \<Rightarrow> console" where
  "move_cursor s =
     (let pos = of_nat (cursor_y s * VGA_WIDTH + cursor_x s) :: u16;
          s = outb 0x3D4 0x0F s;
          s = outb 0x3D5 (ucast (pos AND 0xFF)) s;
          s = outb 0x3D4 0x0E s
      in outb 0x3D5 (ucast (drop_bit 8 pos AND 0xFF)) s)"

definition vga_scroll :: "console \<Rightarrow> (unit, console) exec" where
  "vga_scroll s =
     and_then
       (each (\<lambda>row. each (\<lambda>col. copy_cell (((row - 1) * VGA_WIDTH + col) * 2) ((row * VGA_WIDTH + col) * 2))
          [0..<VGA_WIDTH]) [1..<VGA_HEIGHT] s)
       (\<lambda>_ s. and_then
         (each (\<lambda>col. put_cell (((VGA_HEIGHT - 1) * VGA_WIDTH + col) * 2) (byte CHR '' '') VGA_COLOR)
            [0..<VGA_WIDTH] s)
         (\<lambda>_ s. Ret () (s\<lparr>cursor_y := VGA_HEIGHT - 1\<rparr>)))"

text \<open>The first half of \<open>vga_putc\<close>: the three kinds of characters.\<close>

definition vga_place :: "char \<Rightarrow> console \<Rightarrow> (unit, console) exec" where
  "vga_place c s =
     (if c = CHR 0x0A then Ret () (s\<lparr>cursor_x := 0, cursor_y := cursor_y s + 1\<rparr>)
      else if c = CHR 0x08 then
        let s = (if cursor_x s > 0 then s\<lparr>cursor_x := cursor_x s - 1\<rparr>
                 else if cursor_y s > 0 then s\<lparr>cursor_y := cursor_y s - 1, cursor_x := VGA_WIDTH - 1\<rparr>
                 else s);
            index = (cursor_y s * VGA_WIDTH + cursor_x s) * 2
        in put_cell index (byte CHR '' '') VGA_COLOR s
      else
        let index = (cursor_y s * VGA_WIDTH + cursor_x s) * 2
        in and_then (put_cell index (byte c) VGA_COLOR s) (\<lambda>_ s.
           let s = s\<lparr>cursor_x := cursor_x s + 1\<rparr>
           in Ret () (if cursor_x s \<ge> VGA_WIDTH then s\<lparr>cursor_x := 0, cursor_y := cursor_y s + 1\<rparr> else s)))"

definition vga_putc :: "char \<Rightarrow> console \<Rightarrow> (unit, console) exec" where
  "vga_putc c s =
     and_then (vga_place c s) (\<lambda>_ s.
       and_then (if cursor_y s \<ge> VGA_HEIGHT then vga_scroll s else Ret () s)
         (\<lambda>_ s. Ret () (move_cursor s)))"

section \<open>Numbers\<close>

definition itoa_char :: "int \<Rightarrow> char" where
  "itoa_char rem = char_of (if rem > 9 then (rem - 10) + 97 else rem + 48)"

text \<open>The digit loop, least significant digit first; \<open>None\<close> is a loop that does not end.\<close>

partial_function (option) itoa_loop :: "int \<Rightarrow> int \<Rightarrow> string \<Rightarrow> string option" where
  "itoa_loop num base str =
     (if num = 0 then Some str
      else itoa_loop (num sdiv base) base (str @ [itoa_char (num smod base)]))"

declare itoa_loop.simps [code]

text \<open>The loop that reverses the buffer in place.\<close>

function reverse_loop :: "nat \<Rightarrow> nat \<Rightarrow> string \<Rightarrow> string" where
  "reverse_loop j k str =
     (if j < k then reverse_loop (j + 1) (k - 1) (str[j := str ! k, k := str ! j]) else str)"
  by auto
termination by (relation "measure (\<lambda>(j, k, _). k - j)") auto

declare reverse_loop.simps [simp del]

definition itoa :: "s32 \<Rightarrow> int \<Rightarrow> string option" where
  "itoa num base =
     (if num = 0 then Some ''0''
      else let isNegative = (sint num < 0 \<and> base = 10);
               num = (if isNegative then - num else num)
           in case itoa_loop (sint num) base [] of
                None \<Rightarrow> None
              | Some str \<Rightarrow>
                  let str = (if isNegative then str @ ''-'' else str)
                  in Some (reverse_loop 0 (length str - 1) str))"

section \<open>Formats\<close>

definition put_number :: "s32 \<Rightarrow> int \<Rightarrow> console \<Rightarrow> (unit, console) exec" where
  "put_number num base s =
     (case itoa num base of None \<Rightarrow> Spin s | Some buffer \<Rightarrow> each vga_putc buffer s)"

fun printk_loop :: "string \<Rightarrow> karg list \<Rightarrow> console \<Rightarrow> (unit, console) exec" where
  "printk_loop [] args s = Ret () s"
| "printk_loop [c] args s =
     (if c = CHR ''%''
      then and_then (vga_putc CHR ''%'' s) (\<lambda>_ s. and_then (vga_putc CHR 0x00 s) (\<lambda>_ s. Crash OutOfBounds))
      else vga_putc c s)"
| "printk_loop (c # d # format) args s =
     (if c = CHR ''%'' then
        (if d = CHR ''s'' then
           (case args of KStr str # args \<Rightarrow> and_then (each vga_putc str s) (\<lambda>_ s. printk_loop format args s)
            | _ \<Rightarrow> Crash BadPtr)
         else if d = CHR ''d'' then
           (case args of KInt num # args \<Rightarrow> and_then (put_number num 10 s) (\<lambda>_ s. printk_loop format args s)
            | _ \<Rightarrow> Crash BadPtr)
         else if d = CHR ''x'' then
           (case args of KInt num # args \<Rightarrow> and_then (put_number num 16 s) (\<lambda>_ s. printk_loop format args s)
            | _ \<Rightarrow> Crash BadPtr)
         else if d = CHR ''c'' then
           (case args of KInt num # args \<Rightarrow> and_then (vga_putc (char_of (unat num)) s) (\<lambda>_ s. printk_loop format args s)
            | _ \<Rightarrow> Crash BadPtr)
         else and_then (vga_putc CHR ''%'' s) (\<lambda>_ s. and_then (vga_putc d s) (\<lambda>_ s. printk_loop format args s)))
      else and_then (vga_putc c s) (\<lambda>_ s. printk_loop (d # format) args s))"

definition printk :: "string \<Rightarrow> karg list \<Rightarrow> console \<Rightarrow> (unit, console) exec" where
  "printk format args s = and_then (printk_loop format args s) (\<lambda>_ s. Ret () (move_cursor s))"

end
