(* ===== verification/Keyboard.thy ===== *)
theory Keyboard
  imports Console C_String
begin

text \<open>
  The keyboard driver and the shell: \<open>drivers/keyboard.c\<close> and \<open>kernel/shell.c\<close>. The state has the
  console, the input buffer of 256 characters with its index, and \<open>reads\<close>, the values the following
  \<open>inb\<close> instructions return; waiting for a value that never comes is an endless loop. While a
  caller of \<open>get_key\<close> waits, the keyboard interrupt delivers the scancodes of a list, one per interrupt.
  An access outside the input buffer is a fault. Registering the interrupt handler is modelled in
  \<open>Interrupt\<close>.
\<close>

section \<open>Data\<close>

record kbd =
  con :: console
  input_buffer :: "char list"
  buffer_index :: int
  reads :: "u8 list"

definition INPUT_BUFFER_SIZE :: int where
  "INPUT_BUFFER_SIZE = 256"

definition scancode_to_ascii :: "char list" where
  "scancode_to_ascii =
     [CHR 0x00, CHR 0x1B] @ ''1234567890-='' @ [CHR 0x08] @
     [CHR 0x09] @ ''qwertyuiop[]'' @ [CHR 0x0A] @
     [CHR 0x00] @ ''asdfghjkl;'' @ [CHR 0x27, CHR 0x60] @
     [CHR 0x00, CHR 0x5C] @ ''zxcvbnm,./'' @ [CHR 0x00] @
     [CHR 0x2A, CHR 0x00, CHR 0x20, CHR 0x00] @ replicate 69 (CHR 0x00)"

section \<open>Access\<close>

definition say :: "string \<Rightarrow> karg list \<Rightarrow> kbd \<Rightarrow> (unit, kbd) exec" where
  "say format args s = map_exec id (\<lambda>c. s\<lparr>con := c\<rparr>) (printk format args (con s))"

definition kinb :: "kbd \<Rightarrow> (u8, kbd) exec" where
  "kinb s = (case reads s of [] \<Rightarrow> Spin s | v # vs \<Rightarrow> Ret v (s\<lparr>reads := vs\<rparr>))"

definition koutb :: "u16 \<Rightarrow> u8 \<Rightarrow> kbd \<Rightarrow> kbd" where
  "koutb port v s = s\<lparr>con := outb port v (con s)\<rparr>"

text \<open>A loop that reads the status port until a condition holds.\<close>

fun poll :: "(u8 \<Rightarrow> bool) \<Rightarrow> u8 list \<Rightarrow> u8 list option" where
  "poll stop [] = None"
| "poll stop (v # vs) = (if stop v then Some vs else poll stop vs)"

definition wait_status :: "(u8 \<Rightarrow> bool) \<Rightarrow> kbd \<Rightarrow> (unit, kbd) exec" where
  "wait_status stop s =
     (case poll stop (reads s) of None \<Rightarrow> Spin (s\<lparr>reads := []\<rparr>) | Some vs \<Rightarrow> Ret () (s\<lparr>reads := vs\<rparr>))"

definition store_char :: "int \<Rightarrow> char \<Rightarrow> kbd \<Rightarrow> (unit, kbd) exec" where
  "store_char i c s =
     (if 0 \<le> i \<and> i < int (length (input_buffer s))
      then Ret () (s\<lparr>input_buffer := (input_buffer s)[nat i := c]\<rparr>) else Crash OutOfBounds)"

section \<open>The interrupt handler\<close>

definition keyboard_handler :: "u8 \<Rightarrow> kbd \<Rightarrow> (unit, kbd) exec" where
  "keyboard_handler scancode s =
     and_then (say ''first we get it.\<newline>'' [] s) (\<lambda>_ s.
       if scancode AND 0x80 \<noteq> 0 then Ret () s
       else
         let c = scancode_to_ascii ! unat scancode
         in if c = CHR 0x00 then Ret () s
            else and_then (say ''%c'' [KInt (of_nat (of_char c))] s) (\<lambda>_ s.
              if c = CHR 0x0A then
                and_then (store_char (buffer_index s) (CHR 0x00) s) (\<lambda>_ s. Ret () (s\<lparr>buffer_index := 0\<rparr>))
              else if buffer_index s < INPUT_BUFFER_SIZE - 1 then
                and_then (store_char (buffer_index s) c s)
                  (\<lambda>_ s. Ret () (s\<lparr>buffer_index := buffer_index s + 1\<rparr>))
              else Ret () s))"

section \<open>Reading\<close>

text \<open>\<open>get_key\<close>: waiting, then taking the first character and moving the others up, then
  decrementing the index. The list \<open>codes\<close> has the scancodes of the interrupts that come while it
  waits on an empty buffer. Interrupts that come later, inside the copy, the shift or the decrement
  (the code does not disable them), are not part of this definition; \<open>Keyboard_Race\<close> has the
  interrupt between the shift and the decrement.\<close>

fun get_key_wait :: "u8 list \<Rightarrow> kbd \<Rightarrow> (u8 list, kbd) exec" where
  "get_key_wait codes s =
     (if buffer_index s \<noteq> 0 then Ret codes s
      else case codes of
        [] \<Rightarrow> Spin s
      | v # codes \<Rightarrow> and_then (keyboard_handler v s) (\<lambda>_ s. get_key_wait codes s))"

fun shift_loop :: "nat \<Rightarrow> nat \<Rightarrow> kbd \<Rightarrow> (unit, kbd) exec" where
  "shift_loop i 0 s = Ret () s"
| "shift_loop i (Suc n) s =
     (if i + 1 < length (input_buffer s)
      then shift_loop (i + 1) n (s\<lparr>input_buffer := (input_buffer s)[i := input_buffer s ! (i + 1)]\<rparr>)
      else Crash OutOfBounds)"

definition get_key_take :: "kbd \<Rightarrow> (char, kbd) exec" where
  "get_key_take s =
     (if input_buffer s = [] then Crash OutOfBounds
      else let c = input_buffer s ! 0
           in and_then (shift_loop 0 (nat (buffer_index s - 1)) s) (\<lambda>_ s. Ret c s))"

definition get_key_drop :: "kbd \<Rightarrow> kbd" where
  "get_key_drop s = s\<lparr>buffer_index := buffer_index s - 1\<rparr>"

definition get_key :: "u8 list \<Rightarrow> kbd \<Rightarrow> (char \<times> u8 list, kbd) exec" where
  "get_key codes s =
     and_then (get_key_wait codes s) (\<lambda>codes s.
       and_then (get_key_take s) (\<lambda>c s. Ret (c, codes) (get_key_drop s)))"

text \<open>\<open>read_input\<close>: the loop, with the caller's buffer as a list of the characters stored so far;
  \<open>None\<close> is a loop that goes on for ever. A \<open>size\<close> below 1 would store the terminator anyway.\<close>

partial_function (option) read_input_loop ::
  "int \<Rightarrow> string \<Rightarrow> u8 list \<Rightarrow> kbd \<Rightarrow> (string \<times> u8 list, kbd) exec option" where
  "read_input_loop n buf codes s =
     (case get_key codes s of
        Ret (c, codes) s \<Rightarrow>
          if c = CHR 0x0A \<or> int (length buf) \<ge> n - 1 then Some (Ret (buf, codes) s)
          else if c = CHR 0x08 \<and> length buf > 0 then
            (case say (CHR 0x08 # '' '' @ [CHR 0x08]) [] s of
               Ret _ s \<Rightarrow> read_input_loop n (butlast buf) codes s
             | Xfer t s \<Rightarrow> Some (Xfer t s) | Spin s \<Rightarrow> Some (Spin s) | Crash f \<Rightarrow> Some (Crash f))
          else
            (case say ''%c'' [KInt (of_nat (of_char c))] s of
               Ret _ s \<Rightarrow> read_input_loop n (buf @ [c]) codes s
             | Xfer t s \<Rightarrow> Some (Xfer t s) | Spin s \<Rightarrow> Some (Spin s) | Crash f \<Rightarrow> Some (Crash f))
      | Xfer t s \<Rightarrow> Some (Xfer t s) | Spin s \<Rightarrow> Some (Spin s) | Crash f \<Rightarrow> Some (Crash f))"

definition read_input :: "int \<Rightarrow> u8 list \<Rightarrow> kbd \<Rightarrow> (string \<times> u8 list, kbd) exec" where
  "read_input n codes s = (case read_input_loop n [] codes s of None \<Rightarrow> Spin s | Some r \<Rightarrow> r)"

section \<open>Initialisation\<close>

fun resend_loop :: "nat \<Rightarrow> kbd \<Rightarrow> (s32, kbd) exec" where
  "resend_loop 0 s = Ret (- 1) s"
| "resend_loop (Suc n) s =
     and_then (wait_status (\<lambda>v. v AND 0x02 = 0) s) (\<lambda>_ s.
     and_then (wait_status (\<lambda>v. v AND 0x01 \<noteq> 0) (koutb 0x60 0xF4 s)) (\<lambda>_ s.
     and_then (kinb s) (\<lambda>ack s. if ack = 0xFA then Ret 0 s else resend_loop n s)))"

definition try_enable_keyboard :: "kbd \<Rightarrow> (s32, kbd) exec" where
  "try_enable_keyboard s =
     and_then (wait_status (\<lambda>v. v AND 0x01 \<noteq> 0) s) (\<lambda>_ s.
     and_then (kinb s) (\<lambda>ack s.
       if ack = 0xFA then Ret 0 s else if ack = 0xFE then resend_loop 3 s else Ret (- 1) s))"

definition keyboard_init :: "kbd \<Rightarrow> (unit, kbd) exec" where
  "keyboard_init s =
     and_then (wait_status (\<lambda>v. v AND 0x02 = 0) s) (\<lambda>_ s.
     and_then (wait_status (\<lambda>v. v AND 0x02 = 0) (koutb 0x64 0xD4 s)) (\<lambda>_ s.
     and_then (try_enable_keyboard (koutb 0x60 0xF4 s)) (\<lambda>r s.
       if r = 0 then say ''Keyboard initialized.\<newline>'' [] s
       else say ''Failed to enable keyboard scanning.\<newline>'' [] s)))"

section \<open>The shell\<close>

text \<open>One round of the loop of \<open>shell\<close>: the prompt, a line of input, the only command.\<close>

definition VERSION :: string where
  "VERSION = ''jiahao@v1.0.0''"

definition shell_round :: "u8 list \<Rightarrow> kbd \<Rightarrow> (u8 list, kbd) exec" where
  "shell_round codes s =
     and_then (say ''> '' [] s) (\<lambda>_ s.
     and_then (read_input 300000 codes s) (\<lambda>(command, codes) s.
       if strcmp command ''version'' = 0
       then and_then (say ''%s\<newline>'' [KStr VERSION] s) (\<lambda>_ s. Ret codes s)
       else Ret codes s))"

text \<open>The loop of \<open>shell\<close>.\<close>

partial_function (option) shell :: "u8 list \<Rightarrow> kbd \<Rightarrow> (unit, kbd) exec option" where
  "shell codes s =
     (case shell_round codes s of
        Ret codes s \<Rightarrow> shell codes s
      | Xfer t s \<Rightarrow> Some (Xfer t s) | Spin s \<Rightarrow> Some (Spin s) | Crash f \<Rightarrow> Some (Crash f))"

end
