(* ===== verification/Interrupt.thy ===== *)
theory Interrupt
  imports Keyboard
begin

text \<open>
  The interrupt descriptor table and the interrupt controller, \<open>kernel/interrupt.c\<close>, and the entry of
  the kernel, \<open>kernel/core/init.c\<close>. The code is for 32-bit addresses; the addresses of the handlers and of
  the table are parameters, fixed by the linker. A store outside the table is a fault. \<open>idt_load\<close> (an
  assembly stub that executes \<open>lidt\<close>) is the address it was last given, and \<open>sti\<close> a flag.
\<close>

section \<open>Data\<close>

record idt_entry =
  base_low :: u16
  sel :: u16
  always0 :: u8
  gate_flags :: u8
  base_high :: u16

record idt_ptr =
  limit :: u16
  idt_base :: u32

record machine =
  kb :: kbd
  idt :: "idt_entry list"
  idtp :: idt_ptr
  loaded :: "u32 option"
  interrupts_on :: bool

text \<open>The link addresses the code takes.\<close>

record link =
  exception_handler_at :: u32
  keyboard_handler_at :: u32
  idt_at :: u32
  idtp_at :: u32

definition IDT_SIZE :: nat where
  "IDT_SIZE = 256"

section \<open>Operations\<close>

definition on_kbd :: "(kbd \<Rightarrow> ('a, kbd) exec) \<Rightarrow> machine \<Rightarrow> ('a, machine) exec" where
  "on_kbd f s = map_exec id (\<lambda>k. s\<lparr>kb := k\<rparr>) (f (kb s))"

definition out :: "u16 \<Rightarrow> u8 \<Rightarrow> machine \<Rightarrow> machine" where
  "out port v s = s\<lparr>kb := koutb port v (kb s)\<rparr>"

definition pic_remap :: "machine \<Rightarrow> machine" where
  "pic_remap s =
     (let s = out 0x20 0x11 s; s = out 0xA0 0x11 s;
          s = out 0x21 0x20 s; s = out 0xA1 0x28 s;
          s = out 0x21 0x04 s; s = out 0xA1 0x02 s;
          s = out 0x21 0x01 s; s = out 0xA1 0x01 s;
          s = out 0x21 0x0 s; s = out 0xA1 0x0 s
      in s)"

definition exception_handler :: "s32 \<Rightarrow> machine \<Rightarrow> (unit, machine) exec" where
  "exception_handler interrupt_number s =
     and_then (on_kbd (say ''\<newline>Exception occurred! Interrupt: %d\<newline>'' [KInt interrupt_number]) s) (\<lambda>_ s. Spin s)"

definition register_interrupt_handler :: "int \<Rightarrow> u32 \<Rightarrow> machine \<Rightarrow> (unit, machine) exec" where
  "register_interrupt_handler num handler s =
     (let base = handler
      in if 0 \<le> num \<and> num < int (length (idt s))
         then Ret () (s\<lparr>idt := (idt s)[nat num :=
           \<lparr>base_low = ucast (base AND 0xFFFF), sel = 0x08, always0 = 0, gate_flags = 0x8E,
            base_high = ucast (drop_bit 16 base AND 0xFFFF)\<rparr>]\<rparr>)
         else Crash OutOfBounds)"

fun exceptions_loop :: "link \<Rightarrow> int \<Rightarrow> nat \<Rightarrow> machine \<Rightarrow> (unit, machine) exec" where
  "exceptions_loop l i 0 s = Ret () s"
| "exceptions_loop l i (Suc n) s =
     and_then (register_interrupt_handler i (exception_handler_at l) s) (\<lambda>_ s. exceptions_loop l (i + 1) n s)"

definition init_exceptions :: "link \<Rightarrow> machine \<Rightarrow> (unit, machine) exec" where
  "init_exceptions l s = exceptions_loop l 0 32 s"

fun print_idt_loop :: "nat \<Rightarrow> nat \<Rightarrow> machine \<Rightarrow> (unit, machine) exec" where
  "print_idt_loop i 0 s = Ret () s"
| "print_idt_loop i (Suc n) s =
     (let e = idt s ! i
      in if base_low e \<noteq> 0 \<or> base_high e \<noteq> 0
         then and_then (on_kbd (say ''IDT[%d] -> base: %x%x flags: %x\<newline>''
                [KInt (of_nat i), KInt (ucast (base_high e)), KInt (ucast (base_low e)), KInt (ucast (gate_flags e))]) s)
              (\<lambda>_ s. print_idt_loop (i + 1) n s)
         else print_idt_loop (i + 1) n s)"

definition debug_print_idt :: "machine \<Rightarrow> (unit, machine) exec" where
  "debug_print_idt s = print_idt_loop 0 256 s"

definition zero_entry :: idt_entry where
  "zero_entry = \<lparr>base_low = 0, sel = 0, always0 = 0, gate_flags = 0, base_high = 0\<rparr>"

text \<open>\<open>lidt\<close> on the operand of \<open>idt_load\<close>, from now on the table the processor uses.\<close>

definition idt_load :: "u32 \<Rightarrow> machine \<Rightarrow> machine" where
  "idt_load p s = s\<lparr>loaded := Some p\<rparr>"

definition init_interrupts :: "link \<Rightarrow> machine \<Rightarrow> (unit, machine) exec" where
  "init_interrupts l s =
     (let s = s\<lparr>idtp := \<lparr>limit = of_nat (8 * IDT_SIZE - 1), idt_base = idt_at l\<rparr>\<rparr>;
          s = s\<lparr>idt := replicate IDT_SIZE zero_entry\<rparr>
      in and_then (init_exceptions l s) (\<lambda>_ s.
        let s = pic_remap s;
            s = out 0x21 0xFD s;
            s = out 0xA1 0xFF s;
            s = idt_load (idtp_at l) s
        in on_kbd (say ''IDT initialized.\<newline>'' []) s))"

section \<open>The kernel's entry\<close>

text \<open>\<open>init_pic\<close> is a copy of \<open>pic_remap\<close> that nothing calls.\<close>

definition init_pic :: "machine \<Rightarrow> machine" where
  "init_pic s =
     (let s = out 0x20 0x11 s; s = out 0xA0 0x11 s;
          s = out 0x21 0x20 s; s = out 0xA1 0x28 s;
          s = out 0x21 0x04 s; s = out 0xA1 0x02 s;
          s = out 0x21 0x01 s; s = out 0xA1 0x01 s;
          s = out 0x21 0x0 s; s = out 0xA1 0x0 s
      in s)"

text \<open>\<open>keyboard_init\<close> of the driver with its first statement, the registration.\<close>

definition keyboard_setup :: "link \<Rightarrow> machine \<Rightarrow> (unit, machine) exec" where
  "keyboard_setup l s =
     and_then (register_interrupt_handler 33 (keyboard_handler_at l) s) (\<lambda>_ s. on_kbd keyboard_init s)"

definition run_shell :: "u8 list \<Rightarrow> kbd \<Rightarrow> (unit, kbd) exec" where
  "run_shell codes k = (case shell codes k of None \<Rightarrow> Spin k | Some r \<Rightarrow> r)"

definition banner :: string where
  "banner = ''GOOD MANY TIMES +==============================================\<newline>''"

text \<open>\<open>kernel_main\<close> up to the call of \<open>shell\<close>, and with it.\<close>

definition kernel_boot :: "link \<Rightarrow> machine \<Rightarrow> (unit, machine) exec" where
  "kernel_boot l s =
     and_then (on_kbd (say ''Initializing system...\<newline>'' []) s) (\<lambda>_ s.
     and_then (on_kbd (say banner []) s) (\<lambda>_ s.
     and_then (on_kbd (say ''PhyOS is the BEST OS!!!\<newline>'' []) s) (\<lambda>_ s.
     and_then (init_interrupts l s) (\<lambda>_ s.
     and_then (keyboard_setup l s) (\<lambda>_ s.
       let s = s\<lparr>interrupts_on := True\<rparr>
       in and_then (on_kbd (say banner []) s) (\<lambda>_ s.
          on_kbd (say ''System ready. Type a command:\<newline>'' []) s))))))"

definition kernel_main :: "link \<Rightarrow> u8 list \<Rightarrow> machine \<Rightarrow> (unit, machine) exec" where
  "kernel_main l codes s = and_then (kernel_boot l s) (\<lambda>_ s. on_kbd (run_shell codes) s)"

end
