(* ===== verification/Console_Props.thy ===== *)
theory Console_Props
  imports Console
begin

text \<open>
  The console implements an abstract terminal; \<open>itoa\<close> prints decimal and hexadecimal numerals;
  \<open>printk\<close> prints the expansion of its format.
\<close>

section \<open>The abstract terminal\<close>

record terminal =
  tx :: nat
  ty :: nat
  cells :: "nat \<Rightarrow> nat \<Rightarrow> u8 \<times> u8"

definition blank :: "u8 \<times> u8" where
  "blank = (32, 7)"

definition set_cell :: "nat \<Rightarrow> nat \<Rightarrow> u8 \<times> u8 \<Rightarrow> terminal \<Rightarrow> terminal" where
  "set_cell r c v t = t\<lparr>cells := (cells t)(r := (cells t r)(c := v))\<rparr>"

text \<open>Below the last row the screen moves up by one line.\<close>

definition term_scroll :: "terminal \<Rightarrow> terminal" where
  "term_scroll t =
     (if ty t < 25 then t
      else t\<lparr>ty := 24, cells := (\<lambda>r c. if r < 24 \<and> c < 80 then cells t (r + 1) c
                                     else if r = 24 \<and> c < 80 then blank else (0, 0))\<rparr>)"

definition term_back :: "terminal \<Rightarrow> terminal" where
  "term_back t =
     (if tx t > 0 then t\<lparr>tx := tx t - 1\<rparr> else if ty t > 0 then t\<lparr>tx := 79, ty := ty t - 1\<rparr> else t)"

definition term_place :: "char \<Rightarrow> terminal \<Rightarrow> terminal" where
  "term_place c t =
     (if c = CHR 0x0A then t\<lparr>tx := 0, ty := ty t + 1\<rparr>
      else if c = CHR 0x08 then let t = term_back t in set_cell (ty t) (tx t) blank t
      else let u = set_cell (ty t) (tx t) (byte c, 7) t
           in if tx t + 1 < 80 then u\<lparr>tx := tx t + 1\<rparr> else u\<lparr>tx := 0, ty := ty t + 1\<rparr>)"

definition term_putc :: "char \<Rightarrow> terminal \<Rightarrow> terminal" where
  "term_putc c t = term_scroll (term_place c t)"

definition term_of :: "console \<Rightarrow> terminal" where
  "term_of s = \<lparr>tx = cursor_x s, ty = cursor_y s,
     cells = (\<lambda>r c. if r < 25 \<and> c < 80 then (video s ((r * 80 + c) * 2), video s ((r * 80 + c) * 2 + 1))
                   else (0, 0))\<rparr>"

definition in_screen :: "console \<Rightarrow> bool" where
  "in_screen s \<longleftrightarrow> cursor_x s < 80 \<and> cursor_y s < 25"

lemmas vga_defs = VGA_WIDTH_def VGA_HEIGHT_def VGA_COLOR_def vga_size_def

section \<open>Scrolling\<close>

lemma each_append: "each f (xs @ ys) s = and_then (each f xs s) (\<lambda>_ s. each f ys s)"
proof (induction xs arbitrary: s)
  case (Cons x xs)
  then show ?case by (cases "f x s") simp_all
qed simp

lemma copy_row:
  assumes "0 < r" "r < 25" "n \<le> 80"
  shows "each (\<lambda>col. copy_cell (((r - 1) * 80 + col) * 2) ((r * 80 + col) * 2)) [0..<n] (s\<lparr>video := v\<rparr>) =
    Ret () (s\<lparr>video := (\<lambda>i. if (r - 1) * 160 \<le> i \<and> i < (r - 1) * 160 + 2 * n then v (i + 160) else v i)\<rparr>)"
  using assms(3)
proof (induction n)
  case 0
  have "(\<lambda>i. if (r - 1) * 160 \<le> i \<and> i < (r - 1) * 160 + 2 * 0 then v (i + 160) else v i) = v"
    by (auto simp: fun_eq_iff)
  then show ?case by (simp only: upt_0 each.simps)
next
  case (Suc n)
  let ?v = "\<lambda>n i. if (r - 1) * 160 \<le> i \<and> i < (r - 1) * 160 + 2 * n then v (i + 160) else v i"
  let ?d = "((r - 1) * 80 + n) * 2" and ?e = "(r * 80 + n) * 2"
  obtain q where q: "r = Suc q" using assms(1) by (cases r) simp_all
  have b: "?e + 1 < vga_size" "?d + 1 < vga_size" using assms(2) Suc.prems q by (simp_all add: vga_defs)
  have "(?v n)(?d := ?v n ?e, ?d + 1 := ?v n (?e + 1)) = ?v (Suc n)"
    using Suc.prems q by (auto simp: fun_eq_iff algebra_simps)
  moreover have "copy_cell ?d ?e (s\<lparr>video := w\<rparr>) = Ret () (s\<lparr>video := w(?d := w ?e, ?d + 1 := w (?e + 1))\<rparr>)" for w
    using b by (simp add: copy_cell_def put_cell_def)
  ultimately have "copy_cell ?d ?e (s\<lparr>video := ?v n\<rparr>) = Ret () (s\<lparr>video := ?v (Suc n)\<rparr>)" by (simp only:)
  then show ?case using Suc.IH Suc.prems by (simp add: each_append)
qed

lemma copy_rows:
  assumes "k \<le> 24"
  shows "each (\<lambda>r. each (\<lambda>col. copy_cell (((r - 1) * 80 + col) * 2) ((r * 80 + col) * 2)) [0..<80]) [1..<Suc k]
      (s\<lparr>video := v\<rparr>) =
    Ret () (s\<lparr>video := (\<lambda>i. if i < k * 160 then v (i + 160) else v i)\<rparr>)"
  using assms
proof (induction k)
  case (Suc k)
  let ?v = "\<lambda>k i. if i < k * 160 then v (i + 160) else v i"
  have v: "(\<lambda>i. if (Suc k - 1) * 160 \<le> i \<and> i < (Suc k - 1) * 160 + 2 * 80 then ?v k (i + 160) else ?v k i) = ?v (Suc k)"
    by (auto simp: fun_eq_iff)
  have u: "[1..<Suc (Suc k)] = [1..<Suc k] @ [Suc k]" by simp
  have r: "each (\<lambda>col. copy_cell (((Suc k - 1) * 80 + col) * 2) ((Suc k * 80 + col) * 2)) [0..<80] (s\<lparr>video := ?v k\<rparr>) =
      Ret () (s\<lparr>video := ?v (Suc k)\<rparr>)"
    using copy_row [where r = "Suc k" and n = 80 and s = s and v = "?v k"] Suc.prems unfolding v by simp
  show ?case unfolding u each_append Suc.IH [OF Suc_leD [OF Suc.prems]] and_then.simps each.simps r ..
qed simp

lemma clear_row:
  assumes "n \<le> 80"
  shows "each (\<lambda>col. put_cell ((24 * 80 + col) * 2) 32 7) [0..<n] (s\<lparr>video := v\<rparr>) =
    Ret () (s\<lparr>video := (\<lambda>i. if 3840 \<le> i \<and> i < 3840 + 2 * n then if even i then 32 else 7 else v i)\<rparr>)"
  using assms
proof (induction n)
  case 0
  have "(\<lambda>i. if 3840 \<le> i \<and> i < 3840 + 2 * 0 then if even i then 32 else 7 else v i) = v"
    by (auto simp: fun_eq_iff)
  then show ?case by (simp only: upt_0 each.simps)
next
  case (Suc n)
  let ?v = "\<lambda>n i. if 3840 \<le> i \<and> i < 3840 + 2 * n then if even i then 32 else 7 else v i"
  have "i = 3840 + 2 * n \<or> i = 3841 + 2 * n" if "3840 + 2 * n \<le> i" "i < 3842 + 2 * n" for i
    using that by linarith
  then have "(?v n)(3840 + 2 * n := 32, Suc (3840 + 2 * n) := 7) = ?v (Suc n)"
    by (auto simp: fun_eq_iff)
  then have "put_cell ((24 * 80 + n) * 2) 32 7 (s\<lparr>video := ?v n\<rparr>) = Ret () (s\<lparr>video := ?v (Suc n)\<rparr>)"
    using Suc.prems by (simp add: put_cell_def vga_defs algebra_simps)
  then show ?case using Suc by (simp add: each_append)
qed

definition scrolled :: "(nat \<Rightarrow> u8) \<Rightarrow> nat \<Rightarrow> u8" where
  "scrolled v i = (if i < 3840 then v (i + 160) else if i < 4000 then if even i then 32 else 7 else v i)"

lemma vga_scroll_run: "vga_scroll s = Ret () (s\<lparr>video := scrolled (video s), cursor_y := 24\<rparr>)"
proof -
  let ?v = "\<lambda>i. if i < 24 * 160 then video s (i + 160) else video s i"
  have e: "(\<lambda>i. if 3840 \<le> i \<and> i < 3840 + 2 * 80 then if even i then 32 else 7 else ?v i) = scrolled (video s)"
    by (auto simp: fun_eq_iff scrolled_def)
  have b: "byte CHR '' '' = 32" by (simp add: byte_def)
  have u: "[1..<25] = [1..<Suc 24]" by simp
  have c: "each (\<lambda>r. each (\<lambda>col. copy_cell (((r - 1) * 80 + col) * 2) ((r * 80 + col) * 2)) [0..<80]) [1..<Suc 24] s =
      Ret () (s\<lparr>video := ?v\<rparr>)"
    using copy_rows [where k = 24 and s = s and v = "video s"] by simp
  have d: "each (\<lambda>col. put_cell ((24 * 80 + col) * 2) 32 7) [0..<80] (s\<lparr>video := ?v\<rparr>) =
      Ret () (s\<lparr>video := scrolled (video s)\<rparr>)"
    using clear_row [where n = 80 and s = s and v = ?v] unfolding e by simp
  have w: "25 - 1 = (24 :: nat)" by simp
  show ?thesis
    unfolding vga_scroll_def VGA_WIDTH_def VGA_HEIGHT_def VGA_COLOR_def u b c and_then.simps w d ..
qed

section \<open>Characters\<close>

lemma term_of_sel [simp]:
  "tx (term_of s) = cursor_x s" "ty (term_of s) = cursor_y s"
  "cells (term_of s) r c = (if r < 25 \<and> c < 80
     then (video s ((r * 80 + c) * 2), video s ((r * 80 + c) * 2 + 1)) else (0, 0))"
  by (simp_all add: term_of_def)

lemma move_cursor_sel [simp]:
  "cursor_x (move_cursor s) = cursor_x s" "cursor_y (move_cursor s) = cursor_y s"
  "video (move_cursor s) = video s"
  by (simp_all add: move_cursor_def outb_def Let_def)

lemma move_cursor_views [simp]:
  "term_of (move_cursor s) = term_of s" "in_screen (move_cursor s) = in_screen s"
  by (simp_all add: term_of_def in_screen_def cong: if_cong)

lemma cell_index: "(r * 80 + c) * 2 = (r' * 80 + c') * 2 \<longleftrightarrow> r = r' \<and> c = c'"
  if "c < 80" "c' < 80" for r c r' c' :: nat
proof
  assume "(r * 80 + c) * 2 = (r' * 80 + c') * 2"
  then have e: "c + 80 * r = c' + 80 * r'" by simp
  have "(c + 80 * r) div 80 = r" "(c' + 80 * r') div 80 = r'" using that by simp_all
  then show "r = r' \<and> c = c'" using e by simp
qed simp

lemma term_set_cell:
  assumes "r < 25" "c < 80"
  shows "term_of (s\<lparr>video := (video s)((r * 80 + c) * 2 := a, (r * 80 + c) * 2 + 1 := b)\<rparr>) =
    set_cell r c (a, b) (term_of s)"
proof -
  have "x * 2 \<noteq> y * 2 + 1" for x y :: nat by presburger
  then have "(r' * 80 + c') * 2 \<noteq> (r * 80 + c) * 2 + 1" "(r' * 80 + c') * 2 + 1 \<noteq> (r * 80 + c) * 2" for r' c' :: nat
    by metis+
  then show ?thesis
    using assms by (auto simp: term_of_def set_cell_def fun_eq_iff cell_index)
qed

lemma term_scrolled:
  assumes "cursor_y s \<ge> 25"
  shows "term_of (s\<lparr>video := scrolled (video s), cursor_y := 24\<rparr>) = term_scroll (term_of s)"
proof -
  have "scrolled (video s) ((r * 80 + c) * 2) = video s (((r + 1) * 80 + c) * 2)"
    "scrolled (video s) ((r * 80 + c) * 2 + 1) = video s (((r + 1) * 80 + c) * 2 + 1)" if "r < 24" "c < 80" for r c
    using that by (simp_all add: scrolled_def algebra_simps)
  moreover have "scrolled (video s) ((24 * 80 + c) * 2) = 32" "scrolled (video s) ((24 * 80 + c) * 2 + 1) = 7"
    if "c < 80" for c using that by (simp_all add: scrolled_def)
  ultimately have "cells (term_of (s\<lparr>video := scrolled (video s), cursor_y := 24\<rparr>)) r c =
      cells (term_scroll (term_of s)) r c" for r c
    using assms by (cases "r < 24"; cases "r = 24") (auto simp: term_scroll_def blank_def)
  then show ?thesis
    using assms by (intro terminal.equality ext) (simp_all add: term_scroll_def)
qed

text \<open>The bytes that tell the display controller the cursor position.\<close>

definition cursor_bytes :: "console \<Rightarrow> (u16 \<times> u8) list" where
  "cursor_bytes s = (let pos = cursor_y s * 80 + cursor_x s
     in [(0x3D4, 0x0F), (0x3D5, of_nat (pos mod 256)), (0x3D4, 0x0E), (0x3D5, of_nat (pos div 256))])"

lemma low_byte: "ucast ((w :: u16) AND 0xFF) = (of_nat (unat w mod 256) :: u8)"
proof -
  have m: "(0xFF :: u16) = mask 8" by (simp add: mask_eq_exp_minus_1)
  have "unat (w AND mask 8) = take_bit 8 (unat w)"
    by (simp only: take_bit_eq_mask [symmetric] unsigned_take_bit_eq)
  then have "unat (w AND 0xFF) = unat w mod 256" by (simp add: m take_bit_eq_mod)
  then show ?thesis by (simp only: word_unat_eq_iff unsigned_ucast_eq) (simp add: unat_of_nat take_bit_eq_mod)
qed

lemma move_cursor_ports:
  assumes "in_screen s"
  shows "ports (move_cursor s) = ports s @ cursor_bytes s"
proof -
  define p where "p = cursor_y s * 80 + cursor_x s"
  have p: "p < 2 ^ 16" using assms by (simp add: in_screen_def p_def)
  then have u: "unat (of_nat p :: u16) = p" by (simp add: unat_of_nat take_bit_nat_eq_self)
  then have "unat (drop_bit 8 (of_nat p :: u16)) mod 256 = p div 256"
    using p by (simp add: drop_bit_eq_div unat_div_distrib)
  then show ?thesis
    using low_byte [of "of_nat p"] low_byte [of "drop_bit 8 (of_nat p)"] u
    by (simp add: move_cursor_def outb_def cursor_bytes_def Let_def VGA_WIDTH_def flip: p_def)
qed

text \<open>The end of \<open>vga_putc\<close>: scroll if the cursor has left the screen, then move the cursor.\<close>

lemma putc_end:
  assumes "cursor_x s < 80" "cursor_y s \<le> 25"
  shows "\<exists>s'. and_then (if cursor_y s \<ge> VGA_HEIGHT then vga_scroll s else Ret () s)
      (\<lambda>_ s. Ret () (move_cursor s)) = Ret () s' \<and> in_screen s' \<and> term_of s' = term_scroll (term_of s) \<and>
    (\<forall>i. i \<ge> vga_size \<longrightarrow> video s' i = video s i) \<and> ports s' = ports s @ cursor_bytes s'"
proof (cases "cursor_y s \<ge> 25")
  case True
  let ?s = "s\<lparr>video := scrolled (video s), cursor_y := 24\<rparr>"
  have i: "in_screen ?s" using assms by (simp add: in_screen_def)
  then show ?thesis
    using True term_scrolled [OF True] move_cursor_ports [OF i]
    by (intro exI [of _ "move_cursor ?s"])
      (simp add: vga_scroll_run VGA_HEIGHT_def scrolled_def vga_size_def VGA_WIDTH_def cursor_bytes_def)
next
  case False
  then have i: "in_screen s" using assms by (simp add: in_screen_def)
  then show ?thesis
    using False move_cursor_ports [OF i]
    by (intro exI [of _ "move_cursor s"]) (simp add: VGA_HEIGHT_def term_scroll_def cursor_bytes_def)
qed

lemma put_cell_run:
  assumes "r < 25" "c < 80"
  shows "\<exists>v. put_cell ((r * 80 + c) * 2) a b s = Ret () (s\<lparr>video := v\<rparr>) \<and>
    term_of (s\<lparr>video := v\<rparr>) = set_cell r c (a, b) (term_of s) \<and> (\<forall>i. i \<ge> vga_size \<longrightarrow> v i = video s i)"
  using assms term_set_cell [OF assms, of s a b]
  by (intro exI [of _ "(video s)((r * 80 + c) * 2 := a, (r * 80 + c) * 2 + 1 := b)"])
    (auto simp: put_cell_def vga_defs)

lemma term_of_cursor:
  "term_of (s\<lparr>cursor_x := x\<rparr>) = (term_of s)\<lparr>tx := x\<rparr>" "term_of (s\<lparr>cursor_y := y\<rparr>) = (term_of s)\<lparr>ty := y\<rparr>"
  by (intro terminal.equality ext, simp_all)+

lemma back_run:
  assumes "in_screen s"
  defines "b \<equiv> if cursor_x s > 0 then s\<lparr>cursor_x := cursor_x s - 1\<rparr>
    else if cursor_y s > 0 then s\<lparr>cursor_y := cursor_y s - 1, cursor_x := 79\<rparr> else s"
  shows "in_screen b" "term_of b = term_back (term_of s)" "ports b = ports s" "video b = video s"
  using assms by (auto simp: b_def in_screen_def term_back_def term_of_cursor)

lemma vga_place_run:
  assumes "in_screen s"
  shows "\<exists>s'. vga_place c s = Ret () s' \<and> cursor_x s' < 80 \<and> cursor_y s' \<le> 25 \<and>
    term_of s' = term_place c (term_of s) \<and> (\<forall>i. i \<ge> vga_size \<longrightarrow> video s' i = video s i) \<and> ports s' = ports s"
proof -
  have xy: "cursor_y s < 25" "cursor_x s < 80" using assms by (simp_all add: in_screen_def)
  consider "c = CHR 0x0A" | "c = CHR 0x08" | "c \<noteq> CHR 0x0A" "c \<noteq> CHR 0x08" by blast
  then show ?thesis
  proof cases
    case 1
    then show ?thesis using xy by (simp add: vga_place_def term_place_def term_of_cursor)
  next
    case 2
    define b where "b = (if cursor_x s > 0 then s\<lparr>cursor_x := cursor_x s - 1\<rparr>
      else if cursor_y s > 0 then s\<lparr>cursor_y := cursor_y s - 1, cursor_x := 79\<rparr> else s)"
    note bk = back_run [OF assms, folded b_def]
    have b: "cursor_y b < 25" "cursor_x b < 80" using bk(1) by (simp_all add: in_screen_def)
    have sel: "ty (term_back (term_of s)) = cursor_y b" "tx (term_back (term_of s)) = cursor_x b"
      using bk(2) [symmetric] by simp_all
    obtain v where v: "put_cell ((cursor_y b * 80 + cursor_x b) * 2) 32 7 b = Ret () (b\<lparr>video := v\<rparr>)"
      "term_of (b\<lparr>video := v\<rparr>) = set_cell (cursor_y b) (cursor_x b) (32, 7) (term_of b)"
      "\<forall>i. i \<ge> vga_size \<longrightarrow> v i = video b i" using put_cell_run [OF b] by blast
    have "vga_place c s = put_cell ((cursor_y b * 80 + cursor_x b) * 2) 32 7 b"
      unfolding vga_place_def b_def Let_def using 2 by (simp add: VGA_WIDTH_def VGA_COLOR_def byte_def)
    then have "vga_place c s = Ret () (b\<lparr>video := v\<rparr>)" using v(1) by (simp only:)
    then show ?thesis
      using 2 v(2,3) bk b sel by (auto simp: term_place_def blank_def Let_def)
  next
    case 3
    obtain v where v: "put_cell ((cursor_y s * 80 + cursor_x s) * 2) (byte c) 7 s = Ret () (s\<lparr>video := v\<rparr>)"
      "term_of (s\<lparr>video := v\<rparr>) = set_cell (cursor_y s) (cursor_x s) (byte c, 7) (term_of s)"
      "\<forall>i. i \<ge> vga_size \<longrightarrow> v i = video s i" using put_cell_run [OF xy] by blast
    show ?thesis
      using 3 v xy by (auto simp: vga_place_def term_place_def VGA_WIDTH_def VGA_COLOR_def term_of_cursor Let_def)
  qed
qed

lemma vga_putc_run:
  assumes "in_screen s"
  shows "\<exists>s'. vga_putc c s = Ret () s' \<and> in_screen s' \<and> term_of s' = term_putc c (term_of s) \<and>
    (\<forall>i. i \<ge> vga_size \<longrightarrow> video s' i = video s i) \<and> ports s' = ports s @ cursor_bytes s'"
proof -
  obtain s1 where s1: "vga_place c s = Ret () s1" "cursor_x s1 < 80" "cursor_y s1 \<le> 25"
    "term_of s1 = term_place c (term_of s)" "\<forall>i. i \<ge> vga_size \<longrightarrow> video s1 i = video s i" "ports s1 = ports s"
    using vga_place_run [OF assms] by blast
  then show ?thesis using putc_end [OF s1(2,3)] by (simp add: vga_putc_def term_putc_def)
qed

text \<open>Printing a string is printing its characters on the terminal.\<close>

lemma each_putc_run:
  assumes "in_screen s"
  shows "\<exists>s'. each vga_putc str s = Ret () s' \<and> in_screen s' \<and> term_of s' = fold term_putc str (term_of s) \<and>
    (\<forall>i. i \<ge> vga_size \<longrightarrow> video s' i = video s i)"
  using assms
proof (induction str arbitrary: s)
  case (Cons c str)
  obtain s1 where "vga_putc c s = Ret () s1" "in_screen s1" "term_of s1 = term_putc c (term_of s)"
    "\<forall>i. i \<ge> vga_size \<longrightarrow> video s1 i = video s i" using vga_putc_run [OF Cons.prems] by blast
  then show ?case using Cons.IH [of s1] by auto
qed simp

section \<open>Numbers\<close>

lemma reverse_loop_run:
  "reverse_loop (length as) (length as + length bs - 1) (as @ bs @ cs) = as @ rev bs @ cs"
proof (induction bs arbitrary: as cs rule: measure_induct_rule [of length])
  case (less bs)
  show ?case
  proof (cases "length bs < 2")
    case True
    then have "rev bs = bs" "\<not> length as < length as + length bs - 1" by (cases bs; cases "tl bs"; auto)+
    then show ?thesis by (simp add: reverse_loop.simps)
  next
    case False
    then obtain x ys where "bs = x # ys" "ys \<noteq> []" by (cases bs; cases "tl bs") auto
    then obtain zs y where b: "bs = x # zs @ [y]" by (metis rev_exhaust)
    let ?j = "length as" and ?k = "length as + length bs - 1"
    have k: "?k = Suc (length as + length zs)" "?j < ?k" using b by simp_all
    have "(as @ bs @ cs) ! ?j = x" "(as @ bs @ cs) ! ?k = y"
      unfolding k b by (simp_all add: nth_append)
    moreover have "(as @ bs @ cs)[?j := y, ?k := x] = (as @ [y]) @ zs @ x # cs"
      unfolding k b by (simp add: list_update_append)
    ultimately have "reverse_loop ?j ?k (as @ bs @ cs) = reverse_loop (?j + 1) (?k - 1) ((as @ [y]) @ zs @ x # cs)"
      using k(2) by (subst reverse_loop.simps) simp
    also have "\<dots> = (as @ [y]) @ rev zs @ x # cs" using less [of zs "as @ [y]" "x # cs"] b by simp
    finally show ?thesis using b by simp
  qed
qed

lemma reverse_loop_rev: "reverse_loop 0 (length s - 1) s = rev s"
  using reverse_loop_run [of "[]" s "[]"] by simp

text \<open>The numeral of a natural number in a base, most significant digit first.\<close>

fun num_text :: "nat \<Rightarrow> nat \<Rightarrow> string" where
  "num_text base n = (if n = 0 \<or> base < 2 then [] else num_text base (n div base) @ [itoa_char (int (n mod base))])"

declare num_text.simps [simp del]

lemma itoa_loop_run:
  assumes "2 \<le> base"
  shows "itoa_loop (int n) (int base) str = Some (str @ rev (num_text base n))"
proof (induction n arbitrary: str rule: less_induct)
  case (less n)
  show ?case
  proof (cases "n = 0")
    case True
    then show ?thesis by (simp add: itoa_loop.simps num_text.simps)
  next
    case False
    have d: "int n sdiv int base = int (n div base)" "int n smod int base = int (n mod base)"
      using assms False by (simp_all add: signed_divide_int_def signed_modulo_int_def zdiv_int zmod_int sgn_if)
    have "n div base < n" using assms False by simp
    then have "itoa_loop (int n) (int base) str = Some ((str @ [itoa_char (int (n mod base))]) @ rev (num_text base (n div base)))"
      using less False by (subst itoa_loop.simps) (simp add: d)
    then show ?thesis using False assms by (simp add: num_text.simps [of base n])
  qed
qed

lemma num_text_dec: "0 < n \<Longrightarrow> num_text 10 n = dec_nat n"
proof (induction n rule: dec_nat.induct)
  case (1 n)
  have "\<forall>d \<in> set [0..<10]. itoa_char (int d) = digit_char d" by code_simp
  then have c: "itoa_char (int (n mod 10)) = digit_char (n mod 10)" by simp
  show ?case
  proof (cases "n < 10")
    case True
    then show ?thesis using 1 c by (simp add: num_text.simps dec_nat.simps)
  next
    case False
    then show ?thesis using 1 c by (simp add: num_text.simps [of 10 n] dec_nat.simps [of n])
  qed
qed

definition hex_digit :: "nat \<Rightarrow> char" where
  "hex_digit d = ''0123456789abcdef'' ! d"

fun hex_nat :: "nat \<Rightarrow> string" where
  "hex_nat n = (if n < 16 then [hex_digit n] else hex_nat (n div 16) @ [hex_digit (n mod 16)])"

declare hex_nat.simps [simp del]

lemma hex_char: "d < 16 \<Longrightarrow> itoa_char (int d) = hex_digit d"
proof -
  have "\<forall>d \<in> set [0..<16]. itoa_char (int d) = hex_digit d" by code_simp
  then show "d < 16 \<Longrightarrow> itoa_char (int d) = hex_digit d" by simp
qed

lemma num_text_hex: "0 < n \<Longrightarrow> num_text 16 n = hex_nat n"
proof (induction n rule: hex_nat.induct)
  case (1 n)
  show ?case
  proof (cases "n < 16")
    case True
    then show ?thesis using 1 hex_char [of n] by (simp add: num_text.simps hex_nat.simps)
  next
    case False
    then show ?thesis
      using 1 hex_char [of "n mod 16"] by (simp add: num_text.simps [of 16 n] hex_nat.simps [of n])
  qed
qed

lemma length_num_text: "n < base ^ k \<Longrightarrow> length (num_text base n) \<le> k"
proof (induction k arbitrary: n)
  case 0
  then show ?case by (simp add: num_text.simps)
next
  case (Suc k)
  have "n div base < base ^ k" using Suc.prems by (simp add: less_mult_imp_div_less mult.commute)
  then have "length (num_text base (n div base)) \<le> k" by (rule Suc.IH)
  then show ?case by (simp add: num_text.simps [of base n])
qed

lemma sint_neg:
  fixes w :: s32
  assumes "sint w \<noteq> - (2 ^ 31)"
  shows "sint (- w) = - sint w"
proof -
  have "- (2 ^ 31) \<le> sint w" "sint w < 2 ^ 31"
    using sint_greater_eq [of w] sint_less [of w] by simp_all
  then have r: "- (2 ^ 31) \<le> - sint w" "- sint w < 2 ^ 31" using assms by simp_all
  have "- w = word_of_int (- sint w)" by simp
  moreover have "sint (word_of_int k :: s32) = signed_take_bit 31 k" for k by (simp add: signed_of_int)
  ultimately show ?thesis using signed_take_bit_int_eq_self [OF r] by (simp only:)
qed

lemma itoa_run:
  assumes "2 \<le> base" "sint num = int n" "0 < n"
  shows "itoa num (int base) = Some (num_text base n)"
proof -
  have "num \<noteq> 0" using assms(2,3) by auto
  then show ?thesis
    using itoa_loop_run [OF assms(1), of n "[]"] assms(2)
    by (simp add: itoa_def reverse_loop_rev [simplified])
qed

lemma itoa_run_all:
  shows "(sint num \<noteq> - (2 ^ 31) \<longrightarrow> itoa num 10 = Some (dec_int (sint num)) \<and> length (dec_int (sint num)) + 1 \<le> 32) \<and>
    (0 \<le> sint num \<longrightarrow> itoa num 16 = Some (hex_nat (nat (sint num))) \<and> length (hex_nat (nat (sint num))) + 1 \<le> 32)"
proof -
  have range: "- (2 ^ 31) \<le> sint num" "sint num < 2 ^ 31"
    using sint_greater_eq [of num] sint_less [of num] by simp_all
  show ?thesis
  proof (cases "num = 0")
    case True
    then show ?thesis by (simp add: itoa_def dec_int_def dec_nat.simps hex_nat.simps digit_char_def hex_digit_def char_of_def bit_Suc_0_iff)
  next
    case False
    then have nz: "sint num \<noteq> 0" by (simp add: signed_eq_0_iff)
    define n where "n = nat \<bar>sint num\<bar>"
    have n: "0 < n" using nz by (simp add: n_def)
    have pos: "itoa num 10 = Some (dec_nat n)" "itoa num 16 = Some (hex_nat n)" if "0 < sint num"
      using itoa_run [of 10 num n] itoa_run [of 16 num n] that n num_text_dec [OF n] num_text_hex [OF n]
      by (simp_all add: n_def)
    have neg: "itoa num 10 = Some (CHR ''-'' # dec_nat n)" if "sint num < 0" "sint num \<noteq> - (2 ^ 31)"
    proof -
      have "sint (- num) = int n" using sint_neg [OF that(2)] that(1) by (simp add: n_def)
      then have "itoa_loop (sint (- num)) 10 [] = Some (rev (num_text 10 n))"
        using itoa_loop_run [of 10 n "[]"] by simp
      moreover have "reverse_loop 0 (length (dec_nat n)) (rev (dec_nat n) @ ''-'') = CHR ''-'' # dec_nat n"
        using reverse_loop_rev [of "rev (dec_nat n) @ ''-''"] by simp
      ultimately show ?thesis using that(1) False num_text_dec [OF n] by (simp add: itoa_def)
    qed
    have "n \<le> 2 ^ 31" using range by (simp add: n_def nat_le_iff abs_le_iff)
    then have len: "length (dec_nat n) \<le> 10" "length (hex_nat n) \<le> 8"
      using length_num_text [of n 10 10] length_num_text [of n 16 8] num_text_dec [OF n] num_text_hex [OF n]
      by simp_all
    show ?thesis
    proof (cases "sint num < 0")
      case True
      then show ?thesis using neg len by (simp add: dec_int_def n_def)
    next
      case False
      then show ?thesis using pos len nz by (simp add: dec_int_def n_def)
    qed
  qed
qed

text \<open>C22. \<open>itoa\<close> prints every \<open>int\<close> except the least one in decimal as C does, and every non-negative one in
  hexadecimal; the digits, a sign and the terminator fit the 32 bytes of the buffer \<open>printk\<close> passes.\<close>

theorem itoa_correct:
  shows "(sint num \<noteq> - (2 ^ 31) \<longrightarrow> itoa num 10 = Some (dec_int (sint num)) \<and> length (dec_int (sint num)) + 1 \<le> 32) \<and>
    (0 \<le> sint num \<longrightarrow> itoa num 16 = Some (hex_nat (nat (sint num))) \<and> length (hex_nat (nat (sint num))) + 1 \<le> 32)"
  by (rule itoa_run_all)

theorem itoa_correct_witness:
  "itoa (- 120) 10 = Some ''-120'' \<and> itoa 255 16 = Some ''ff''"
proof -
  have "dec_int (- 120) = ''-120''" "hex_nat 255 = ''ff''" by code_simp+
  then show ?thesis using itoa_correct [of "- 120"] itoa_correct [of 255] by simp
qed

text \<open>The least \<open>int\<close> and negative numbers in hexadecimal: the remainders are negative, and the characters
  are no digits.\<close>

lemma itoa_negative: "itoa 0x80000000 10 = Some ''-./,),(-*,('' \<and> itoa (- 1) 16 = Some ''/''"
  by code_simp

section \<open>Formats\<close>

text \<open>What a format prints; no result where \<open>printk\<close> reads a missing argument or past the format.\<close>

fun expand :: "string \<Rightarrow> karg list \<Rightarrow> string option" where
  "expand [] args = Some []"
| "expand [c] args = (if c = CHR ''%'' then None else Some [c])"
| "expand (c # d # format) args =
     (if c \<noteq> CHR ''%'' then map_option ((#) c) (expand (d # format) args)
      else if d = CHR ''s'' then
        (case args of KStr str # args \<Rightarrow> map_option ((@) str) (expand format args) | _ \<Rightarrow> None)
      else if d = CHR ''d'' then
        (case args of KInt num # args \<Rightarrow>
           if sint num = - (2 ^ 31) then None else map_option ((@) (dec_int (sint num))) (expand format args)
         | _ \<Rightarrow> None)
      else if d = CHR ''x'' then
        (case args of KInt num # args \<Rightarrow>
           if sint num < 0 then None else map_option ((@) (hex_nat (nat (sint num)))) (expand format args)
         | _ \<Rightarrow> None)
      else if d = CHR ''c'' then
        (case args of KInt num # args \<Rightarrow> map_option ((#) (char_of (unat num))) (expand format args) | _ \<Rightarrow> None)
      else map_option (\<lambda>out. CHR ''%'' # d # out) (expand format args))"

lemma each_fun:
  "each f [] = Ret ()" "each f (x # xs) = (\<lambda>s. and_then (f x s) (\<lambda>_. each f xs))"
  "each f (xs @ ys) = (\<lambda>s. and_then (each f xs s) (\<lambda>_. each f ys))"
  by (simp_all add: fun_eq_iff each_append)

lemma and_then_Ret [simp]: "and_then r Ret = r"
  by (cases r) simp_all

lemma put_number_each:
  "sint num \<noteq> - (2 ^ 31) \<Longrightarrow> put_number num 10 s = each vga_putc (dec_int (sint num)) s"
  "0 \<le> sint num \<Longrightarrow> put_number num 16 s = each vga_putc (hex_nat (nat (sint num))) s"
  using itoa_run_all [of num] by (simp_all add: put_number_def)

lemma printk_loop_run:
  "expand format args = Some out \<Longrightarrow> printk_loop format args = each vga_putc out"
proof (induction format args arbitrary: out rule: expand.induct)
  case (3 c d format args)
  show ?case
  proof (cases "c = CHR ''%''")
    case False
    then show ?thesis using 3(1) [OF False] "3.prems" by (intro ext) (auto simp: each_fun)
  next
    case True
    show ?thesis
      using 3 True
      by (intro ext) (auto simp: each_fun put_number_each split: if_splits list.splits karg.splits)
  qed
qed (auto simp: each_fun fun_eq_iff split: if_splits)

section \<open>Properties\<close>

definition boot_console :: console where
  "boot_console = \<lparr>cursor_x = 0, cursor_y = 0, video = (\<lambda>_. 0), ports = []\<rparr>"

text \<open>C20. The VGA driver implements a terminal of 25 lines and 80 columns: from a cursor on the screen every
  character (line feed, backspace and the others, scrolling included) ends with the cursor on the
  screen and the picture that the abstract terminal shows, touches no byte outside the 4000 of the
  text memory, and sends the new cursor position to the display controller.\<close>

theorem vga_putc_refines:
  assumes "in_screen s"
  shows "\<exists>s'. vga_putc c s = Ret () s' \<and> in_screen s' \<and> term_of s' = term_putc c (term_of s) \<and>
    (\<forall>i. i \<ge> vga_size \<longrightarrow> video s' i = video s i) \<and> ports s' = ports s @ cursor_bytes s'"
  using vga_putc_run [OF assms] .

theorem vga_putc_refines_witness:
  "\<exists>s'. vga_putc CHR ''A'' (boot_console\<lparr>cursor_x := 79, cursor_y := 24\<rparr>) = Ret () s' \<and>
    cursor_x s' = 0 \<and> cursor_y s' = 24 \<and> video s' 3838 = 65 \<and> video s' 3998 = 32"
proof -
  let ?s = "boot_console\<lparr>cursor_x := 79, cursor_y := 24\<rparr>"
  obtain s' where s': "vga_putc CHR ''A'' ?s = Ret () s'" "term_of s' = term_putc CHR ''A'' (term_of ?s)"
    using vga_putc_refines [of ?s "CHR ''A''"] by (auto simp: in_screen_def)
  have "byte CHR ''A'' = 65" by (simp add: byte_def)
  then have "tx (term_of s') = 0" "ty (term_of s') = 24" "cells (term_of s') 23 79 = (65, 7)"
    "cells (term_of s') 24 79 = (32, 7)"
    unfolding s'(2) by (simp_all add: term_putc_def term_place_def term_scroll_def set_cell_def blank_def)
  then show ?thesis using s'(1) by simp
qed

text \<open>C21. \<open>printk\<close> prints exactly the expansion of its format: for every format whose directives find their
  arguments (decimal numbers other than the least \<open>int\<close>, non-negative hexadecimal ones) it ends, with
  the cursor on the screen, and the terminal shows the characters of the expansion one after the
  other.\<close>

theorem printk_correct:
  assumes "in_screen s" "expand format args = Some out"
  shows "\<exists>s'. printk format args s = Ret () s' \<and> in_screen s' \<and> term_of s' = fold term_putc out (term_of s)"
  using each_putc_run [OF assms(1), of out] printk_loop_run [OF assms(2)] by (auto simp: printk_def)

theorem printk_correct_witness:
  "\<exists>s'. printk ''n=%d%%!'' [KInt (- 7)] boot_console = Ret () s' \<and>
    term_of s' = fold term_putc ''n=-7%%!'' (term_of boot_console)"
proof -
  have "dec_int (- 7) = ''-7''" by code_simp
  then have e: "expand ''n=%d%%!'' [KInt (- 7)] = Some ''n=-7%%!''" by simp
  have "in_screen boot_console" by (simp add: in_screen_def boot_console_def)
  from printk_correct [OF this e] show ?thesis by blast
qed

text \<open>A format that ends in \<open>%\<close> is read past its terminator.\<close>

lemma printk_percent_end:
  assumes "in_screen s"
  shows "printk ''%'' args s = Crash OutOfBounds"
proof -
  obtain s1 where s1: "vga_putc CHR ''%'' s = Ret () s1" "in_screen s1" using vga_putc_run [OF assms] by blast
  obtain s2 where "vga_putc CHR 0x00 s1 = Ret () s2" using vga_putc_run [OF s1(2)] by blast
  then show ?thesis using s1 by (simp add: printk_def)
qed

section \<open>Ports\<close>

text \<open>The console writes to the two ports of the cursor and to no other device: the writes to the other
  ports stay as they were.\<close>

definition device_writes :: "console \<Rightarrow> (u16 \<times> u8) list" where
  "device_writes s = filter (\<lambda>(port, _). port \<noteq> 0x3D4 \<and> port \<noteq> 0x3D5) (ports s)"

lemma device_writes_outb [simp]:
  "device_writes (outb p v s) = device_writes s @ (if p \<noteq> 0x3D4 \<and> p \<noteq> 0x3D5 then [(p, v)] else [])"
  by (simp add: device_writes_def outb_def)

lemma device_writes_cursor [simp]:
  "device_writes (s\<lparr>cursor_x := x\<rparr>) = device_writes s" "device_writes (s\<lparr>cursor_y := y\<rparr>) = device_writes s"
  by (simp_all add: device_writes_def)

lemma device_writes_move_cursor [simp]: "device_writes (move_cursor s) = device_writes s"
  by (simp add: move_cursor_def Let_def)

lemma put_cell_device: "put_cell i c col s = Ret u s' \<Longrightarrow> device_writes s' = device_writes s"
  by (auto simp: put_cell_def device_writes_def split: if_splits)

lemma copy_cell_device: "copy_cell d r s = Ret u s' \<Longrightarrow> device_writes s' = device_writes s"
  by (auto simp: copy_cell_def put_cell_device split: if_splits)

lemma each_device:
  assumes "\<And>x s u s'. f x s = Ret u s' \<Longrightarrow> device_writes s' = device_writes s"
  shows "each f xs s = Ret u s' \<Longrightarrow> device_writes s' = device_writes s"
  by (induction xs arbitrary: s) (auto simp: and_then_Ret_iff dest: assms)

lemma vga_scroll_device:
  assumes "vga_scroll s = Ret u s'"
  shows "device_writes s' = device_writes s"
proof -
  obtain t1 t2 where t: "each (\<lambda>row. each (\<lambda>col. copy_cell (((row - 1) * VGA_WIDTH + col) * 2) ((row * VGA_WIDTH + col) * 2))
      [0..<VGA_WIDTH]) [1..<VGA_HEIGHT] s = Ret () t1"
    "each (\<lambda>col. put_cell (((VGA_HEIGHT - 1) * VGA_WIDTH + col) * 2) (byte CHR '' '') VGA_COLOR) [0..<VGA_WIDTH] t1 = Ret () t2"
    "s' = t2\<lparr>cursor_y := VGA_HEIGHT - 1\<rparr>"
    using assms by (auto simp: vga_scroll_def and_then_Ret_iff simp del: One_nat_def)
  have "device_writes t1 = device_writes s" by (rule each_device [OF each_device [OF copy_cell_device] t(1)])
  moreover have "device_writes t2 = device_writes t1" by (rule each_device [OF put_cell_device t(2)])
  ultimately show ?thesis by (simp add: t(3))
qed

lemma vga_putc_device: "vga_putc c s = Ret u s' \<Longrightarrow> device_writes s' = device_writes s"
proof -
  have "vga_place c s = Ret u s' \<Longrightarrow> device_writes s' = device_writes s" for u s'
    by (auto simp: vga_place_def and_then_Ret_iff Let_def dest!: put_cell_device split: if_splits)
  then show "vga_putc c s = Ret u s' \<Longrightarrow> device_writes s' = device_writes s"
    by (auto simp: vga_putc_def and_then_Ret_iff dest: vga_scroll_device split: if_splits)
qed

lemma printk_device:
  assumes "expand format args = Some out" "printk format args s = Ret u s'"
  shows "device_writes s' = device_writes s"
  using assms(2) printk_loop_run [OF assms(1)]
  by (auto simp: printk_def and_then_Ret_iff dest: each_device [rotated 1, OF _ vga_putc_device])

end
