(* ===== verification/Keyboard_Props.thy ===== *)
theory Keyboard_Props
  imports Keyboard Console_Props
begin

text \<open>
  The input buffer implements a bounded queue as long as \<open>get_key\<close> is not interrupted; Enter empties
  it, so that a line of input never ends; an interrupt inside \<open>get_key\<close> corrupts the index.
\<close>

section \<open>The buffer as a queue\<close>

definition kq :: "kbd \<Rightarrow> string" where
  "kq s = take (nat (buffer_index s)) (input_buffer s)"

definition kbd_ok :: "kbd \<Rightarrow> bool" where
  "kbd_ok s \<longleftrightarrow> in_screen (con s) \<and> length (input_buffer s) = 256 \<and> 0 \<le> buffer_index s \<and>
     buffer_index s \<le> 255 \<and> CHR 0x0A \<notin> set (kq s) \<and> CHR 0x00 \<notin> set (kq s)"

text \<open>What an interrupt with a scancode does to the queue.\<close>

definition key_effect :: "u8 \<Rightarrow> string \<Rightarrow> string" where
  "key_effect v q =
     (if v AND 0x80 \<noteq> 0 then q
      else let c = scancode_to_ascii ! unat v
           in if c = CHR 0x00 then q else if c = CHR 0x0A then [] else if length q < 255 then q @ [c] else q)"

lemma length_kq: "kbd_ok s \<Longrightarrow> int (length (kq s)) = buffer_index s"
  by (auto simp: kbd_ok_def kq_def)

lemma kq_nonempty: "kbd_ok s \<Longrightarrow> kq s \<noteq> [] \<longleftrightarrow> 0 < buffer_index s"
  using length_kq [of s] by (metis length_greater_0_conv of_nat_0_less_iff)

lemma length_scancode_to_ascii: "length scancode_to_ascii = 128"
  by (simp add: scancode_to_ascii_def)

lemma scancode_bound: "(v :: u8) AND 0x80 = 0 \<Longrightarrow> unat v < length scancode_to_ascii"
proof -
  assume "v AND 0x80 = 0"
  then have "\<not> bit (v AND 0x80) 7" by simp
  then have "\<not> bit v 7" by (simp add: bit_simps)
  then have "\<not> bit (unat v) 7" by (simp add: bit_unsigned_iff)
  then have "even (unat v div 128)" by (simp add: bit_iff_odd)
  moreover have "unat v div 128 < 2" using unat_u8_less [of v] by simp
  ultimately have "unat v div 128 = 0" by (auto simp: less_2_cases_iff simp del: div_eq_0_iff)
  then have "unat v < 128" by (rule div_eq_0_iff [THEN iffD1, THEN disjE]) simp_all
  then show ?thesis by (simp add: length_scancode_to_ascii)
qed

lemma say_run:
  assumes "in_screen (con s)" "expand format args = Some out"
  shows "\<exists>c. say format args s = Ret () (s\<lparr>con := c\<rparr>) \<and> in_screen c \<and>
    term_of c = fold term_putc out (term_of (con s)) \<and> device_writes c = device_writes (con s)"
proof -
  obtain c where c: "printk format args (con s) = Ret () c" "in_screen c" "term_of c = fold term_putc out (term_of (con s))"
    using each_putc_run [OF assms(1), of out] printk_loop_run [OF assms(2)] by (auto simp: printk_def)
  then show ?thesis
    using printk_device [OF assms(2) c(1)] by (auto simp: say_def intro!: exI [where x = c])
qed

lemma kbd_ok_con: "kbd_ok s \<Longrightarrow> in_screen c \<Longrightarrow> kbd_ok (s\<lparr>con := c\<rparr>)" "kq (s\<lparr>con := c\<rparr>) = kq s"
  by (simp_all add: kbd_ok_def kq_def)

lemma store_kq:
  assumes "kbd_ok s" "buffer_index s < 255" "c \<noteq> CHR 0x0A" "c \<noteq> CHR 0x00"
  defines "s' \<equiv> s\<lparr>input_buffer := (input_buffer s)[nat (buffer_index s) := c], buffer_index := buffer_index s + 1\<rparr>"
  shows "kq s' = kq s @ [c]" "kbd_ok s'"
proof -
  have n: "nat (buffer_index s) < length (input_buffer s)" "nat (buffer_index s + 1) = Suc (nat (buffer_index s))"
    using assms by (simp_all add: kbd_ok_def nat_less_iff nat_add_distrib)
  show q: "kq s' = kq s @ [c]" using n by (simp add: s'_def kq_def take_Suc_conv_app_nth)
  then show "kbd_ok s'" using assms(1-4) unfolding kbd_ok_def q by (simp add: s'_def)
qed

text \<open>The interrupt handler up to the point where it stores the character, which the console is not part of.\<close>

lemma handler_ignored:
  assumes "in_screen (con s)" "v AND 0x80 \<noteq> 0 \<or> scancode_to_ascii ! unat v = CHR 0x00"
  shows "\<exists>d. in_screen d \<and> device_writes d = device_writes (con s) \<and> keyboard_handler v s = Ret () (s\<lparr>con := d\<rparr>)"
proof -
  obtain d where "say ''first we get it.\<newline>'' [] s = Ret () (s\<lparr>con := d\<rparr>)" "in_screen d"
    "device_writes d = device_writes (con s)"
    using say_run [OF assms(1), of "''first we get it.\<newline>''" "[]"] by auto
  then show ?thesis using assms(2) by (intro exI [where x = d]) (auto simp: keyboard_handler_def)
qed

lemma handler_key:
  assumes "in_screen (con s)" "v AND 0x80 = 0" "scancode_to_ascii ! unat v = c" "c \<noteq> CHR 0x00"
  shows "\<exists>d. in_screen d \<and> device_writes d = device_writes (con s) \<and> keyboard_handler v s =
    (if c = CHR 0x0A then
       and_then (store_char (buffer_index s) (CHR 0x00) (s\<lparr>con := d\<rparr>)) (\<lambda>_ s. Ret () (s\<lparr>buffer_index := 0\<rparr>))
     else if buffer_index s < 255 then
       and_then (store_char (buffer_index s) c (s\<lparr>con := d\<rparr>))
         (\<lambda>_ s. Ret () (s\<lparr>buffer_index := buffer_index s + 1\<rparr>))
     else Ret () (s\<lparr>con := d\<rparr>))"
proof -
  obtain d where d: "say ''first we get it.\<newline>'' [] s = Ret () (s\<lparr>con := d\<rparr>)" "in_screen d"
    "device_writes d = device_writes (con s)"
    using say_run [OF assms(1), of "''first we get it.\<newline>''" "[]"] by auto
  obtain e where "say ''%c'' [KInt (of_nat (of_char c))] (s\<lparr>con := d\<rparr>) = Ret () (s\<lparr>con := e\<rparr>)" "in_screen e"
    "device_writes e = device_writes d"
    using say_run [of "s\<lparr>con := d\<rparr>" "''%c''" "[KInt (of_nat (of_char c))]"] d(2) by auto
  then show ?thesis using d assms(2-4)
    by (intro exI [where x = e]) (simp add: keyboard_handler_def INPUT_BUFFER_SIZE_def)
qed

lemma handler_run:
  assumes "kbd_ok s"
  shows "\<exists>s'. keyboard_handler v s = Ret () s' \<and> kbd_ok s' \<and> kq s' = key_effect v (kq s) \<and>
    device_writes (con s') = device_writes (con s)"
proof -
  let ?c = "scancode_to_ascii ! unat v"
  have scr: "in_screen (con s)" and i: "0 \<le> buffer_index s" "buffer_index s \<le> 255" "length (input_buffer s) = 256"
    using assms by (simp_all add: kbd_ok_def)
  consider "v AND 0x80 \<noteq> 0 \<or> ?c = CHR 0x00" | "v AND 0x80 = 0" "?c \<noteq> CHR 0x00" by auto
  then show ?thesis
  proof cases
    case 1
    then show ?thesis using handler_ignored [OF scr 1] kbd_ok_con(1) [OF assms] by (auto simp: key_effect_def kbd_ok_con(2))
  next
    case 2
    obtain d where d: "in_screen d" "device_writes d = device_writes (con s)" "keyboard_handler v s =
      (if ?c = CHR 0x0A then
         and_then (store_char (buffer_index s) (CHR 0x00) (s\<lparr>con := d\<rparr>)) (\<lambda>_ s. Ret () (s\<lparr>buffer_index := 0\<rparr>))
       else if buffer_index s < 255 then
         and_then (store_char (buffer_index s) ?c (s\<lparr>con := d\<rparr>))
           (\<lambda>_ s. Ret () (s\<lparr>buffer_index := buffer_index s + 1\<rparr>))
       else Ret () (s\<lparr>con := d\<rparr>))"
      using handler_key [OF scr 2(1) refl 2(2)] by blast
    have k: "kbd_ok (s\<lparr>con := d\<rparr>)" by (rule kbd_ok_con(1) [OF assms d(1)])
    consider "?c = CHR 0x0A" | "?c \<noteq> CHR 0x0A" "buffer_index s < 255" | "?c \<noteq> CHR 0x0A" "\<not> buffer_index s < 255"
      by blast
    then show ?thesis
    proof cases
      case 1
      then show ?thesis using d i 2 by (simp add: key_effect_def store_char_def kq_def kbd_ok_def)
    next
      case l: 2
      then show ?thesis
        using 2 d(2,3) i length_kq [OF assms] store_kq [OF k _ l(1) 2(2)]
        by (simp add: key_effect_def store_char_def kbd_ok_con(2))
    next
      case 3
      then show ?thesis using 2 d(2,3) i length_kq [OF assms] k by (simp add: key_effect_def kbd_ok_con(2))
    qed
  qed
qed

text \<open>The queue after a list of interrupts.\<close>

lemma key_effects_split: "fold key_effect (v # vs) q = fold key_effect vs (key_effect v q)"
  by simp

text \<open>Waiting delivers interrupts up to the first one that leaves the queue nonempty.\<close>

declare get_key_wait.simps [simp del]

lemma get_key_wait_run:
  assumes "kbd_ok s"
  shows "(\<exists>vs codes' s'. codes = vs @ codes' \<and> get_key_wait codes s = Ret codes' s' \<and> kbd_ok s' \<and>
      kq s' = fold key_effect vs (kq s) \<and> kq s' \<noteq> [] \<and> length (kq s') \<le> length (kq s) + length vs \<and>
      (kq s \<noteq> [] \<longrightarrow> vs = []))
    \<or> (\<exists>s'. get_key_wait codes s = Spin s' \<and> kbd_ok s' \<and> kq s' = [] \<and> fold key_effect codes (kq s) = [])"
  using assms
proof (induction codes arbitrary: s)
  case Nil
  have e: "kq s = [] \<longleftrightarrow> buffer_index s = 0" using length_kq [OF Nil] by auto
  show ?case using Nil e by (subst (1 2) get_key_wait.simps) (auto intro!: exI [where x = "[]"])
next
  case (Cons v codes)
  have e: "kq s = [] \<longleftrightarrow> buffer_index s = 0" using length_kq [OF Cons.prems] by auto
  show ?case
  proof (cases "kq s = []")
    case False
    then show ?thesis using Cons.prems e by (subst (1 2) get_key_wait.simps) (auto intro!: exI [where x = "[]"])
  next
    case True
    obtain s1 where s1: "keyboard_handler v s = Ret () s1" "kbd_ok s1" "kq s1 = key_effect v (kq s)"
      using handler_run [OF Cons.prems] by blast
    have w: "get_key_wait (v # codes) s = get_key_wait codes s1"
      using True e s1(1) by (subst get_key_wait.simps) simp
    have l: "length (kq s1) \<le> 1" using True by (simp add: s1(3) key_effect_def Let_def)
    from Cons.IH [OF s1(2)] show ?thesis
    proof (elim disjE exE conjE)
      fix vs codes' s'
      assume a: "codes = vs @ codes'" "get_key_wait codes s1 = Ret codes' s'" "kbd_ok s'"
        "kq s' = fold key_effect vs (kq s1)" "kq s' \<noteq> []" "length (kq s') \<le> length (kq s1) + length vs"
      then show ?thesis using l w s1(3) True
        by (intro disjI1 exI [where x = "v # vs"] exI [where x = codes'] exI [where x = s']) simp
    qed (use w s1(3) in auto)
  qed
qed

lemma shift_loop_run:
  "i + n < length (input_buffer s) \<Longrightarrow> shift_loop i n s =
    Ret () (s\<lparr>input_buffer := take i (input_buffer s) @ take n (drop (Suc i) (input_buffer s)) @
      drop (i + n) (input_buffer s)\<rparr>)"
proof (induction n arbitrary: i s)
  case (Suc n)
  let ?b = "input_buffer s"
  let ?b' = "?b[i := ?b ! Suc i]"
  have l: "Suc i < length ?b" using Suc.prems by simp
  have a: "take (Suc i) ?b' = take i ?b @ [?b ! Suc i]" using l by (simp add: take_Suc_conv_app_nth)
  have b: "drop (Suc i) ?b = ?b ! Suc i # drop (Suc (Suc i)) ?b" using l by (simp add: Cons_nth_drop_Suc)
  show ?case using Suc.IH [of "Suc i" "s\<lparr>input_buffer := ?b'\<rparr>"] Suc.prems l a b by simp
qed simp

text \<open>Taking a character from a nonempty buffer.\<close>

lemma get_key_take_run:
  assumes "kbd_ok s" "kq s \<noteq> []"
  shows "\<exists>b. get_key_take s = Ret (hd (kq s)) (s\<lparr>input_buffer := b\<rparr>) \<and> length b = 256 \<and>
    take (nat (buffer_index s - 1)) b = tl (kq s)"
proof -
  let ?n = "nat (buffer_index s - 1)"
  let ?b = "input_buffer s"
  have i: "0 < buffer_index s" "buffer_index s \<le> 255" "length ?b = 256"
    using assms kq_nonempty [OF assms(1)] by (simp_all add: kbd_ok_def)
  have n: "?n < length ?b" "nat (buffer_index s) = Suc ?n" using i by simp_all
  obtain c cs where c: "?b = c # cs" using i(3) by (cases ?b) auto
  have q: "kq s = c # take ?n cs" using n(2) by (simp add: kq_def c)
  show ?thesis
    using shift_loop_run [of 0 ?n s] n(1) i(3) c
    by (intro exI [where x = "take ?n cs @ drop ?n ?b"]) (simp add: get_key_take_def q)
qed

lemma get_key_drop_ok:
  assumes "kbd_ok s" "kq s \<noteq> []" "length b = 256" "take (nat (buffer_index s - 1)) b = tl (kq s)"
  defines "s' \<equiv> get_key_drop (s\<lparr>input_buffer := b\<rparr>)"
  shows "kq s' = tl (kq s)" "kbd_ok s'"
proof -
  have i: "0 < buffer_index s" using assms(2) kq_nonempty [OF assms(1)] by simp
  show q: "kq s' = tl (kq s)" using assms(4) by (simp add: s'_def get_key_drop_def kq_def)
  have "set (tl (kq s)) \<subseteq> set (kq s)" by (cases "kq s") auto
  then show "kbd_ok s'" using assms(1,3) i unfolding kbd_ok_def q by (auto simp: s'_def get_key_drop_def)
qed

lemma get_key_run:
  assumes "kbd_ok s"
  shows "(\<exists>vs codes' s'. codes = vs @ codes' \<and>
      get_key codes s = Ret (hd (fold key_effect vs (kq s)), codes') s' \<and> kbd_ok s' \<and>
      fold key_effect vs (kq s) \<noteq> [] \<and> kq s' = tl (fold key_effect vs (kq s)) \<and>
      length (kq s') + length codes' < length (kq s) + length codes \<and>
      CHR 0x0A \<notin> set (fold key_effect vs (kq s)) \<and> CHR 0x00 \<notin> set (fold key_effect vs (kq s)) \<and>
      (kq s \<noteq> [] \<longrightarrow> vs = []))
    \<or> (\<exists>s'. get_key codes s = Spin s' \<and> kbd_ok s' \<and> kq s' = [] \<and> fold key_effect codes (kq s) = [])"
  using get_key_wait_run [OF assms, of codes]
proof (elim disjE exE conjE)
  fix vs codes' s1
  assume a: "codes = vs @ codes'" "get_key_wait codes s = Ret codes' s1" "kbd_ok s1"
    "kq s1 = fold key_effect vs (kq s)" "kq s1 \<noteq> []" "length (kq s1) \<le> length (kq s) + length vs"
    "kq s \<noteq> [] \<longrightarrow> vs = []"
  obtain b where b: "get_key_take s1 = Ret (hd (kq s1)) (s1\<lparr>input_buffer := b\<rparr>)" "length b = 256"
    "take (nat (buffer_index s1 - 1)) b = tl (kq s1)"
    using get_key_take_run [OF a(3,5)] by blast
  let ?s' = "get_key_drop (s1\<lparr>input_buffer := b\<rparr>)"
  have "get_key codes s = Ret (hd (kq s1), codes') ?s'" using a(2) b(1) by (simp add: get_key_def)
  moreover have "0 < length (kq s1)" using a(5) by simp
  moreover have "length (tl (kq s1)) + length codes' < length (kq s) + length codes"
    using a(1,5,6) by (cases "kq s1") simp_all
  moreover have "CHR 0x0A \<notin> set (kq s1)" "CHR 0x00 \<notin> set (kq s1)" using a(3) by (simp_all add: kbd_ok_def)
  ultimately show ?thesis using a b get_key_drop_ok [OF a(3,5) b(2,3)]
    by (intro disjI1 exI [where x = vs] exI [where x = codes'] exI [where x = ?s']) simp
qed (auto simp: get_key_def)

section \<open>Lines of input\<close>

text \<open>One turn of the loop of \<open>read_input\<close> with a key that is not a newline.\<close>

lemma read_input_step:
  assumes "get_key codes s = Ret (c, codes') s1" "c \<noteq> CHR 0x0A" "kbd_ok s1" "int (length buf) < n - 1"
  shows "\<exists>s2 buf'. read_input_loop n buf codes s = read_input_loop n buf' codes' s2 \<and> kbd_ok s2 \<and>
    kq s2 = kq s1 \<and> set buf' \<subseteq> insert c (set buf) \<and> int (length buf') \<le> n - 1"
proof -
  have scr: "in_screen (con s1)" using assms(3) by (simp add: kbd_ok_def)
  note ok = kbd_ok_con(1) [OF assms(3)]
  show ?thesis
  proof (cases "c = CHR 0x08 \<and> buf \<noteq> []")
    case True
    obtain d where "say (CHR 0x08 # '' '' @ [CHR 0x08]) [] s1 = Ret () (s1\<lparr>con := d\<rparr>)" "in_screen d"
      using say_run [OF scr, of "CHR 0x08 # '' '' @ [CHR 0x08]" "[]"] by auto
    then show ?thesis
      using assms ok [of d] True
      by (subst read_input_loop.simps, intro exI [where x = "s1\<lparr>con := d\<rparr>"] exI [where x = "butlast buf"])
        (auto simp: kbd_ok_con(2) dest: in_set_butlastD)
  next
    case False
    obtain d where "say ''%c'' [KInt (of_nat (of_char c))] s1 = Ret () (s1\<lparr>con := d\<rparr>)" "in_screen d"
      using say_run [OF scr, of "''%c''" "[KInt (of_nat (of_char c))]"] by auto
    then show ?thesis
      using assms ok [of d] False
      by (subst read_input_loop.simps, intro exI [where x = "s1\<lparr>con := d\<rparr>"] exI [where x = "buf @ [c]"])
        (auto simp: kbd_ok_con(2))
  qed
qed

text \<open>A line ends only when the caller's buffer is full: \<open>get_key\<close> never returns a newline.\<close>

lemma read_input_loop_run:
  assumes "kbd_ok s" "CHR 0x0A \<notin> set buf" "CHR 0x00 \<notin> set buf" "int (length buf) \<le> n - 1"
  shows "(\<exists>cmd codes' s'. read_input_loop n buf codes s = Some (Ret (cmd, codes') s') \<and> kbd_ok s' \<and>
      int (length cmd) = n - 1 \<and> CHR 0x0A \<notin> set cmd \<and> CHR 0x00 \<notin> set cmd \<and>
      length (kq s') + length codes' < length (kq s) + length codes)
    \<or> (\<exists>s'. read_input_loop n buf codes s = Some (Spin s') \<and> kbd_ok s' \<and> kq s' = [])"
  using assms
proof (induction "length (kq s) + length codes" arbitrary: s codes buf rule: less_induct)
  case less
  from get_key_run [OF less.prems(1), of codes] show ?case
  proof (elim disjE exE conjE)
    fix vs codes' s1
    let ?q = "fold key_effect vs (kq s)"
    assume a: "get_key codes s = Ret (hd ?q, codes') s1" "kbd_ok s1" "?q \<noteq> []"
      "length (kq s1) + length codes' < length (kq s) + length codes"
      "CHR 0x0A \<notin> set ?q" "CHR 0x00 \<notin> set ?q"
    have c: "hd ?q \<noteq> CHR 0x0A" "hd ?q \<noteq> CHR 0x00" using a(3,5,6) hd_in_set [OF a(3)] by metis+
    show ?thesis
    proof (cases "int (length buf) < n - 1")
      case False
      then show ?thesis using a c less.prems by (subst (1 2) read_input_loop.simps) simp
    next
      case True
      obtain s2 buf' where s2: "read_input_loop n buf codes s = read_input_loop n buf' codes' s2"
        "kbd_ok s2" "kq s2 = kq s1" "set buf' \<subseteq> insert (hd ?q) (set buf)" "int (length buf') \<le> n - 1"
        using read_input_step [OF a(1) c(1) a(2) True] by blast
      have "CHR 0x0A \<notin> set buf'" "CHR 0x00 \<notin> set buf'" using s2(4) c less.prems(2,3) by auto
      then show ?thesis using less.hyps [of s2 codes' buf'] a(4) s2 by fastforce
    qed
  next
    fix s' assume "get_key codes s = Spin s'" "kbd_ok s'" "kq s' = []"
    then show ?thesis by (subst (1 2) read_input_loop.simps) simp
  qed
qed

section \<open>Properties\<close>

text \<open>A sequence of keyboard interrupts.\<close>

primrec interrupts :: "u8 list \<Rightarrow> kbd \<Rightarrow> (unit, kbd) exec" where
  "interrupts [] s = Ret () s"
| "interrupts (v # vs) s = and_then (keyboard_handler v s) (\<lambda>_ s. interrupts vs s)"

lemma interrupts_run:
  "kbd_ok s \<Longrightarrow> \<exists>s'. interrupts vs s = Ret () s' \<and> kbd_ok s' \<and> kq s' = fold key_effect vs (kq s)"
proof (induction vs arbitrary: s)
  case (Cons v vs)
  obtain s1 where s1: "keyboard_handler v s = Ret () s1" "kbd_ok s1" "kq s1 = key_effect v (kq s)"
    using handler_run [OF Cons.prems] by blast
  then show ?case using Cons.IH [OF s1(2)] by simp
qed simp

text \<open>The state before the first interrupt, with an empty screen.\<close>

definition fresh_console :: console where
  "fresh_console = \<lparr>cursor_x = 0, cursor_y = 0, video = (\<lambda>_. 0), ports = []\<rparr>"

definition fresh_kbd :: kbd where
  "fresh_kbd = \<lparr>con = fresh_console, input_buffer = replicate 256 (CHR 0x00), buffer_index = 0, reads = []\<rparr>"

lemma fresh_kbd_ok: "kbd_ok fresh_kbd" "kq fresh_kbd = []"
  by (simp_all add: kbd_ok_def kq_def fresh_kbd_def fresh_console_def in_screen_def)

text \<open>C25. The keyboard interrupts stay inside their tables and implement a bounded queue: after any sequence
  of interrupts, whatever the scancodes, the index into the input buffer is between 0 and 255, every
  scancode that is looked up is inside the table of 128 characters, and the buffer holds the characters
  of the keys pressed since the last Enter, up to 255 of them.\<close>

theorem keyboard_bounds:
  assumes "kbd_ok s"
  shows "\<exists>s'. interrupts vs s = Ret () s' \<and> kbd_ok s' \<and> kq s' = fold key_effect vs (kq s) \<and>
    0 \<le> buffer_index s' \<and> buffer_index s' < INPUT_BUFFER_SIZE \<and>
    (\<forall>v \<in> set vs. v AND 0x80 = 0 \<longrightarrow> unat v < length scancode_to_ascii)"
proof -
  obtain s' where "interrupts vs s = Ret () s'" "kbd_ok s'" "kq s' = fold key_effect vs (kq s)"
    using interrupts_run [OF assms] by blast
  moreover from this have "0 \<le> buffer_index s' \<and> buffer_index s' < INPUT_BUFFER_SIZE"
    by (simp add: kbd_ok_def INPUT_BUFFER_SIZE_def)
  ultimately show ?thesis using scancode_bound by blast
qed

theorem keyboard_bounds_witness:
  "\<exists>s'. interrupts [0x23, 0xA3, 0x17] fresh_kbd = Ret () s' \<and> kq s' = ''hi''"
  using keyboard_bounds [OF fresh_kbd_ok(1), of "[0x23, 0xA3, 0x17]"]
  by (simp add: fresh_kbd_ok key_effect_def scancode_to_ascii_def) blast

text \<open>C26. \<open>get_key\<close>, when no interrupt comes inside it, takes the first character of the queue: from a nonempty
  buffer it returns the first character and leaves the others in order; from an empty one it waits for
  the first interrupt that adds a character, and goes on waiting if none does. It never returns a
  newline.\<close>

theorem get_key_refines:
  assumes "kbd_ok s"
  shows "(kq s \<noteq> [] \<longrightarrow> (\<exists>s'. get_key codes s = Ret (hd (kq s), codes) s' \<and> kbd_ok s' \<and> kq s' = tl (kq s))) \<and>
    ((\<exists>vs codes' c s'. codes = vs @ codes' \<and> get_key codes s = Ret (c, codes') s' \<and> kbd_ok s' \<and>
        fold key_effect vs (kq s) = c # kq s' \<and> c \<noteq> CHR 0x0A)
     \<or> (\<exists>s'. get_key codes s = Spin s' \<and> fold key_effect codes (kq s) = []))"
  using get_key_run [OF assms, of codes]
proof (elim disjE exE conjE)
  fix vs codes' s'
  let ?q = "fold key_effect vs (kq s)"
  assume a: "codes = vs @ codes'" "get_key codes s = Ret (hd ?q, codes') s'" "kbd_ok s'" "?q \<noteq> []"
    "kq s' = tl ?q" "CHR 0x0A \<notin> set ?q" "kq s \<noteq> [] \<longrightarrow> vs = []"
  have "hd ?q \<noteq> CHR 0x0A" using a(4,6) hd_in_set by metis
  moreover have "?q = hd ?q # kq s'" using a(4,5) by simp
  ultimately show ?thesis using a by fastforce
next
  fix s' assume a: "get_key codes s = Spin s'" "fold key_effect codes (kq s) = []" "kbd_ok s'"
  have "kq s = []"
  proof (rule ccontr)
    assume "kq s \<noteq> []"
    then have "get_key_wait codes s = Ret codes s" using kq_nonempty [OF assms] by (subst get_key_wait.simps) simp
    then show False using a(1) get_key_take_run [OF assms \<open>kq s \<noteq> []\<close>] by (auto simp: get_key_def)
  qed
  then show ?thesis using a by blast
qed

theorem get_key_refines_witness:
  "\<exists>s'. get_key [] (fresh_kbd\<lparr>input_buffer := ''hi'' @ replicate 254 (CHR 0x00), buffer_index := 2\<rparr>)
     = Ret (CHR ''h'', []) s' \<and> kq s' = ''i''"
proof -
  let ?s = "fresh_kbd\<lparr>input_buffer := ''hi'' @ replicate 254 (CHR 0x00), buffer_index := 2\<rparr>"
  have q: "kq ?s = ''hi''" by (simp add: kq_def numeral_2_eq_2)
  have "kbd_ok ?s" unfolding kbd_ok_def q by (simp add: fresh_kbd_def fresh_console_def in_screen_def)
  then show ?thesis using get_key_refines [of ?s "[]"] q by auto
qed

lemma read_input_run:
  assumes "kbd_ok s" "1 \<le> n"
  shows "(\<exists>cmd codes' s'. read_input n codes s = Ret (cmd, codes') s' \<and> kbd_ok s' \<and>
      int (length cmd) = n - 1 \<and> CHR 0x0A \<notin> set cmd \<and> CHR 0x00 \<notin> set cmd \<and>
      length (kq s') + length codes' < length (kq s) + length codes)
    \<or> (\<exists>s'. read_input n codes s = Spin s' \<and> kbd_ok s' \<and> kq s' = [])"
  using read_input_loop_run [OF assms(1), of "[]" n codes] assms(2) by (auto simp: read_input_def)

text \<open>\<open>read_input\<close> returns only when the caller's buffer is full: whatever keys are pressed, Enter included,
  it either returns a string of exactly \<open>size - 1\<close> characters, none of them a newline, or waits for
  ever. Enter empties the driver's buffer and is not stored, so that the newline the loop tests for never
  comes.\<close>

theorem read_input_never_ends_line:
  assumes "kbd_ok s" "1 \<le> n"
  shows "case read_input n codes s of
      Ret (cmd, codes') s' \<Rightarrow> int (length cmd) = n - 1 \<and> CHR 0x0A \<notin> set cmd \<and> kbd_ok s'
    | Spin s' \<Rightarrow> kbd_ok s'
    | _ \<Rightarrow> False"
  using read_input_run [OF assms, of codes] by auto

theorem read_input_never_ends_line_witness:
  "case read_input 10 [0x23, 0x17, 0x1C] fresh_kbd of
      Ret (cmd, codes') s' \<Rightarrow> int (length cmd) = 10 - 1 \<and> CHR 0x0A \<notin> set cmd \<and> kbd_ok s'
    | Spin s' \<Rightarrow> kbd_ok s'
    | _ \<Rightarrow> False"
  using read_input_never_ends_line [OF fresh_kbd_ok(1), of 10 "[0x23, 0x17, 0x1C]"] by simp

lemma c_string_no0: "CHR 0x00 \<notin> set s \<Longrightarrow> c_string s"
  by (auto simp: c_string_def of_char_eq_iff [of _ "CHR 0x00", simplified] simp flip: of_char_eq_iff)

text \<open>A round of the shell: a prompt, and a line that is never the command.\<close>

lemma shell_round_run:
  assumes "kbd_ok s"
  shows "\<exists>d. in_screen d \<and> say ''> '' [] s = Ret () (s\<lparr>con := d\<rparr>) \<and>
    ((\<exists>cmd codes' s'. read_input 300000 codes (s\<lparr>con := d\<rparr>) = Ret (cmd, codes') s' \<and>
        shell_round codes s = Ret codes' s' \<and> kbd_ok s' \<and>
        length (kq s') + length codes' < length (kq s) + length codes)
     \<or> (\<exists>s'. read_input 300000 codes (s\<lparr>con := d\<rparr>) = Spin s' \<and> shell_round codes s = Spin s' \<and> kbd_ok s' \<and> kq s' = []))"
proof -
  have "in_screen (con s)" using assms by (simp add: kbd_ok_def)
  then obtain d where d: "say ''> '' [] s = Ret () (s\<lparr>con := d\<rparr>)" "in_screen d"
    using say_run [of s "''> ''" "[]"] by auto
  have k: "kbd_ok (s\<lparr>con := d\<rparr>)" by (rule kbd_ok_con(1) [OF assms d(2)])
  have "strcmp cmd ''version'' \<noteq> 0" if "int (length cmd) = 300000 - 1" "CHR 0x00 \<notin> set cmd" for cmd
    using strcmp_eq_0 [OF c_string_no0 [OF that(2)], of "''version''"] that(1) by (auto simp: c_string_def)
  then show ?thesis
    using read_input_run [OF k, of 300000 codes] d
    by (intro exI [where x = d]) (auto simp: shell_round_def kbd_ok_con(2))
qed

lemma shell_run:
  "kbd_ok s \<Longrightarrow> \<exists>s'. shell codes s = Some (Spin s') \<and> kbd_ok s' \<and> kq s' = []"
proof (induction "length (kq s) + length codes" arbitrary: s codes rule: less_induct)
  case less
  from shell_round_run [OF less.prems, of codes] show ?case
  proof (elim disjE exE conjE)
    fix codes' s'
    assume "shell_round codes s = Ret codes' s'" "kbd_ok s'"
      "length (kq s') + length codes' < length (kq s) + length codes"
    then show ?thesis using less.hyps [of s' codes'] by (subst shell.simps) simp
  next
    fix s' assume "shell_round codes s = Spin s'" "kbd_ok s'" "kq s' = []"
    then show ?thesis by (subst shell.simps) simp
  qed
qed

text \<open>The shell's only command is out of reach as long as no interrupt comes inside \<open>get_key\<close>, between its test
  of the index and the end: a round of the shell is a prompt and a line of input that is thrown away, the
  same as if the test for \<open>version\<close> were not there, because a line that is returned has 299999
  characters, none of them 0. The shell does not fault and ends up waiting for the next key. (After the race of
  \<open>get_key_race\<close> the index is -1 and \<open>get_key\<close> returns characters 0, and then the command can be
  reached.)\<close>

theorem shell_command_unreachable:
  assumes "kbd_ok s"
  shows "shell_round codes s =
      and_then (say ''> '' [] s) (\<lambda>_ s. and_then (read_input 300000 codes s) (\<lambda>(_, codes) s. Ret codes s)) \<and>
    (\<exists>s'. shell codes s = Some (Spin s') \<and> kbd_ok s')"
  using shell_round_run [OF assms, of codes] shell_run [OF assms, of codes] by auto

theorem shell_command_unreachable_witness:
  "shell_round [0x2F, 0x1C] fresh_kbd =
      and_then (say ''> '' [] fresh_kbd)
        (\<lambda>_ s. and_then (read_input 300000 [0x2F, 0x1C] s) (\<lambda>(_, codes) s. Ret codes s)) \<and>
    (\<exists>s'. shell [0x2F, 0x1C] fresh_kbd = Some (Spin s') \<and> kbd_ok s')"
  by (rule shell_command_unreachable [OF fresh_kbd_ok(1)])

text \<open>Enter between the two halves of \<open>get_key\<close> makes the index -1.\<close>

lemma race_index:
  assumes "kbd_ok s" "kq s \<noteq> []"
  shows "\<exists>s'. and_then (get_key_take s) (\<lambda>_ s. and_then (keyboard_handler 0x1C s) (\<lambda>_ s. Ret () (get_key_drop s)))
      = Ret () s' \<and> buffer_index s' = - 1 \<and> in_screen (con s')"
proof -
  obtain b where b: "get_key_take s = Ret (hd (kq s)) (s\<lparr>input_buffer := b\<rparr>)" "length b = 256"
    using get_key_take_run [OF assms(1,2)] by blast
  let ?s1 = "s\<lparr>input_buffer := b\<rparr>"
  have scr: "in_screen (con ?s1)" and i: "0 \<le> buffer_index s" "buffer_index s \<le> 255"
    using assms(1) by (simp_all add: kbd_ok_def)
  have "scancode_to_ascii ! unat (0x1C :: u8) = CHR 0x0A" by (simp add: scancode_to_ascii_def)
  from handler_key [OF scr _ this] obtain d b' where d: "in_screen d"
    "keyboard_handler 0x1C ?s1 = Ret () (s\<lparr>con := d, input_buffer := b', buffer_index := 0\<rparr>)"
    using i b(2) by (auto simp: store_char_def)
  then show ?thesis using b(1) by (simp add: get_key_drop_def)
qed

lemma one_key_ok:
  "kbd_ok (fresh_kbd\<lparr>input_buffer := ''h'' @ replicate 255 (CHR 0x00), buffer_index := 1\<rparr>)"
  "kq (fresh_kbd\<lparr>input_buffer := ''h'' @ replicate 255 (CHR 0x00), buffer_index := 1\<rparr>) = ''h''"
proof -
  let ?s = "fresh_kbd\<lparr>input_buffer := ''h'' @ replicate 255 (CHR 0x00), buffer_index := 1\<rparr>"
  show q: "kq ?s = ''h''" by (simp add: kq_def)
  show "kbd_ok ?s" unfolding kbd_ok_def q by (simp add: fresh_kbd_def fresh_console_def in_screen_def)
qed

text \<open>\<open>get_key\<close> races with the keyboard interrupt: if Enter is pressed after \<open>get_key\<close> has read the buffer
  and before it decrements the index, the index becomes -1; \<open>get_key\<close> no longer waits, and the next key
  that has a character writes before the start of the input buffer.\<close>

theorem get_key_race:
  assumes "kbd_ok s" "kq s \<noteq> []" "v AND 0x80 = 0" "scancode_to_ascii ! unat v \<noteq> CHR 0x00"
  shows "\<exists>s'. and_then (get_key_take s) (\<lambda>_ s. and_then (keyboard_handler 0x1C s) (\<lambda>_ s. Ret () (get_key_drop s)))
      = Ret () s' \<and> buffer_index s' = - 1 \<and> get_key_wait codes s' = Ret codes s' \<and>
    keyboard_handler v s' = Crash OutOfBounds"
proof -
  obtain s' where s': "and_then (get_key_take s) (\<lambda>_ s. and_then (keyboard_handler 0x1C s) (\<lambda>_ s. Ret () (get_key_drop s)))
      = Ret () s'" "buffer_index s' = - 1" "in_screen (con s')"
    using race_index [OF assms(1,2)] by blast
  have "keyboard_handler v s' = Crash OutOfBounds"
    using handler_key [OF s'(3) assms(3) refl assms(4)] s'(2) by (auto simp: store_char_def)
  moreover have "get_key_wait codes s' = Ret codes s'" using s'(2) by (subst get_key_wait.simps) simp
  ultimately show ?thesis using s'(1,2) by simp
qed

theorem get_key_race_witness:
  "\<exists>s'. and_then (get_key_take (fresh_kbd\<lparr>input_buffer := ''h'' @ replicate 255 (CHR 0x00), buffer_index := 1\<rparr>))
      (\<lambda>_ s. and_then (keyboard_handler 0x1C s) (\<lambda>_ s. Ret () (get_key_drop s))) = Ret () s' \<and>
    buffer_index s' = - 1 \<and> keyboard_handler 0x23 s' = Crash OutOfBounds"
proof -
  have "scancode_to_ascii ! unat (0x23 :: u8) \<noteq> CHR 0x00" by (simp add: scancode_to_ascii_def)
  then show ?thesis using get_key_race [OF one_key_ok(1), of "0x23" "[]"] one_key_ok(2) by auto
qed

text \<open>The keyboard interrupt is never acknowledged: the handler writes to no port but those of the cursor,
  so that the end-of-interrupt command the interrupt controller waits for before it delivers the next
  keyboard interrupt is not sent.\<close>

theorem keyboard_no_eoi:
  assumes "kbd_ok s"
  shows "\<exists>s'. interrupts vs s = Ret () s' \<and> device_writes (con s') = device_writes (con s)"
  using assms
proof (induction vs arbitrary: s)
  case (Cons v vs)
  obtain s1 where "keyboard_handler v s = Ret () s1" "kbd_ok s1" "device_writes (con s1) = device_writes (con s)"
    using handler_run [OF Cons.prems] by blast
  then show ?case using Cons.IH [of s1] by simp
qed simp

theorem keyboard_no_eoi_witness:
  "\<exists>s'. interrupts [0x23] fresh_kbd = Ret () s' \<and> device_writes (con s') = []"
  using keyboard_no_eoi [OF fresh_kbd_ok(1), of "[0x23]"]
  by (simp add: device_writes_def fresh_kbd_def fresh_console_def)

section \<open>Enabling the keyboard\<close>

text \<open>The values a controller that is ready delivers for one exchange after another: a status with the
  output buffer full and the input buffer empty before each command and each answer.\<close>

definition answers :: "u8 list \<Rightarrow> u8 list" where
  "answers as = concat (map (\<lambda>a. [1, 1, a]) as)"

lemma answers_simps [simp]: "answers [] = []" "answers (a # as) = 1 # 1 # a # answers as"
  by (simp_all add: answers_def)

text \<open>How often the command is sent until it is acknowledged.\<close>

primrec resends :: "u8 list \<Rightarrow> nat" where
  "resends [] = 0"
| "resends (a # as) = Suc (if a = 0xFA then 0 else resends as)"

lemma resends_le: "resends as \<le> length as"
  by (induction as) simp_all

lemma resend_loop_run:
  "\<exists>s'. resend_loop (length as) (s\<lparr>reads := answers as @ rest\<rparr>)
      = Ret (if 0xFA \<in> set as then 0 else - 1) s' \<and>
    ports (con s') = ports (con s) @ replicate (resends as) (0x60, 0xF4)"
proof (induction as arbitrary: s)
  case Nil
  show ?case by simp
next
  case (Cons a as)
  show ?case
    using Cons.IH [of "koutb 0x60 0xF4 s"]
    by (auto simp: wait_status_def kinb_def koutb_def outb_def split: if_splits)
qed

text \<open>Enabling the keyboard: with a controller that is ready, \<open>try_enable_keyboard\<close> succeeds exactly when
  the keyboard acknowledges at once, or asks for a repetition and then acknowledges one of the three
  repetitions; the command is repeated until the acknowledgement and at most three times.\<close>

theorem keyboard_enable:
  "\<exists>s'. try_enable_keyboard (s\<lparr>reads := [1, a] @ answers [b, c, d] @ rest\<rparr>)
      = Ret (if a = 0xFA \<or> a = 0xFE \<and> 0xFA \<in> {b, c, d} then 0 else - 1) s' \<and>
    ports (con s') = ports (con s) @ replicate (if a = 0xFE then resends [b, c, d] else 0) (0x60, 0xF4) \<and>
    resends [b, c, d] \<le> 3"
proof -
  let ?s = "s\<lparr>reads := answers [b, c, d] @ rest\<rparr>"
  have e: "try_enable_keyboard (s\<lparr>reads := [1, a] @ answers [b, c, d] @ rest\<rparr>) =
      (if a = 0xFA then Ret 0 ?s else if a = 0xFE then resend_loop 3 ?s else Ret (- 1) ?s)"
    by (simp add: try_enable_keyboard_def wait_status_def kinb_def del: answers_simps)
  have r: "resends [b, c, d] \<le> 3" using resends_le [of "[b, c, d]"] by simp
  obtain s' where s': "resend_loop 3 ?s = Ret (if 0xFA \<in> {b, c, d} then 0 else - 1) s'"
    "ports (con s') = ports (con s) @ replicate (resends [b, c, d]) (0x60, 0xF4)"
    using resend_loop_run [where as = "[b, c, d]" and s = s and rest = rest] by (auto simp: numeral_3_eq_3 simp del: resends.simps answers_simps)
  consider "a = 0xFA" | "a = 0xFE" | "a \<noteq> 0xFA" "a \<noteq> 0xFE" by blast
  then show ?thesis unfolding e using s' r by cases (auto simp del: resends.simps answers_simps)
qed

end
