(* ===== verification/Interrupt_Props.thy ===== *)
theory Interrupt_Props
  imports Interrupt Keyboard_Props
begin

text \<open>
  The entries of the interrupt descriptor table hold the handlers' addresses, the initialisation sets up
  every gate and the interrupt controller, and the kernel's entry reaches the shell.
\<close>

section \<open>Entries\<close>

text \<open>The address the processor takes from an entry.\<close>

definition entry_base :: "idt_entry \<Rightarrow> u32" where
  "entry_base e = push_bit 16 (ucast (base_high e)) OR ucast (base_low e)"

definition gate :: "u32 \<Rightarrow> idt_entry" where
  "gate h = \<lparr>base_low = ucast (h AND 0xFFFF), sel = 0x08, always0 = 0, gate_flags = 0x8E,
    base_high = ucast (drop_bit 16 h AND 0xFFFF)\<rparr>"

lemma entry_base_gate [simp]: "entry_base (gate h) = h"
proof -
  have m: "(0xFFFF :: u32) = mask 16" by (simp add: mask_eq_exp_minus_1)
  show ?thesis by (rule bit_eqI) (auto simp: entry_base_def gate_def m bit_simps)
qed

lemma register_interrupt_handler_eq:
  "register_interrupt_handler num h s =
    (if 0 \<le> num \<and> num < int (length (idt s)) then Ret () (s\<lparr>idt := (idt s)[nat num := gate h]\<rparr>)
     else Crash OutOfBounds)"
  by (simp add: register_interrupt_handler_def gate_def)

lemma exceptions_loop_run:
  "0 \<le> i \<Longrightarrow> nat i + n \<le> length (idt s) \<Longrightarrow> exceptions_loop l i n s =
    Ret () (s\<lparr>idt := take (nat i) (idt s) @ replicate n (gate (exception_handler_at l)) @ drop (nat i + n) (idt s)\<rparr>)"
proof (induction n arbitrary: i s)
  case (Suc n)
  let ?g = "gate (exception_handler_at l)"
  let ?t = "(idt s)[nat i := ?g]"
  have i: "nat (i + 1) = Suc (nat i)" "nat i < length (idt s)" using Suc.prems by simp_all
  have "take (Suc (nat i)) ?t = take (nat i) (idt s) @ [?g]" using i(2) by (simp add: take_Suc_conv_app_nth)
  moreover have "drop (Suc (nat i) + n) ?t = drop (Suc (nat i) + n) (idt s)" by simp
  ultimately show ?case
    using Suc.IH [of "i + 1" "s\<lparr>idt := ?t\<rparr>"] Suc.prems i
    by (simp add: register_interrupt_handler_eq nat_less_iff zless_nat_eq_int_zless)
qed simp

section \<open>Initialisation\<close>

lemma on_kbd_say_run:
  assumes "in_screen (con (kb s))" "expand format args = Some txt"
  shows "\<exists>c. on_kbd (say format args) s = Ret () (s\<lparr>kb := (kb s)\<lparr>con := c\<rparr>\<rparr>) \<and> in_screen c \<and>
    device_writes c = device_writes (con (kb s)) \<and> term_of c = fold term_putc txt (term_of (con (kb s)))"
proof -
  obtain c where "say format args (kb s) = Ret () ((kb s)\<lparr>con := c\<rparr>)" "in_screen c"
    "device_writes c = device_writes (con (kb s))" "term_of c = fold term_putc txt (term_of (con (kb s)))"
    using say_run [OF assms] by blast
  then show ?thesis by (intro exI [where x = c]) (simp add: on_kbd_def)
qed

lemma term_of_outb [simp]: "term_of (outb p v c) = term_of c"
  by (simp add: term_of_def outb_def fun_eq_iff)

lemma kb_out [simp]:
  "device_writes (con (kb (out p v s))) =
    device_writes (con (kb s)) @ (if p \<noteq> 0x3D4 \<and> p \<noteq> 0x3D5 then [(p, v)] else [])"
  "in_screen (con (kb (out p v s))) = in_screen (con (kb s))"
  "idt (out p v s) = idt s" "idtp (out p v s) = idtp s" "loaded (out p v s) = loaded s"
  "interrupts_on (out p v s) = interrupts_on s"
  "kbd_ok (kb (out p v s)) = kbd_ok (kb s)" "kq (kb (out p v s)) = kq (kb s)" "reads (kb (out p v s)) = reads (kb s)"
  "term_of (con (kb (out p v s))) = term_of (con (kb s))"
  by (simp_all add: out_def koutb_def) (simp_all add: in_screen_def outb_def device_writes_def kbd_ok_def kq_def)

text \<open>The gates after the initialisation of the interrupts, and the commands sent to the two controllers.\<close>

definition exception_gates :: "link \<Rightarrow> idt_entry list" where
  "exception_gates l = replicate 32 (gate (exception_handler_at l)) @ replicate 224 zero_entry"

definition pic_commands :: "(u16 \<times> u8) list" where
  "pic_commands = [(0x20, 0x11), (0xA0, 0x11), (0x21, 0x20), (0xA1, 0x28), (0x21, 0x04), (0xA1, 0x02),
    (0x21, 0x01), (0xA1, 0x01), (0x21, 0x0), (0xA1, 0x0)]"

lemma init_exceptions_run:
  "idt s = replicate IDT_SIZE zero_entry \<Longrightarrow> init_exceptions l s = Ret () (s\<lparr>idt := exception_gates l\<rparr>)"
  using exceptions_loop_run [of 0 32 s l] by (simp add: init_exceptions_def exception_gates_def IDT_SIZE_def)

lemma init_interrupts_run:
  assumes "kbd_ok (kb s)"
  shows "\<exists>s'. init_interrupts l s = Ret () s' \<and> kbd_ok (kb s') \<and> kq (kb s') = kq (kb s) \<and> reads (kb s') = reads (kb s) \<and>
    idt s' = exception_gates l \<and> idtp s' = \<lparr>limit = 2047, idt_base = idt_at l\<rparr> \<and> loaded s' = Some (idtp_at l) \<and>
    device_writes (con (kb s')) = device_writes (con (kb s)) @ pic_commands @ [(0x21, 0xFD), (0xA1, 0xFF)] \<and>
    term_of (con (kb s')) = fold term_putc ''IDT initialized.\<newline>'' (term_of (con (kb s)))"
proof -
  let ?s = "(s\<lparr>idtp := \<lparr>limit = 2047, idt_base = idt_at l\<rparr>\<rparr>)\<lparr>idt := replicate IDT_SIZE zero_entry\<rparr>"
  let ?t = "(out 0xA1 0xFF (out 0x21 0xFD (pic_remap (?s\<lparr>idt := exception_gates l\<rparr>))))\<lparr>loaded := Some (idtp_at l)\<rparr>"
  have e: "init_interrupts l s = on_kbd (say ''IDT initialized.\<newline>'' []) ?t"
    using init_exceptions_run [of ?s l] by (simp add: init_interrupts_def idt_load_def Let_def IDT_SIZE_def)
  have "in_screen (con (kb s))" using assms by (simp add: kbd_ok_def)
  then obtain c where "on_kbd (say ''IDT initialized.\<newline>'' []) ?t = Ret () (?t\<lparr>kb := (kb ?t)\<lparr>con := c\<rparr>\<rparr>)" "in_screen c"
    "device_writes c = device_writes (con (kb ?t))"
    "term_of c = fold term_putc ''IDT initialized.\<newline>'' (term_of (con (kb ?t)))"
    using on_kbd_say_run [of ?t "''IDT initialized.\<newline>''" "[]"] by (auto simp: pic_remap_def)
  then show ?thesis unfolding e
    using assms by (simp add: pic_remap_def pic_commands_def kbd_ok_con)
qed

text \<open>A handler registered in the interrupt descriptor table is found again: the address split over the two
  halves of the entry is the address of the handler, the entry is an interrupt gate of the kernel's code
  segment, and no other entry changes. A number outside the table is a store outside it.\<close>

theorem register_handler_roundtrip:
  "register_interrupt_handler num h s =
    (if 0 \<le> num \<and> num < int (length (idt s)) then Ret () (s\<lparr>idt := (idt s)[nat num := gate h]\<rparr>)
     else Crash OutOfBounds) \<and>
    entry_base (gate h) = h \<and> gate_flags (gate h) = 0x8E \<and> sel (gate h) = 0x08 \<and> always0 (gate h) = 0"
  by (simp add: register_interrupt_handler_eq) (simp add: gate_def)

text \<open>C39. \<open>init_interrupts\<close> leaves the machine ready for the keyboard: the 32 exceptions have a gate to the
  exception handler and no other interrupt has one, the table's limit is its last byte, the table is
  loaded after it is filled, and the controllers get the remapping sequence, the same as \<open>init_pic\<close>, and
  then the masks that leave only the keyboard interrupt enabled.\<close>

theorem init_interrupts_correct:
  assumes "kbd_ok (kb s)"
  shows "\<exists>s'. init_interrupts l s = Ret () s' \<and> length (idt s') = IDT_SIZE \<and>
    (\<forall>i < IDT_SIZE. idt s' ! i = (if i < 32 then gate (exception_handler_at l) else zero_entry)) \<and>
    unat (limit (idtp s')) + 1 = 8 * length (idt s') \<and> idt_base (idtp s') = idt_at l \<and> loaded s' = Some (idtp_at l) \<and>
    device_writes (con (kb s')) = device_writes (con (kb (init_pic s))) @ [(0x21, 0xFD), (0xA1, 0xFF)]"
  using init_interrupts_run [OF assms, of l]
  by (auto simp: exception_gates_def IDT_SIZE_def nth_append pic_commands_def init_pic_def)

definition fresh_machine :: machine where
  "fresh_machine = \<lparr>kb = fresh_kbd\<lparr>reads := [0, 0, 1, 0xFA]\<rparr>, idt = replicate 256 zero_entry,
    idtp = \<lparr>limit = 0, idt_base = 0\<rparr>, loaded = None, interrupts_on = False\<rparr>"

lemma fresh_machine_simps: "kb fresh_machine = fresh_kbd\<lparr>reads := [0, 0, 1, 0xFA]\<rparr>" "kbd_ok (kb fresh_machine)"
  using fresh_kbd_ok(1) by (simp_all add: fresh_machine_def kbd_ok_def kq_def)

theorem init_interrupts_correct_witness:
  "\<exists>s'. init_interrupts \<lparr>exception_handler_at = 0x100000, keyboard_handler_at = 0x100200, idt_at = 0x200000,
      idtp_at = 0x200800\<rparr> fresh_machine = Ret () s' \<and> length (idt s') = IDT_SIZE \<and>
    idt s' ! 13 = gate 0x100000 \<and> idt s' ! 33 = zero_entry"
  using init_interrupts_correct [OF fresh_machine_simps(2), of "\<lparr>exception_handler_at = 0x100000,
    keyboard_handler_at = 0x100200, idt_at = 0x200000, idtp_at = 0x200800\<rparr>"]
  by (auto simp: IDT_SIZE_def)

section \<open>The kernel's entry\<close>

lemma keyboard_init_run:
  assumes "kbd_ok k" "reads k = [0, 0, 1, 0xFA] @ rest"
  shows "\<exists>k'. keyboard_init k = Ret () k' \<and> kbd_ok k' \<and> kq k' = kq k \<and>
    device_writes (con k') = device_writes (con k) @ [(0x64, 0xD4), (0x60, 0xF4)] \<and>
    term_of (con k') = fold term_putc ''Keyboard initialized.\<newline>'' (term_of (con k))"
proof -
  let ?k = "(koutb 0x60 0xF4 (koutb 0x64 0xD4 k))\<lparr>reads := rest\<rparr>"
  have e: "keyboard_init k = say ''Keyboard initialized.\<newline>'' [] ?k"
    using assms(2) by (simp add: keyboard_init_def wait_status_def koutb_def try_enable_keyboard_def kinb_def)
  have k: "kbd_ok ?k" "in_screen (con ?k)" using assms(1) by (simp_all add: kbd_ok_def kq_def koutb_def outb_def in_screen_def)
  obtain c where "say ''Keyboard initialized.\<newline>'' [] ?k = Ret () (?k\<lparr>con := c\<rparr>)" "in_screen c"
    "device_writes c = device_writes (con ?k)" "term_of c = fold term_putc ''Keyboard initialized.\<newline>'' (term_of (con ?k))"
    using say_run [OF k(2), of "''Keyboard initialized.\<newline>''" "[]"] by auto
  then show ?thesis unfolding e using kbd_ok_con(1) [OF k(1), of c]
    by (simp add: kbd_ok_con(2)) (simp add: koutb_def kq_def)
qed

text \<open>A step of the boot prints \<open>txt\<close> and sends the commands \<open>cmds\<close>.\<close>

definition booted_by :: "string \<Rightarrow> (u16 \<times> u8) list \<Rightarrow> kbd \<Rightarrow> kbd \<Rightarrow> bool" where
  "booted_by txt cmds k k' \<longleftrightarrow> kbd_ok k' \<and> kq k' = kq k \<and>
     term_of (con k') = fold term_putc txt (term_of (con k)) \<and> device_writes (con k') = device_writes (con k) @ cmds"

lemma booted_by_trans:
  "booted_by txt cmds k k1 \<Longrightarrow> booted_by txt' cmds' k1 k2 \<Longrightarrow> booted_by (txt @ txt') (cmds @ cmds') k k2"
  by (simp add: booted_by_def)

lemma keyboard_setup_run:
  assumes "kbd_ok (kb s)" "reads (kb s) = [0, 0, 1, 0xFA] @ rest" "33 < length (idt s)"
  shows "\<exists>k. keyboard_setup l s = Ret () (s\<lparr>idt := (idt s)[33 := gate (keyboard_handler_at l)], kb := k\<rparr>) \<and>
    booted_by ''Keyboard initialized.\<newline>'' [(0x64, 0xD4), (0x60, 0xF4)] (kb s) k"
  using keyboard_init_run [OF assms(1,2)] assms(3)
  by (auto simp: keyboard_setup_def register_interrupt_handler_eq on_kbd_def booted_by_def)

lemma on_kbd_say_ok:
  assumes "kbd_ok (kb s)" "expand format args = Some txt"
  shows "\<exists>k. on_kbd (say format args) s = Ret () (s\<lparr>kb := k\<rparr>) \<and> booted_by txt [] (kb s) k \<and> reads k = reads (kb s)"
proof -
  have "in_screen (con (kb s))" using assms(1) by (simp add: kbd_ok_def)
  from on_kbd_say_run [OF this assms(2)] obtain c where c: "on_kbd (say format args) s = Ret () (s\<lparr>kb := (kb s)\<lparr>con := c\<rparr>\<rparr>)"
    "in_screen c" "device_writes c = device_writes (con (kb s))" "term_of c = fold term_putc txt (term_of (con (kb s)))"
    by blast
  show ?thesis
    by (rule exI [where x = "(kb s)\<lparr>con := c\<rparr>"])
       (use c kbd_ok_con(1) [OF assms(1) c(2)] in \<open>simp add: booted_by_def kbd_ok_con(2)\<close>)
qed

lemma banner_expand [simp]: "expand banner [] = Some banner"
  by (simp add: banner_def)

lemma run_shell_run: "kbd_ok k \<Longrightarrow> \<exists>k'. run_shell codes k = Spin k' \<and> kbd_ok k' \<and> kq k' = []"
  using shell_run [of k codes] by (auto simp: run_shell_def)

text \<open>What the boot prints, and the commands it sends.\<close>

definition boot_text :: string where
  "boot_text = ''Initializing system...\<newline>'' @ banner @ ''PhyOS is the BEST OS!!!\<newline>'' @ ''IDT initialized.\<newline>'' @
     ''Keyboard initialized.\<newline>'' @ banner @ ''System ready. Type a command:\<newline>''"

definition boot_commands :: "(u16 \<times> u8) list" where
  "boot_commands = pic_commands @ [(0x21, 0xFD), (0xA1, 0xFF), (0x64, 0xD4), (0x60, 0xF4)]"

definition boot_gates :: "link \<Rightarrow> idt_entry list" where
  "boot_gates l = (exception_gates l)[33 := gate (keyboard_handler_at l)]"

text \<open>The greeting, up to the initialisation of the interrupts.\<close>

lemma greeting_run:
  assumes "kbd_ok (kb s)"
  shows "\<exists>k. and_then (on_kbd (say ''Initializing system...\<newline>'' []) s) (\<lambda>_ s.
      and_then (on_kbd (say banner []) s) (\<lambda>_ s. on_kbd (say ''PhyOS is the BEST OS!!!\<newline>'' []) s)) = Ret () (s\<lparr>kb := k\<rparr>) \<and>
    booted_by (''Initializing system...\<newline>'' @ banner @ ''PhyOS is the BEST OS!!!\<newline>'') [] (kb s) k \<and> reads k = reads (kb s)"
proof -
  obtain k1 where k1: "on_kbd (say ''Initializing system...\<newline>'' []) s = Ret () (s\<lparr>kb := k1\<rparr>)"
    "booted_by ''Initializing system...\<newline>'' [] (kb s) k1" "reads k1 = reads (kb s)"
    using on_kbd_say_ok [OF assms, of "''Initializing system...\<newline>''" "[]"] by auto
  then obtain k2 where k2: "on_kbd (say banner []) (s\<lparr>kb := k1\<rparr>) = Ret () (s\<lparr>kb := k2\<rparr>)"
    "booted_by banner [] k1 k2" "reads k2 = reads (kb s)"
    using on_kbd_say_ok [of "s\<lparr>kb := k1\<rparr>", OF _ banner_expand] by (auto simp: booted_by_def)
  then obtain k3 where k3: "on_kbd (say ''PhyOS is the BEST OS!!!\<newline>'' []) (s\<lparr>kb := k2\<rparr>) = Ret () (s\<lparr>kb := k3\<rparr>)"
    "booted_by ''PhyOS is the BEST OS!!!\<newline>'' [] k2 k3" "reads k3 = reads (kb s)"
    using on_kbd_say_ok [of "s\<lparr>kb := k2\<rparr>" "''PhyOS is the BEST OS!!!\<newline>''" "[]"] by (auto simp: booted_by_def)
  have "booted_by (''Initializing system...\<newline>'' @ banner @ ''PhyOS is the BEST OS!!!\<newline>'') ([] @ [] @ []) (kb s) k3"
    by (rule booted_by_trans [OF k1(2) booted_by_trans [OF k2(2) k3(2)]])
  then show ?thesis using k1(1) k2(1) k3(1,3) by auto
qed

lemma kernel_boot_run:
  assumes "kbd_ok (kb s)" "reads (kb s) = [0, 0, 1, 0xFA] @ rest"
  shows "\<exists>t. kernel_boot l s = Ret () t \<and> booted_by boot_text boot_commands (kb s) (kb t) \<and> interrupts_on t \<and>
    loaded t = Some (idtp_at l) \<and> idtp t = \<lparr>limit = 2047, idt_base = idt_at l\<rparr> \<and> idt t = boot_gates l"
proof -
  obtain k where k: "and_then (on_kbd (say ''Initializing system...\<newline>'' []) s) (\<lambda>_ s.
      and_then (on_kbd (say banner []) s) (\<lambda>_ s. on_kbd (say ''PhyOS is the BEST OS!!!\<newline>'' []) s)) = Ret () (s\<lparr>kb := k\<rparr>)"
    "booted_by (''Initializing system...\<newline>'' @ banner @ ''PhyOS is the BEST OS!!!\<newline>'') [] (kb s) k" "reads k = reads (kb s)"
    using greeting_run [OF assms(1)] by blast
  then obtain t where t: "init_interrupts l (s\<lparr>kb := k\<rparr>) = Ret () t"
    "booted_by ''IDT initialized.\<newline>'' (pic_commands @ [(0x21, 0xFD), (0xA1, 0xFF)]) k (kb t)" "reads (kb t) = [0, 0, 1, 0xFA] @ rest"
    "idt t = exception_gates l" "loaded t = Some (idtp_at l)" "idtp t = \<lparr>limit = 2047, idt_base = idt_at l\<rparr>"
    using init_interrupts_run [of "s\<lparr>kb := k\<rparr>" l] assms(2) by (auto simp: booted_by_def)
  have len: "33 < length (idt t)" by (simp add: t(4) exception_gates_def)
  obtain k4 where k4: "keyboard_setup l t = Ret () (t\<lparr>idt := boot_gates l, kb := k4\<rparr>)"
    "booted_by ''Keyboard initialized.\<newline>'' [(0x64, 0xD4), (0x60, 0xF4)] (kb t) k4"
    using keyboard_setup_run [OF _ t(3) len, of l] t(2,4) by (auto simp: booted_by_def boot_gates_def)
  let ?u = "t\<lparr>idt := boot_gates l, kb := k4, interrupts_on := True\<rparr>"
  obtain k5 where k5: "on_kbd (say banner []) ?u = Ret () (?u\<lparr>kb := k5\<rparr>)" "booted_by banner [] k4 k5"
    using on_kbd_say_ok [of ?u, OF _ banner_expand] k4(2) by (auto simp: booted_by_def)
  obtain k6 where k6: "on_kbd (say ''System ready. Type a command:\<newline>'' []) (?u\<lparr>kb := k5\<rparr>) = Ret () (?u\<lparr>kb := k6\<rparr>)"
    "booted_by ''System ready. Type a command:\<newline>'' [] k5 k6"
    using on_kbd_say_ok [of "?u\<lparr>kb := k5\<rparr>" "''System ready. Type a command:\<newline>''" "[]"] k5(2) by (auto simp: booted_by_def)
  have b: "booted_by boot_text boot_commands (kb s) k6"
    using booted_by_trans [OF k(2) booted_by_trans [OF t(2) booted_by_trans [OF k4(2) booted_by_trans [OF k5(2) k6(2)]]]]
    by (simp add: boot_text_def boot_commands_def)
  have "kernel_boot l s = Ret () (?u\<lparr>kb := k6\<rparr>)"
    using k(1) t(1) k4(1) k5(1) k6(1) by (auto simp: kernel_boot_def and_then_Ret_iff)
  then show ?thesis using b t(5,6) by (intro exI [where x = "?u\<lparr>kb := k6\<rparr>"]) simp
qed

text \<open>C23. The kernel boots into the shell: with a keyboard controller that is ready and acknowledges at once,
  \<open>kernel_main\<close> gets to its call of \<open>shell\<close> without a fault, with the boot messages on the terminal, the remapping sequence, the
  masks and the keyboard's commands sent to the controllers, in this order, the gates of the 32 exceptions and of the keyboard (interrupt 33)
  and no other set, the table loaded and interrupts enabled; from there on it is the shell, which,
  whatever keys are pressed while it waits for input, ends up waiting for the next key with the
  input buffer empty.\<close>

theorem kernel_boots:
  assumes "kbd_ok (kb s)" "reads (kb s) = [0, 0, 1, 0xFA] @ rest"
  shows "\<exists>t k. kernel_boot l s = Ret () t \<and>
    term_of (con (kb t)) = fold term_putc boot_text (term_of (con (kb s))) \<and>
    device_writes (con (kb t)) = device_writes (con (kb s)) @ pic_commands @ [(0x21, 0xFD), (0xA1, 0xFF), (0x64, 0xD4), (0x60, 0xF4)] \<and>
    interrupts_on t \<and> loaded t = Some (idtp_at l) \<and> idtp t = \<lparr>limit = 2047, idt_base = idt_at l\<rparr> \<and>
    length (idt t) = IDT_SIZE \<and>
    (\<forall>i < IDT_SIZE. idt t ! i = (if i < 32 then gate (exception_handler_at l)
      else if i = 33 then gate (keyboard_handler_at l) else zero_entry)) \<and>
    kernel_main l codes s = Spin (t\<lparr>kb := k\<rparr>) \<and> run_shell codes (kb t) = Spin k \<and> kbd_ok k \<and> kq k = []"
proof -
  obtain t where t: "kernel_boot l s = Ret () t" "booted_by boot_text boot_commands (kb s) (kb t)" "interrupts_on t"
    "loaded t = Some (idtp_at l)" "idtp t = \<lparr>limit = 2047, idt_base = idt_at l\<rparr>" "idt t = boot_gates l"
    using kernel_boot_run [OF assms, of l] by blast
  obtain k where k: "run_shell codes (kb t) = Spin k" "kbd_ok k" "kq k = []"
    using run_shell_run [of "kb t" codes] t(2) by (auto simp: booted_by_def)
  have "kernel_main l codes s = Spin (t\<lparr>kb := k\<rparr>)" using t(1) k(1) by (simp add: kernel_main_def on_kbd_def)
  moreover have "\<forall>i < IDT_SIZE. idt t ! i = (if i < 32 then gate (exception_handler_at l)
      else if i = 33 then gate (keyboard_handler_at l) else zero_entry)" "length (idt t) = IDT_SIZE"
    by (auto simp: t(6) boot_gates_def exception_gates_def IDT_SIZE_def nth_append nth_list_update)
  ultimately show ?thesis
    using t k by (intro exI [where x = t] exI [where x = k]) (simp add: booted_by_def boot_commands_def)
qed

theorem kernel_boots_witness:
  "\<exists>t k. kernel_boot \<lparr>exception_handler_at = 0x100000, keyboard_handler_at = 0x100200, idt_at = 0x200000,
      idtp_at = 0x200800\<rparr> fresh_machine = Ret () t \<and> interrupts_on t \<and> idt t ! 33 = gate 0x100200 \<and>
    kernel_main \<lparr>exception_handler_at = 0x100000, keyboard_handler_at = 0x100200, idt_at = 0x200000,
      idtp_at = 0x200800\<rparr> [0x23, 0x1C] fresh_machine = Spin (t\<lparr>kb := k\<rparr>)"
  using kernel_boots [OF fresh_machine_simps(2), of "[]" "\<lparr>exception_handler_at = 0x100000,
    keyboard_handler_at = 0x100200, idt_at = 0x200000, idtp_at = 0x200800\<rparr>" "[0x23, 0x1C]"]
  by (auto simp: IDT_SIZE_def fresh_machine_simps)

end
