(* ===== verification/Keyboard_Race.thy ===== *)
theory Keyboard_Race
  imports Keyboard_Props
begin

text \<open>
  \<open>get_key\<close> and the keyboard interrupt as a state machine: the reader waits, then has taken a character
  and shifted the buffer, then decrements the index; an interrupt may come between these steps. The code
  does not disable interrupts in \<open>get_key\<close>: the machine with \<open>masked\<close> false is the code, with a subset of the
  interleavings it allows (an interrupt inside the shift is not one of them), and in it the buffer is
  not a queue. The machine with \<open>masked\<close> true is hypothetical: what the same code would do with
  interrupts disabled from the copy to the decrement, where the buffer is a queue in every reachable state.
\<close>

section \<open>The state machine\<close>

datatype reader = Waiting | Took char

text \<open>The flag says whether interrupts are disabled between the two halves of \<open>get_key\<close>; in
  \<open>keyboard.c\<close> they are not. The copy and the shift are one step.\<close>

inductive kmove :: "bool \<Rightarrow> reader \<times> kbd \<Rightarrow> reader \<times> kbd \<Rightarrow> bool" for masked where
  irq: "r = Waiting \<or> \<not> masked \<Longrightarrow> keyboard_handler v s = Ret () s' \<Longrightarrow> kmove masked (r, s) (r, s')"
| begin_key: "buffer_index s \<noteq> 0 \<Longrightarrow> get_key_take s = Ret c s' \<Longrightarrow> kmove masked (Waiting, s) (Took c, s')"
| end_key: "kmove masked (Took c, s) (Waiting, get_key_drop s)"

inductive kreach :: "bool \<Rightarrow> reader \<times> kbd \<Rightarrow> reader \<times> kbd \<Rightarrow> bool" for masked x where
  start: "kreach masked x x"
| more: "kreach masked x y \<Longrightarrow> kmove masked y z \<Longrightarrow> kreach masked x z"

inductive_cases kmove_waiting [elim!]: "kmove True (Waiting, s) y"
inductive_cases kmove_took [elim!]: "kmove True (Took c, s) y"

section \<open>With interrupts disabled inside \<open>get_key\<close>\<close>

text \<open>Between the two halves the buffer still counts the character that was taken; decrementing the index
  gives a queue again.\<close>

definition kbd_machine_ok :: "reader \<times> kbd \<Rightarrow> bool" where
  "kbd_machine_ok x = (case x of (Waiting, s) \<Rightarrow> kbd_ok s | (Took c, s) \<Rightarrow> kbd_ok (get_key_drop s) \<and> buffer_index s < INPUT_BUFFER_SIZE)"

lemma kmove_masked:
  assumes "kmove True x y" "kbd_machine_ok x"
  shows "kbd_machine_ok y"
proof (cases x)
  case (Pair r s)
  show ?thesis
  proof (cases r)
    case Waiting
    then have k: "kbd_ok s" using assms(2) Pair by (simp add: kbd_machine_ok_def)
    have h: "kbd_ok s'" if "keyboard_handler v s = Ret () s'" for v s' using handler_run [OF k, of v] that by auto
    have t: "kbd_ok (get_key_drop s') \<and> buffer_index s' < INPUT_BUFFER_SIZE" if "get_key_take s = Ret c s'" "buffer_index s \<noteq> 0" for c s'
    proof -
      have q: "kq s \<noteq> []" using that(2) kq_nonempty [OF k] k by (auto simp: kbd_ok_def)
      then show ?thesis using get_key_take_run [OF k q] get_key_drop_ok(2) [OF k q] that(1) k
        by (fastforce simp: kbd_ok_def INPUT_BUFFER_SIZE_def)
    qed
    show ?thesis using assms(1) unfolding Pair Waiting by (auto simp: kbd_machine_ok_def h t)
  next
    case (Took c)
    then show ?thesis using assms unfolding Pair Took by (auto simp: kbd_machine_ok_def)
  qed
qed

lemma kreach_masked: "kreach True x y \<Longrightarrow> kbd_machine_ok x \<Longrightarrow> kbd_machine_ok y"
  by (induction rule: kreach.induct) (auto intro: kmove_masked)

lemma kbd_machine_ok_bounds:
  "kbd_machine_ok (r, s) \<Longrightarrow> 0 \<le> buffer_index s \<and> buffer_index s < INPUT_BUFFER_SIZE \<and> length (input_buffer s) = 256"
  by (auto simp: kbd_machine_ok_def kbd_ok_def get_key_drop_def INPUT_BUFFER_SIZE_def split: reader.splits)

section \<open>As the code is written\<close>

lemma kreach_unmasked:
  assumes "kbd_ok s" "kq s \<noteq> []"
  shows "\<exists>s'. kreach False (Waiting, s) (Waiting, s') \<and> buffer_index s' = - 1"
proof -
  obtain s3 where "and_then (get_key_take s) (\<lambda>_ s. and_then (keyboard_handler 0x1C s) (\<lambda>_ s. Ret () (get_key_drop s)))
      = Ret () s3" "buffer_index s3 = - 1"
    using race_index [OF assms] by blast
  then obtain c s1 s2 where s: "get_key_take s = Ret c s1" "keyboard_handler 0x1C s1 = Ret () s2" "s3 = get_key_drop s2"
    by (auto simp: and_then_Ret_iff)
  have "buffer_index s \<noteq> 0" using kq_nonempty [OF assms(1)] assms(2) by auto
  then have "kmove False (Waiting, s) (Took c, s1)" using s(1) by (rule begin_key)
  moreover have "kmove False (Took c, s1) (Took c, s2)" using s(2) by (intro irq) auto
  moreover have "kmove False (Took c, s2) (Waiting, s3)" unfolding s(3) by (rule end_key)
  ultimately have "kreach False (Waiting, s) (Waiting, s3)" by (meson kreach.intros)
  then show ?thesis using \<open>buffer_index s3 = - 1\<close> by blast
qed

text \<open>C28. The input buffer under interleaving: if interrupts were disabled between the two halves of \<open>get_key\<close>, in
  every state reached by interrupts and reads in any order the index would lie in the buffer; as the code
  is written, with interrupts enabled, some order of events makes the index -1, from every state with a
  character in the buffer.\<close>

theorem keyboard_interleaving:
  assumes "kbd_ok s"
  shows "(\<forall>r s'. kreach True (Waiting, s) (r, s') \<longrightarrow>
      0 \<le> buffer_index s' \<and> buffer_index s' < INPUT_BUFFER_SIZE \<and> length (input_buffer s') = 256) \<and>
    (kq s \<noteq> [] \<longrightarrow> (\<exists>s'. kreach False (Waiting, s) (Waiting, s') \<and> buffer_index s' = - 1))"
proof -
  have "kbd_machine_ok (Waiting, s)" using assms by (simp add: kbd_machine_ok_def)
  then show ?thesis using kreach_masked kbd_machine_ok_bounds kreach_unmasked [OF assms] by blast
qed

theorem keyboard_interleaving_witness:
  "\<exists>s'. kreach False (Waiting, fresh_kbd\<lparr>input_buffer := ''h'' @ replicate 255 (CHR 0x00), buffer_index := 1\<rparr>)
     (Waiting, s') \<and> buffer_index s' = - 1"
  using keyboard_interleaving [OF one_key_ok(1)] one_key_ok(2) by simp

end
