(* ===== verification/Keyboard_Trace.thy ===== *)
theory Keyboard_Trace
  imports Keyboard_Props Simulation
begin

text \<open>
  The keyboard driver as its users see it: a queue of characters that key presses fill and reads empty. A
  read that finds the queue empty waits through the interrupts that come meanwhile. Every sequence of
  reads, with interrupts between them and while they wait, is a trace of the queue. (Interrupts between
  the instructions of \<open>get_key\<close> are the subject of \<open>Keyboard_Race\<close>.)
\<close>

section \<open>Calls and what is observed of them\<close>

datatype kbd_call = Press u8 | Read "u8 list"

fun kbd_call_run :: "kbd_call \<Rightarrow> kbd \<Rightarrow> (unit, kbd) exec" where
  "kbd_call_run (Press v) s = keyboard_handler v s"
| "kbd_call_run (Read codes) s = and_then (get_key codes s) (\<lambda>_ s. Ret () s)"

text \<open>A read is considered when a character is there or one of the interrupts brings one.\<close>

fun kbd_call_ok :: "kbd_call \<Rightarrow> kbd \<Rightarrow> bool" where
  "kbd_call_ok (Press v) s = True"
| "kbd_call_ok (Read codes) s = list_ex (\<lambda>i. fold key_effect (take i codes) (kq s) \<noteq> []) [0 ..< Suc (length codes)]"

text \<open>A key press with its scancode; a read with the scancodes that came while it waited and the character
  it returned.\<close>

datatype kbd_event = Pressed u8 | Got "u8 list" char | Stuck

fun kbd_observe :: "kbd_call \<Rightarrow> kbd \<Rightarrow> kbd_event" where
  "kbd_observe (Press v) s = Pressed v"
| "kbd_observe (Read codes) s =
     (case get_key codes s of
        Ret (c, rest) _ \<Rightarrow> Got (take (length codes - length rest) codes) c
      | _ \<Rightarrow> Stuck)"

text \<open>The queue of characters: a key press adds at the end (or empties it, or is ignored), a read takes the
  first character; it waits only while the queue is empty.\<close>

inductive queue_step :: "kbd_event \<Rightarrow> char list \<Rightarrow> char list \<Rightarrow> bool" where
  pressed: "queue_step (Pressed v) q (key_effect v q)"
| got: "fold key_effect vs q = c # q' \<Longrightarrow> q \<noteq> [] \<longrightarrow> vs = [] \<Longrightarrow> queue_step (Got vs c) q q'"

inductive_cases pressed_step: "queue_step (Pressed v) q q'"
inductive_cases got_step: "queue_step (Got vs c) q q'"

definition kbd_rel :: "kbd \<Rightarrow> char list \<Rightarrow> bool" where
  "kbd_rel s q \<longleftrightarrow> kbd_ok s \<and> q = kq s"

section \<open>The refinement\<close>

text \<open>A read waits for ever only if none of the interrupts brings a character.\<close>

lemma wait_spins:
  assumes "kbd_ok s" "get_key_wait codes s = Spin s'"
  shows "fold key_effect (take i codes) (kq s) = []"
  using assms
proof (induction codes arbitrary: s i)
  case Nil
  have "kq s = [] \<longleftrightarrow> buffer_index s = 0" using length_kq [OF Nil(1)] by auto
  then show ?case using Nil(2) by (subst (asm) get_key_wait.simps) (auto split: if_splits)
next
  case (Cons v codes)
  have e: "kq s = [] \<longleftrightarrow> buffer_index s = 0" using length_kq [OF Cons.prems(1)] by auto
  obtain s1 where s1: "keyboard_handler v s = Ret () s1" "kbd_ok s1" "kq s1 = key_effect v (kq s)"
    using handler_run [OF Cons.prems(1)] by blast
  have "kq s = []" using Cons.prems(2) e by (subst (asm) get_key_wait.simps) (auto split: if_splits)
  moreover from this have "get_key_wait codes s1 = Spin s'"
    using Cons.prems(2) e s1(1) by (subst (asm) get_key_wait.simps) simp
  then have "fold key_effect (take j codes) (kq s1) = []" for j by (rule Cons.IH [OF s1(2)])
  ultimately show ?case by (cases i) (auto simp: s1(3))
qed

lemma read_spins:
  assumes "kbd_ok s" "get_key codes s = Spin s'"
  shows "fold key_effect (take i codes) (kq s) = []"
  using get_key_wait_run [OF assms(1), of codes]
proof (elim disjE exE conjE)
  fix codes' s1 assume "get_key_wait codes s = Ret codes' s1" "kbd_ok s1" "kq s1 \<noteq> []"
  then show ?thesis using assms(2) get_key_take_run [of s1] by (auto simp: get_key_def)
qed (use wait_spins [OF assms(1)] in blast)

lemma read_step:
  assumes k: "kbd_ok s" and ok: "kbd_call_ok (Read codes) s"
  shows "\<exists>s'. kbd_call_run (Read codes) s = Ret () s' \<and> kbd_ok s' \<and>
    queue_step (kbd_observe (Read codes) s) (kq s) (kq s')"
  using get_key_run [OF k, of codes]
proof (elim disjE exE conjE)
  fix vs rest s'
  let ?q = "fold key_effect vs (kq s)"
  assume a: "codes = vs @ rest" "get_key codes s = Ret (hd ?q, rest) s'" "kbd_ok s'" "?q \<noteq> []" "kq s' = tl ?q"
    "kq s \<noteq> [] \<longrightarrow> vs = []"
  then have "queue_step (Got vs (hd ?q)) (kq s) (kq s')" by (intro got) simp_all
  then show ?thesis using a by simp
next
  fix s' assume "get_key codes s = Spin s'"
  then show ?thesis using read_spins [OF k] ok by (auto simp: list_ex_iff)
qed

interpretation kbd_queue: forward_simulation kbd_call_run kbd_call_ok kbd_observe queue_step kbd_rel
proof
  fix s q c assume "kbd_rel s q" and ok: "kbd_call_ok c s"
  then have k: "kbd_ok s" "q = kq s" by (simp_all add: kbd_rel_def)
  show "\<exists>s' q'. hands_on (kbd_call_run c s) s' \<and> queue_step (kbd_observe c s) q q' \<and> kbd_rel s' q'"
  proof (cases c)
    case (Press v)
    then show ?thesis
      using handler_run [OF k(1), of v] pressed [of v q] k(2) by (auto simp: hands_on_def kbd_rel_def)
  next
    case (Read codes)
    then show ?thesis
      using read_step [OF k(1), of codes] ok k(2) by (auto simp: hands_on_def kbd_rel_def)
  qed
qed

text \<open>C24. The keyboard driver is a queue of characters as long as no interrupt comes inside \<open>get_key\<close> after its wait
  (\<open>Keyboard_Race\<close> has what happens then): for every sequence of interrupts and reads, the interrupts
  coming between the calls of \<open>get_key\<close> or while it waits on an empty buffer, and each read made when a
  character is there or with one that comes while it waits, no call faults or blocks, the buffer
  index stays between 0 and 255, and what is pressed and read is a trace of the queue: a read returns
  the first character not yet read of those typed since the last Enter, and waits only while there is
  none.\<close>

theorem keyboard_trace:
  assumes "kbd_ok s" "all_allowed kbd_call_ok kbd_call_run cs s"
  shows "\<exists>s'. run_calls kbd_call_run cs s = Some s' \<and> kbd_ok s' \<and>
    0 \<le> buffer_index s' \<and> buffer_index s' < INPUT_BUFFER_SIZE \<and>
    steps queue_step (kq s) (observed kbd_call_run kbd_observe cs s) (kq s')"
proof -
  have "kbd_rel s (kq s)" using assms(1) by (simp add: kbd_rel_def)
  then show ?thesis
    using kbd_queue.trace_refines [OF _ assms(2)] by (auto simp: kbd_rel_def kbd_ok_def INPUT_BUFFER_SIZE_def)
qed

theorem keyboard_trace_witness:
  "\<exists>s'. run_calls kbd_call_run [Press 0x23, Press 0x17, Read []] fresh_kbd = Some s' \<and> kq s' = ''i''"
proof -
  let ?cs = "[Press 0x23, Press 0x17, Read []]"
  have keys: "key_effect 0x23 [] = ''h''" "key_effect 0x17 ''h'' = ''hi''"
    by (simp_all add: key_effect_def scancode_to_ascii_def)
  obtain s1 where s1: "keyboard_handler 0x23 fresh_kbd = Ret () s1" "kbd_ok s1" "kq s1 = ''h''"
    using handler_run [OF fresh_kbd_ok(1), of "0x23"] keys fresh_kbd_ok(2) by auto
  obtain s2 where s2: "keyboard_handler 0x17 s1 = Ret () s2" "kbd_ok s2" "kq s2 = ''hi''"
    using handler_run [OF s1(2), of "0x17"] keys s1(3) by auto
  have "all_allowed kbd_call_ok kbd_call_run ?cs fresh_kbd" using s1(1) s2(1,3) by (simp split: option.split)
  then obtain s' where s': "run_calls kbd_call_run ?cs fresh_kbd = Some s'"
    "steps queue_step [] (observed kbd_call_run kbd_observe ?cs fresh_kbd) (kq s')"
    using keyboard_trace [OF fresh_kbd_ok(1), of ?cs] fresh_kbd_ok(2) by auto
  then have "queue_step (kbd_observe (Read []) s2) ''hi'' (kq s')"
    using s1(1) s2(1) keys by (auto simp: steps_Cons elim!: pressed_step split: option.splits)
  moreover obtain c where "kbd_observe (Read []) s2 = Got [] c"
    using get_key_run [OF s2(2), of "[]"] s2(3) by auto
  ultimately show ?thesis using s'(1) by (auto elim: got_step)
qed

end
