(* ===== verification/Switch_To.thy ===== *)
theory Switch_To
  imports Context
begin

text \<open>
  The assembly routine \<open>__switch_to\<close> of \<open>kernel/process/switch.S\<close> and its caller
  \<open>process_context_switch\<close>: an interpreter for the instructions the routine uses, the routine as a list
  of instructions, and what it does to the registers and the memory. The memory is addressed by
  bytes, as in \<open>Context\<close>, and the memory the routine uses is mapped. How \<open>addq\<close> changes the flags is
  a parameter.
\<close>

section \<open>Instructions\<close>

datatype instr =
    AddImm u64 gpr
  | Store gpr u64 gpr
  | Load u64 gpr gpr
  | Mov gpr gpr
  | Lea u64 gpr gpr
  | Pushfq
  | Popfq
  | Pushq gpr
  | Popq gpr
  | Ret_instr

text \<open>\<open>Store r k b\<close> is \<open>movq %r, k(%b)\<close>, \<open>Load k b r\<close> is \<open>movq k(%b), %r\<close>.\<close>

definition push :: "u64 \<Rightarrow> cpu \<Rightarrow> cpu" where
  "push v cpu = (let a = regs cpu RSP - 8 in (set_reg RSP a cpu)\<lparr>mem := st64 (mem cpu) a v\<rparr>)"

definition pop_value :: "cpu \<Rightarrow> u64" where
  "pop_value cpu = ld64 (mem cpu) (regs cpu RSP)"

fun step :: "(u64 \<Rightarrow> u64 \<Rightarrow> u64 \<Rightarrow> u64) \<Rightarrow> instr \<Rightarrow> cpu \<Rightarrow> cpu" where
  "step add_flags (AddImm k r) cpu =
     set_reg r (regs cpu r + k) (cpu\<lparr>rflags := add_flags (regs cpu r) k (rflags cpu)\<rparr>)"
| "step add_flags (Store r k b) cpu = cpu\<lparr>mem := st64 (mem cpu) (regs cpu b + k) (regs cpu r)\<rparr>"
| "step add_flags (Load k b r) cpu = set_reg r (ld64 (mem cpu) (regs cpu b + k)) cpu"
| "step add_flags (Mov q r) cpu = set_reg r (regs cpu q) cpu"
| "step add_flags (Lea k b r) cpu = set_reg r (regs cpu b + k) cpu"
| "step add_flags Pushfq cpu = push (pushfq_flags (rflags cpu)) cpu"
| "step add_flags Popfq cpu = set_reg RSP (regs cpu RSP + 8) (cpu\<lparr>rflags := popfq_flags (pop_value cpu)\<rparr>)"
| "step add_flags (Pushq r) cpu = push (regs cpu r) cpu"
| "step add_flags (Popq r) cpu = set_reg r (pop_value cpu) (set_reg RSP (regs cpu RSP + 8) cpu)"
| "step add_flags Ret_instr cpu = set_reg RSP (regs cpu RSP + 8) (cpu\<lparr>rip := pop_value cpu\<rparr>)"

section \<open>The routine\<close>

definition CONTEXT_OFFSET :: u64 where
  "CONTEXT_OFFSET = 0x20"

definition RIP_OFFSET :: u64 where
  "RIP_OFFSET = 0x90"

definition RFLAGS_OFFSET :: u64 where
  "RFLAGS_OFFSET = 0x98"

text \<open>The runs of \<open>movq %r, R_OFFSET(%rdi)\<close> and of \<open>movq R_OFFSET(%r11), %r\<close>.\<close>

definition stores :: "gpr list \<Rightarrow> instr list" where
  "stores rs = map (\<lambda>r. Store r (gpr_offset r) RDI) rs"

definition loads :: "gpr list \<Rightarrow> instr list" where
  "loads rs = map (\<lambda>r. Load (gpr_offset r) R11 r) rs"

definition save_code :: "instr list" where
  "save_code =
     [AddImm CONTEXT_OFFSET RDI, AddImm CONTEXT_OFFSET RSI] @
     stores [RAX, RBX, RCX, RDX, RSI, RDI, RBP] @
     [Lea 8 RSP RAX, Store RAX (gpr_offset RSP) RDI] @
     stores [R8, R9, R10, R11, R12, R13, R14, R15] @
     [Load 0 RSP RAX, Store RAX RIP_OFFSET RDI,
      Pushfq, Popq RAX, Store RAX RFLAGS_OFFSET RDI]"

definition restore_code :: "instr list" where
  "restore_code =
     [Mov RSI R11] @
     loads [RAX, RBX, RCX, RDX, RBP, R8, R9, R10, R12, R13, R14, R15] @
     [Load RFLAGS_OFFSET R11 RAX, Pushq RAX, Popfq,
      Load (gpr_offset RSP) R11 RSP] @
     loads [RSI, RDI] @
     loads [R11] @
     [Ret_instr]"

definition switch_to_asm :: "(u64 \<Rightarrow> u64 \<Rightarrow> u64 \<Rightarrow> u64) \<Rightarrow> cpu \<Rightarrow> cpu" where
  "switch_to_asm add_flags cpu = fold (step add_flags) (save_code @ restore_code) cpu"

text \<open>The call: the arguments in \<open>rdi\<close> and \<open>rsi\<close>, the return address pushed.\<close>

definition process_context_switch :: "(u64 \<Rightarrow> u64 \<Rightarrow> u64 \<Rightarrow> u64) \<Rightarrow> u64 \<Rightarrow> ptr \<Rightarrow> ptr \<Rightarrow> cpu \<Rightarrow> cpu" where
  "process_context_switch add_flags ret_addr prev next_p cpu =
     switch_to_asm add_flags (push ret_addr (set_reg RSI next_p (set_reg RDI prev cpu)))"

section \<open>What the runs do\<close>

lemma push_simps [simp]:
  "regs (push v cpu) = (regs cpu)(RSP := regs cpu RSP - 8)" "mem (push v cpu) = st64 (mem cpu) (regs cpu RSP - 8) v"
  "rflags (push v cpu) = rflags cpu" "rip (push v cpu) = rip cpu"
  by (simp_all add: push_def Let_def)

lemma stores_run:
  "regs (fold (step af) (stores rs) cpu) = regs cpu"
  "rflags (fold (step af) (stores rs) cpu) = rflags cpu"
  "rip (fold (step af) (stores rs) cpu) = rip cpu"
  "mem (fold (step af) (stores rs) cpu) =
    fold (\<lambda>r m. st64 m (regs cpu RDI + gpr_offset r) (regs cpu r)) rs (mem cpu)"
  by (induction rs arbitrary: cpu) (simp_all add: stores_def)

lemma loads_run:
  assumes "R11 \<notin> set rs" "distinct rs"
  shows "regs (fold (step af) (loads rs) cpu) =
      (\<lambda>r. if r \<in> set rs then ld64 (mem cpu) (regs cpu R11 + gpr_offset r) else regs cpu r)"
    "rflags (fold (step af) (loads rs) cpu) = rflags cpu"
    "rip (fold (step af) (loads rs) cpu) = rip cpu"
    "mem (fold (step af) (loads rs) cpu) = mem cpu"
  using assms by (induction rs arbitrary: cpu) (auto simp: loads_def fun_eq_iff)

text \<open>The words of the process structure that the routine uses as a context.\<close>

definition ctx_offsets :: "u64 list" where
  "ctx_offsets = map (\<lambda>i. 0x20 + 8 * of_nat i) [0..<20]"

definition ctx_area :: "ptr \<Rightarrow> u64 set" where
  "ctx_area p = (\<lambda>k. p + k) ` set ctx_offsets"

text \<open>A word that overlaps none of them.\<close>

definition clear_of :: "u64 \<Rightarrow> ptr \<Rightarrow> bool" where
  "clear_of a p \<longleftrightarrow> (\<forall>w \<in> ctx_area p. sep a w)"

lemma ctx_offsets_eq:
  "ctx_offsets = [0x20, 0x28, 0x30, 0x38, 0x40, 0x48, 0x50, 0x58, 0x60, 0x68, 0x70, 0x78, 0x80, 0x88,
    0x90, 0x98, 0xA0, 0xA8, 0xB0, 0xB8]"
  by (simp add: ctx_offsets_def upt_rec)

lemma ctx_area_ball: "(\<forall>w \<in> ctx_area p. P w) \<longleftrightarrow> P (p + 0x20) \<and> P (p + 0x28) \<and> P (p + 0x30) \<and> P (p + 0x38) \<and>
  P (p + 0x40) \<and> P (p + 0x48) \<and> P (p + 0x50) \<and> P (p + 0x58) \<and> P (p + 0x60) \<and> P (p + 0x68) \<and> P (p + 0x70) \<and>
  P (p + 0x78) \<and> P (p + 0x80) \<and> P (p + 0x88) \<and> P (p + 0x90) \<and> P (p + 0x98) \<and> P (p + 0xA0) \<and> P (p + 0xA8) \<and>
  P (p + 0xB0) \<and> P (p + 0xB8)"
  by (simp add: ctx_area_def ctx_offsets_eq)

lemma ctx_area_in [simp]: "p + 0x58 \<in> ctx_area p" "p + 0xB0 \<in> ctx_area p" "p + 0xB8 \<in> ctx_area p"
  by (simp_all add: ctx_area_def ctx_offsets_eq)

lemma ctx_area_gpr [simp]: "p + 0x20 + gpr_offset r \<in> ctx_area p"
  by (cases r) (simp_all add: ctx_area_def ctx_offsets_eq add.assoc)

lemma clear_ofD: "clear_of a p \<Longrightarrow> w \<in> ctx_area p \<Longrightarrow> sep a w \<and> sep w a"
  using sep_sym by (auto simp: clear_of_def)

lemma clear_gpr: "clear_of a p \<Longrightarrow> sep a (p + 0x20 + gpr_offset r) \<and> sep (p + 0x20 + gpr_offset r) a"
  by (rule clear_ofD [OF _ ctx_area_gpr])

lemma st64_byte [simp]: "\<not> x - a < 8 \<Longrightarrow> st64 m a v x = m x"
  by (simp add: st64_def)

text \<open>The value the routine saves for a register: \<open>rsi\<close> and \<open>rdi\<close> after the offset was added, \<open>rsp\<close> as it
  was before the call.\<close>

definition saved_reg :: "cpu \<Rightarrow> gpr \<Rightarrow> u64" where
  "saved_reg cpu r = (if r = RSI \<or> r = RDI then regs cpu r + 0x20 else if r = RSP then regs cpu RSP + 8 else regs cpu r)"

definition saved_flags :: "(u64 \<Rightarrow> u64 \<Rightarrow> u64 \<Rightarrow> u64) \<Rightarrow> cpu \<Rightarrow> u64" where
  "saved_flags af cpu = pushfq_flags (af (regs cpu RSI) 0x20 (af (regs cpu RDI) 0x20 (rflags cpu)))"

text \<open>The bytes the routine writes: the context area of the process it leaves, and the word below the
  stack pointer.\<close>

definition untouched :: "ptr \<Rightarrow> u64 \<Rightarrow> u64 \<Rightarrow> bool" where
  "untouched p sp a \<longleftrightarrow> (\<forall>w \<in> ctx_area p. \<not> a - w < 8) \<and> \<not> a - (sp - 8) < 8"

lemma save_run:
  fixes cpu :: cpu and af :: "u64 \<Rightarrow> u64 \<Rightarrow> u64 \<Rightarrow> u64"
  defines "s \<equiv> fold (step af) save_code cpu" and "p \<equiv> regs cpu RDI" and "sp \<equiv> regs cpu RSP"
  assumes "clear_of sp p" "clear_of (sp - 8) p"
  shows "ld64 (mem s) (p + 0x20 + gpr_offset r) = saved_reg cpu r"
    "ld64 (mem s) (p + 0xB0) = ld64 (mem cpu) sp" "ld64 (mem s) (p + 0xB8) = saved_flags af cpu"
    "untouched p sp a \<Longrightarrow> mem s a = mem cpu a"
    "regs s RSI = regs cpu RSI + 0x20" "regs s RSP = sp"
proof -
  note code = s_def p_def sp_def save_code_def CONTEXT_OFFSET_def RIP_OFFSET_def RFLAGS_OFFSET_def
    saved_reg_def saved_flags_def pop_value_def stores_run add.assoc
  have c: "\<forall>w \<in> ctx_area (regs cpu RDI). sep (regs cpu RSP) w \<and> sep w (regs cpu RSP) \<and>
      sep (regs cpu RSP - 8) w \<and> sep w (regs cpu RSP - 8)"
    using assms(4,5) clear_ofD unfolding p_def sp_def by blast
  show "regs s RSI = regs cpu RSI + 0x20" "regs s RSP = sp"
    by (simp_all add: code)
  show "ld64 (mem s) (p + 0x20 + gpr_offset r) = saved_reg cpu r"
    using c unfolding ctx_area_ball by (cases r) (simp_all add: code sep_def [of "numeral _"])
  show "ld64 (mem s) (p + 0xB0) = ld64 (mem cpu) sp" "ld64 (mem s) (p + 0xB8) = saved_flags af cpu"
    using c unfolding ctx_area_ball by (simp_all add: code sep_def [of "numeral _"])
  show "mem s a = mem cpu a" if "untouched p sp a"
    using that unfolding untouched_def ctx_area_ball by (simp add: code)
qed

lemma restore_run:
  fixes cpu :: cpu and af :: "u64 \<Rightarrow> u64 \<Rightarrow> u64 \<Rightarrow> u64"
  defines "s \<equiv> fold (step af) restore_code cpu" and "c \<equiv> regs cpu RSI" and "sp \<equiv> regs cpu RSP"
  assumes "\<And>r. sep (sp - 8) (c + gpr_offset r)"
  shows "regs s = (\<lambda>r. if r = RAX then ld64 (mem cpu) (c + 0x98) else if r = RSP then ld64 (mem cpu) (c + 0x38) + 8
      else ld64 (mem cpu) (c + gpr_offset r))"
    "mem s = st64 (mem cpu) (sp - 8) (ld64 (mem cpu) (c + 0x98))"
    "rflags s = popfq_flags (ld64 (mem cpu) (c + 0x98))"
    "rip s = ld64 (mem s) (ld64 (mem cpu) (c + 0x38))"
proof -
  have a: "sep (sp - 8) (c + 32)" "sep (sp - 8) (c + 40)" "sep (sp - 8) (c + 56)" "sep (sp - 8) (c + 88)"
    using assms(4) [of RSI] assms(4) [of RDI] assms(4) [of RSP] assms(4) [of R11] by simp_all
  have l: "fold (step af) (loads [R11]) t = set_reg R11 (ld64 (mem t) (regs t R11 + 88)) t" for t
    by (simp add: loads_def)
  note code = s_def c_def sp_def restore_code_def RFLAGS_OFFSET_def pop_value_def
  show m: "mem s = st64 (mem cpu) (sp - 8) (ld64 (mem cpu) (c + 0x98))" "rflags s = popfq_flags (ld64 (mem cpu) (c + 0x98))"
    by (simp_all add: code loads_run l)
  show "rip s = ld64 (mem s) (ld64 (mem cpu) (c + 0x38))"
    unfolding m using a(3) by (simp add: code loads_run l)
  show "regs s = (\<lambda>r. if r = RAX then ld64 (mem cpu) (c + 0x98) else if r = RSP then ld64 (mem cpu) (c + 0x38) + 8
      else ld64 (mem cpu) (c + gpr_offset r))"
  proof
    fix r show "regs s r = (if r = RAX then ld64 (mem cpu) (c + 0x98) else if r = RSP then ld64 (mem cpu) (c + 0x38) + 8
        else ld64 (mem cpu) (c + gpr_offset r))"
      using a by (cases r) (simp_all add: code loads_run l)
  qed
qed

section \<open>Properties\<close>

text \<open>Two processes whose context areas are apart from each other and from the two stack words in use.\<close>

definition apart :: "ptr \<Rightarrow> ptr \<Rightarrow> u64 \<Rightarrow> bool" where
  "apart p n sp \<longleftrightarrow> (\<forall>w \<in> ctx_area p. clear_of w n) \<and> clear_of sp p \<and> clear_of (sp - 8) p \<and> clear_of (sp - 8) n"

text \<open>Memory that the routine does not write keeps its words.\<close>

lemma untouched_word:
  assumes "clear_of a p" "sep a (sp - 8)" "\<And>x. untouched p sp x \<Longrightarrow> m x = m' x"
  shows "ld64 m a = ld64 m' a"
proof (rule ld64_cong)
  fix i :: nat assume i: "i < 8"
  have "\<not> a + of_nat i - w < 8" if "sep a w" for w using sep_byte [of w a i] that i sep_sym by blast
  then have "untouched p sp (a + of_nat i)" using assms(1,2) by (simp add: untouched_def clear_of_def)
  then show "m (a + of_nat i) = m' (a + of_nat i)" by (rule assms(3))
qed

lemma switch_run:
  fixes cpu :: cpu and af :: "u64 \<Rightarrow> u64 \<Rightarrow> u64 \<Rightarrow> u64"
  defines "s \<equiv> switch_to_asm af cpu" and "p \<equiv> regs cpu RDI" and "n \<equiv> regs cpu RSI" and "sp \<equiv> regs cpu RSP"
  assumes ap: "apart p n sp"
  shows "ld64 (mem s) (p + 0x20 + gpr_offset r) = saved_reg cpu r"
    "ld64 (mem s) (p + 0xB0) = ld64 (mem cpu) sp" "ld64 (mem s) (p + 0xB8) = saved_flags af cpu"
    "untouched p sp a \<Longrightarrow> mem s a = mem cpu a"
    "r \<noteq> RAX \<Longrightarrow> r \<noteq> RSP \<Longrightarrow> regs s r = ld64 (mem cpu) (n + 0x20 + gpr_offset r)"
    "regs s RAX = ld64 (mem cpu) (n + 0xB8)" "rflags s = popfq_flags (ld64 (mem cpu) (n + 0xB8))"
    "regs s RSP = ld64 (mem cpu) (n + 0x58) + 8" "rip s = ld64 (mem s) (ld64 (mem cpu) (n + 0x58))"
proof -
  let ?t = "fold (step af) save_code cpu"
  have s: "s = fold (step af) restore_code ?t" by (simp add: s_def switch_to_asm_def)
  have sp: "clear_of sp p" "clear_of (sp - 8) p" "clear_of (sp - 8) n" using ap by (auto simp: apart_def)
  note sv = save_run [where cpu = cpu and af = af, folded p_def sp_def, OF sp(1,2)]
  have c: "regs ?t RSI = n + 0x20" using sv(5) by (simp add: n_def)
  have "sep (regs ?t RSP - 8) (regs ?t RSI + gpr_offset r)" for r
    using clear_gpr [OF sp(3)] unfolding c sv(6) by blast
  note rs = restore_run [where cpu = ?t and af = af, OF this, unfolded c sv(6), folded s]
  have n: "ld64 (mem ?t) a = ld64 (mem cpu) a" if "a \<in> ctx_area n" for a
  proof (rule untouched_word)
    show "clear_of a p" using ap that sep_sym unfolding apart_def clear_of_def by blast
    show "sep a (sp - 8)" using clear_ofD [OF sp(3) that] by simp
  qed (rule sv(4))
  have ms: "ld64 (mem s) a = ld64 (mem ?t) a" if "a \<in> ctx_area p" for a
    using rs(2) clear_ofD [OF sp(2) that] by simp
  show "ld64 (mem s) (p + 0x20 + gpr_offset r) = saved_reg cpu r" using ms [OF ctx_area_gpr] sv(1) by simp
  show "ld64 (mem s) (p + 0xB0) = ld64 (mem cpu) sp" "ld64 (mem s) (p + 0xB8) = saved_flags af cpu"
    using ms sv(2,3) by simp_all
  show "mem s a = mem cpu a" if "untouched p sp a" using rs(2) sv(4) [OF that] that by (simp add: untouched_def)
  show "regs s r = ld64 (mem cpu) (n + 0x20 + gpr_offset r)" if "r \<noteq> RAX" "r \<noteq> RSP"
    using rs(1) n [OF ctx_area_gpr] that by simp
  show "regs s RAX = ld64 (mem cpu) (n + 0xB8)" "rflags s = popfq_flags (ld64 (mem cpu) (n + 0xB8))"
    using rs(1,3) n [of "n + 0xB8"] by (simp_all add: add.assoc)
  show "regs s RSP = ld64 (mem cpu) (n + 0x58) + 8" "rip s = ld64 (mem s) (ld64 (mem cpu) (n + 0x58))"
    using rs(1,4) n [of "n + 0x58"] by (simp_all add: add.assoc)
qed

text \<open>The layout of \<open>struct process\<close> on x86-64: \<open>context\<close> is a pointer, not the context itself.\<close>

definition offsetof_context :: u64 where
  "offsetof_context = 4 + 4 + 4 + 4 + 8 + 8"

definition offsetof_next :: u64 where
  "offsetof_next = offsetof_context + 8 * 7"

definition struct_process_size :: u64 where
  "struct_process_size = offsetof_next + 8 + 8 + 8 + 4 + 32 + 4 + 8 + 4 + 4"

definition example_cpu :: cpu where
  "example_cpu = \<lparr>regs = (\<lambda>r. if r = RDI then 0x1000 else if r = RSI then 0x2000 else if r = RSP then 0x8000 else 7),
    seg_cs = 0, seg_ds = 0, seg_es = 0, seg_fs = 0, seg_gs = 0, seg_ss = 0, rip = 0, rflags = 2,
    mem = st64 (st64 (st64 (st64 (\<lambda>_. 0) 0x8000 0x400) 0x8008 0x500) 0x2058 0x9000) 0x2028 3\<rparr>"

lemma example_apart: "apart 0x1000 0x2000 0x8000" "apart 0x2000 0x1000 0xA000"
  by (simp_all add: apart_def clear_of_def ctx_area_def ctx_offsets_eq sep_def)

lemma example_regs: "regs example_cpu RDI = 0x1000" "regs example_cpu RSI = 0x2000" "regs example_cpu RSP = 0x8000"
  "regs example_cpu RAX = 7" "rflags example_cpu = 2" "ld64 (mem example_cpu) 0x2058 = 0x9000"
  "ld64 (mem example_cpu) 0x8000 = 0x400" "ld64 (mem example_cpu) 0x8008 = 0x500" "ld64 (mem example_cpu) 0x2028 = 3"
  by (simp_all add: example_cpu_def sep_def)

text \<open>C34. What \<open>__switch_to\<close> does, in full: it loads every general register but \<open>rax\<close> and \<open>rsp\<close> from the words at
  offset 0x20 of the next process and \<open>rsp\<close> from there plus 8, after taking the word that stack pointer
  points to as the address to go on at; the flags come from the word at offset 0xB8, which also ends up in
  \<open>rax\<close>. The registers of the previous process are stored at offset 0x20 of its structure, with \<open>rsp\<close> as
  it was before the call, the return address in the word for \<open>rip\<close>, then the flags; no byte
  changes but those and the word below the stack pointer.\<close>

theorem switch_to_effect:
  assumes "apart (regs cpu RDI) (regs cpu RSI) (regs cpu RSP)"
  shows "let s = switch_to_asm af cpu; prev = regs cpu RDI; nxt = regs cpu RSI in
    (\<forall>r. r \<noteq> RAX \<and> r \<noteq> RSP \<longrightarrow> regs s r = ld64 (mem cpu) (nxt + 0x20 + gpr_offset r)) \<and>
    regs s RAX = ld64 (mem cpu) (nxt + 0xB8) \<and> rflags s = popfq_flags (ld64 (mem cpu) (nxt + 0xB8)) \<and>
    regs s RSP = ld64 (mem cpu) (nxt + 0x58) + 8 \<and> rip s = ld64 (mem s) (ld64 (mem cpu) (nxt + 0x58)) \<and>
    (\<forall>r. ld64 (mem s) (prev + 0x20 + gpr_offset r) = saved_reg cpu r) \<and>
    ld64 (mem s) (prev + 0xB0) = ld64 (mem cpu) (regs cpu RSP) \<and>
    ld64 (mem s) (prev + 0xB8) = saved_flags af cpu \<and>
    (\<forall>a. untouched prev (regs cpu RSP) a \<longrightarrow> mem s a = mem cpu a)"
  using switch_run [OF assms, where af = af] unfolding Let_def by blast

theorem switch_to_effect_witness:
  "let s = switch_to_asm (\<lambda>_ _ f. f) example_cpu in
    regs s RBX = 3 \<and> regs s RSP = 0x9008 \<and> ld64 (mem s) 0x10B0 = 0x400 \<and> ld64 (mem s) 0x10B8 = 2"
  using switch_to_effect [of example_cpu, unfolded example_regs, OF example_apart(1), where af = "\<lambda>_ _ f. f"]
  unfolding Let_def
  by (elim conjE) (auto simp: example_regs saved_flags_def pushfq_flags_def dest: spec [where x = RBX])

text \<open>\<open>__switch_to\<close> destroys the process structure it saves to: the routine takes the pointer \<open>context\<close> for the
  context itself, so that the pointer is overwritten with \<open>rax\<close> and the scheduler's link \<open>next\<close> with the
  stack pointer, and the words for \<open>rip\<close> and the flags are written behind the end of the structure.\<close>

theorem switch_to_clobbers:
  assumes "apart (regs cpu RDI) (regs cpu RSI) (regs cpu RSP)"
  shows "let s = switch_to_asm af cpu in
    ld64 (mem s) (regs cpu RDI + offsetof_context) = regs cpu RAX \<and>
    ld64 (mem s) (regs cpu RDI + offsetof_next) = regs cpu RSP + 8 \<and>
    (\<exists>k \<ge> struct_process_size. ld64 (mem s) (regs cpu RDI + k) = ld64 (mem cpu) (regs cpu RSP)) \<and>
    (\<exists>k \<ge> struct_process_size. ld64 (mem s) (regs cpu RDI + k) = saved_flags af cpu)"
proof -
  let ?s = "switch_to_asm af cpu"
  note r = switch_run [OF assms, where af = af]
  have "ld64 (mem ?s) (regs cpu RDI + offsetof_context) = regs cpu RAX" "ld64 (mem ?s) (regs cpu RDI + offsetof_next) = regs cpu RSP + 8"
    using r(1) [of RAX] r(1) [of RSP] by (simp_all add: offsetof_context_def offsetof_next_def saved_reg_def add.assoc)
  moreover have "struct_process_size \<le> 0xB0" "struct_process_size \<le> 0xB8"
    by (simp_all add: struct_process_size_def offsetof_context_def offsetof_next_def)
  ultimately show ?thesis unfolding Let_def using r(2,3) by blast
qed

theorem switch_to_clobbers_witness:
  "ld64 (mem (switch_to_asm (\<lambda>_ _ f. f) example_cpu)) (0x1000 + offsetof_context) = 7 \<and>
    ld64 (mem (switch_to_asm (\<lambda>_ _ f. f) example_cpu)) (0x1000 + offsetof_next) = 0x8008"
  using switch_to_clobbers [of example_cpu, unfolded example_regs, OF example_apart(1), where af = "\<lambda>_ _ f. f"]
  unfolding Let_def by (simp add: example_regs)

text \<open>C33. A process switched out by \<open>__switch_to\<close> does not continue where it was: when a later switch comes back
  to it, with its structure and its stack as it left them, the final \<open>ret\<close> takes the word above the return
  address, because the saved stack pointer is already past the return address and the saved \<open>rip\<close> is
  never used.\<close>

theorem switch_to_wrong_return:
  assumes "apart (regs cpu RDI) (regs cpu RSI) (regs cpu RSP)"
    and later: "regs cpu2 RSI = regs cpu RDI" "apart (regs cpu2 RDI) (regs cpu2 RSI) (regs cpu2 RSP)"
      "\<forall>a \<in> ctx_area (regs cpu RDI). ld64 (mem cpu2) a = ld64 (mem (switch_to_asm af cpu)) a"
      "ld64 (mem cpu2) (regs cpu RSP + 8) = ld64 (mem cpu) (regs cpu RSP + 8)"
      "clear_of (regs cpu RSP + 8) (regs cpu2 RDI)" "sep (regs cpu RSP + 8) (regs cpu2 RSP - 8)"
  shows "rip (switch_to_asm af cpu2) = ld64 (mem cpu) (regs cpu RSP + 8) \<and>
    ld64 (mem (switch_to_asm af cpu2)) (regs cpu RDI + 0xB0) = ld64 (mem cpu) (regs cpu RSP)"
proof -
  let ?p = "regs cpu RDI"
  have sp: "ld64 (mem cpu2) (?p + 0x58) = regs cpu RSP + 8" "ld64 (mem cpu2) (?p + 0xB0) = ld64 (mem cpu) (regs cpu RSP)"
    using later(3) switch_run(1) [OF assms(1), where af = af and r = RSP] switch_run(2) [OF assms(1), where af = af]
    by (simp_all add: saved_reg_def add.assoc)
  note r = switch_run [OF later(2), where af = af]
  have "ld64 (mem (switch_to_asm af cpu2)) (regs cpu RSP + 8) = ld64 (mem cpu2) (regs cpu RSP + 8)"
    by (rule untouched_word [OF later(5,6) r(4)])
  moreover have "ld64 (mem (switch_to_asm af cpu2)) (?p + 0xB0) = ld64 (mem cpu2) (?p + 0xB0)"
  proof (rule untouched_word [OF _ _ r(4)])
    have a: "\<forall>w \<in> ctx_area (regs cpu2 RDI). clear_of w ?p" "clear_of (regs cpu2 RSP - 8) ?p"
      using later(1,2) by (simp_all add: apart_def)
    have in_p: "?p + 0xB0 \<in> ctx_area ?p" by simp
    show "clear_of (?p + 0xB0) (regs cpu2 RDI)"
      using a(1) clear_ofD [OF _ in_p] unfolding clear_of_def [of "?p + 0xB0"] by blast
    show "sep (?p + 0xB0) (regs cpu2 RSP - 8)" using clear_ofD [OF a(2) in_p] by blast
  qed
  ultimately show ?thesis using r(9) later(1,4) sp by simp
qed

theorem switch_to_wrong_return_witness:
  "let s = switch_to_asm (\<lambda>_ _ f. f) example_cpu;
       s2 = switch_to_asm (\<lambda>_ _ f. f)
         (s\<lparr>regs := (regs s)(RDI := 0x2000, RSI := 0x1000, RSP := 0xA000)\<rparr>)
   in rip s2 = 0x500 \<and> ld64 (mem example_cpu) 0x8000 = 0x400"
proof -
  let ?s = "switch_to_asm (\<lambda>_ _ f. f) example_cpu"
  let ?c = "?s\<lparr>regs := (regs ?s)(RDI := 0x2000, RSI := 0x1000, RSP := 0xA000)\<rparr>"
  have cl: "clear_of 0x8008 0x1000" "clear_of 0x8008 0x2000"
    by (simp_all add: clear_of_def ctx_area_def ctx_offsets_eq sep_def)
  have m: "ld64 (mem ?s) 0x8008 = ld64 (mem example_cpu) 0x8008"
    by (rule untouched_word [OF cl(1) _ switch_run(4) [of example_cpu, unfolded example_regs, OF example_apart(1)]])
       (simp_all add: sep_def)
  have "rip (switch_to_asm (\<lambda>_ _ f. f) ?c) = ld64 (mem example_cpu) (0x8000 + 8)"
    using switch_to_wrong_return [of example_cpu ?c "\<lambda>_ _ f. f", unfolded example_regs, OF example_apart(1)]
      example_apart(2) m cl(2)
    by (simp add: sep_def)
  then show ?thesis by (simp add: example_regs)
qed

end
