(* ===== verification/Spec2Isabelle.thy ===== *)
theory Spec2Isabelle
  imports Process_MM Process_Time Process_SJF Process_Tests Cache_Heap Paging VFS_Typing Interrupt_Props
    Keyboard_Race Keyboard_Trace Switch_To
begin

text \<open>
  Verification library of a small x86 operating system kernel: a 32-bit kernel with a console, a keyboard
  driver and a shell (\<open>kernel/core\<close>, \<open>kernel/interrupt.c\<close>, \<open>kernel/printk.c\<close>, \<open>drivers/keyboard.c\<close>,
  \<open>kernel/shell.c\<close>), and subsystems for processes (\<open>kernel/process\<close>), memory (\<open>kernel/mm\<close>) and files
  (\<open>kernel/fs\<close>) that are built as libraries and are not yet called from \<open>kernel_main\<close>. All paths are
  under \<open>src/\<close>.

  \<^bold>\<open>How C is represented.\<close> \<open>Kernel_Prelude\<close>: integers keep their width (\<open>u8\<close> to \<open>u64\<close>; \<open>int\<close> is
  \<open>s32\<close>, read with \<open>sint\<close>), so additions wrap around where the C types do. A pointer is a 64-bit address;
  the objects of a structure type are a partial map from addresses, and a dereference that is not in the map
  is the fault \<open>BadPtr\<close>. A call is a function of the state with a result of type \<open>exec\<close>: it returns a value,
  hands the processor to another context (\<open>Xfer\<close>), never comes back (\<open>Spin\<close>) or faults (\<open>Crash\<close>). A C
  function is one definition; its loops and the halves it is split into are named after it. A loop that need
  not end is a \<open>partial_function (option)\<close>, and \<open>None\<close> becomes \<open>Spin\<close>. No definition of the kernel has
  fuel; the walk \<open>Heap_Props.walk\<close>, a proof device, is bounded by the heap size divided by the 32 bytes
  of a header, and the loop of a timer test (\<open>Unit_Tests.tick_loop\<close>) has 8 rounds, of which it needs 2.

  \<^bold>\<open>Process subsystem.\<close> \<open>Kmem\<close> is \<open>kernel/process/memory.c\<close> (a bump allocator and the memory
  descriptors), \<open>Process_MM\<close> its second copy \<open>kernel/mm/process_mm.c\<close>, shown equivalent. \<open>Context\<close> is
  \<open>kernel/process/context.c\<close>, the inline assembly one instruction at a time, over a memory of bytes in which
  an access may fault. The operand registers and the places where the compiled code keeps its variables
  between two assembly statements are parameters, because the assembly does not declare what it
  overwrites: code that keeps them in the frame, such as the object file in \<open>build/\<close>, faults when it
  restores a new process. \<open>Switch_To\<close> is \<open>kernel/process/switch.S\<close>, an interpreter of the instructions over
  the same memory and the routine as a list of instructions. \<open>Process_Types\<close> has the process control block and the global state, \<open>Scheduler\<close> is
  \<open>kernel/process/scheduler.c\<close> and \<open>Process\<close> is \<open>kernel/process/process.c\<close>: \<open>schedule\<close> takes the head of
  the linked ready queue, \<open>process_create\<close> allocates and queues, \<open>process_exit\<close> wakes the blocked and
  schedules, \<open>process_wait\<close> blocks or reaps. \<open>Process_Inv\<close>, \<open>Process_Ops\<close> and \<open>Process_Create\<close> show that
  every operation keeps the invariant of task table, ready queue, states and memory; \<open>Process_System\<close> has
  the states reachable from \<open>process_init\<close>; \<open>Process_Props\<close> the properties. \<open>Process_Frame\<close> shows what no call
  touches, the contexts and the places of the control blocks and stacks, and with it the consistency of every
  reachable state, memory included. \<open>Process_Spec\<close> is the contract
  of the whole subsystem: an abstract scheduler over process numbers, with the queue, the waiting, the exit
  codes and the time slices, whose labelled steps are requests and replies; every run of the code is a
  trace of it. \<open>Process_Time\<close> draws from it that under timer ticks alone every ready process gets the
  processor in bounded time. \<open>Process_SJF\<close> is the second scheduler of \<open>process.c\<close>, which runs the shortest job
  and whose recursion ends unless every ready task has priority 0 and no time left. \<open>Process_Run\<close> puts the
  subsystem on the processor of \<open>Context\<close>: a call that ends in a transfer is followed by \<open>context_switch\<close> up to
  its call of \<open>context_restore\<close> (\<open>context_hand_over\<close>), and the state has the context that call is handed. So its
  theorems do not depend on what the compiler makes of \<open>context_restore\<close>. No two processes share a context,
  so whatever the others do, at its next turn a process is handed the registers \<open>context_save\<close> stored for
  it, and a new process the context made for its entry point.

  \<^bold>\<open>Memory.\<close> \<open>Heap\<close> is the first-fit allocator \<open>kernel/mm/heap.c\<close>; \<open>Heap_Inv\<close> and \<open>Heap_Props\<close> show that
  its doubly linked list tiles the heap and that \<open>kmalloc\<close> and \<open>kfree\<close> are first fit with splitting and
  merging on the list of blocks, \<open>Heap_Live\<close> which blocks are in use before and after each call. For clients
  a heap on which a call has faulted is \<open>None\<close>, so that a property of the clients excludes it. \<open>Paging\<close> is
  \<open>kernel/mm/physical.c\<close>, \<open>virtual.c\<close> and \<open>paging.c\<close>, most of whose bodies are empty.

  \<^bold>\<open>Files.\<close> \<open>Cache\<close>, \<open>Cache_Inv\<close> and \<open>Cache_Calls\<close>: the block cache \<open>kernel/fs/cache.c\<close>, its calls over
  any allocator, hits, misses and eviction of the least recently used block that nobody holds.
  \<open>Cache_Props\<close> has it on the bump allocator, \<open>Cache_Heap\<close> on the heap, where evicted memory is used again:
  the cache frees exactly what it allocated. \<open>VFS\<close> and \<open>VFS_Props\<close>: \<open>kernel/fs/vfs.c\<close> and \<open>fs_ops.c\<close>; the
  operations of a concrete file system, called through pointers, are a parameter. The registry of file
  system types is a map from names. \<open>VFS_Typing\<close>: every stored pointer is null or points to an object of
  its type, and no operation faults, from any such state, as long as the file systems keep to their
  interface (\<open>calls_ok\<close>).

  \<^bold>\<open>Console, keyboard, interrupts.\<close> \<open>C_String\<close>: \<open>kernel/string.c\<close>. \<open>Console\<close> and \<open>Console_Props\<close>:
  \<open>kernel/printk.c\<close>, the screen memory as a refinement of an abstract terminal, \<open>itoa\<close> against numerals,
  \<open>printk\<close> against the expansion of its format. \<open>Keyboard\<close>, \<open>Keyboard_Props\<close>, \<open>Keyboard_Race\<close>: the input
  buffer is a bounded queue under interrupts, \<open>get_key\<close> takes its head; \<open>read_input\<close> and the shell. There
  interrupts come between calls of \<open>get_key\<close> and while it waits on an empty buffer. \<open>Keyboard_Trace\<close>: any
  such sequence of interrupts and reads is a trace of a queue of characters. \<open>Keyboard_Race\<close> has a state
  machine with interrupts also between the copy and the decrement of \<open>get_key\<close>: it is unsafe, and would be
  safe if the code masked interrupts there, which it does not; interrupts inside the loop that shifts the
  buffer are left out. \<open>Interrupt\<close>
  and \<open>Interrupt_Props\<close>: \<open>kernel/interrupt.c\<close> and \<open>kernel/core/init.c\<close>, the descriptor table, the commands
  to the interrupt controllers, and that \<open>kernel_main\<close> returns from \<open>kernel_boot\<close>, everything before its last
  statement, into the shell. The values \<open>inb\<close> returns and the
  scancodes of later interrupts are lists; when they are used up, a waiting loop is a \<open>Spin\<close>.

  \<^bold>\<open>Tests.\<close> \<open>Unit_Tests\<close>: the unit tests of the scheduler, of process states and of \<open>kmalloc\<close> in \<open>tests/\<close>
  run on the model, with the results they have there; one of the scheduler's tests fails. \<open>Process_Tests\<close>: the
  programs that test the process subsystem as a whole, on the machine of \<open>Process_Run\<close>; both switch away at
  their first \<open>schedule\<close>, and the idle process, which they run as, has no program counter to come back to.

  \<^bold>\<open>Interfaces.\<close> \<open>Allocator_Spec.allocator\<close>: what a caller of \<open>kmalloc\<close> relies on, interpreted by both
  bump allocators and by the heap. It has two extensions: \<open>Cache_Props.permanent_allocator\<close>, whose \<open>kfree\<close>
  gives nothing back, interpreted by \<open>Kmem\<close>, and \<open>Allocator_Spec.reclaiming_allocator\<close>, interpreted by the
  heap; each is a sublocale of \<open>Cache_Calls.cache_store\<close>, what the cache needs of its memory.
  \<open>Queue_Interface.fifo_queue\<close>: the ready queue. \<open>VFS_Props.registry\<close>: a registry by name.
  \<open>Safe_Calls.safe_calls\<close>: calls that keep an invariant do so in any sequence, interpreted by the process
  subsystem, by the same on the processor, by the cache on both allocators and by the virtual file system.
  \<open>Simulation.forward_simulation\<close>: calls matched by the steps of an abstract system run to their end and
  are a trace of it (and so \<open>safe_calls\<close>), interpreted by the process subsystem and by the keyboard
  driver.

  \<^bold>\<open>Callers' obligations.\<close> What the code relies on and does not check is a hypothesis: the idle process does not
  block, a pointer passed to \<open>scheduler_wake\<close> is null or a process of the table, a block passed to the
  cache came from it, the names of file system types have no null character and a type with a name has a
  \<open>mount\<close> operation.

  \<^bold>\<open>Not modelled.\<close> \<open>boot/boot.S\<close> (the multiboot header and a call of \<open>kernel_main\<close>);
  \<open>kernel/utils/printk.c\<close>, which passes its arguments to \<open>vprintf\<close>; the empty files \<open>arch/x86/traps.c\<close>,
  \<open>kernel/syscall.c\<close>, \<open>init/main.c\<close>, \<open>file_manager/a.c\<close>; \<open>tests/process/test_process_control.c\<close>, which calls a
  function that is defined nowhere; the bodies of the test processes, which print and count. The text the
  process subsystem prints, the trace of \<open>kfree\<close> apart, is not part of its state. Transfers between the
  cache and a disk, the page table walks and path lookup are comments in the source.
\<close>

end
